(* ===== verification/Ribs_Prelude.thy ===== *)
theory Ribs_Prelude
  imports Main "HOL-Library.Word" "HOL-Library.Multiset"
begin

text \<open>
  Vocabulary shared by the components: the C integer types as natural numbers
  with the wrap-around written out, bytes, alignment of sizes to powers of two,
  masks, and the collections of facts the component proofs rewrite with.

  A \<^verbatim>\<open>uint32_t\<close> or \<^verbatim>\<open>size_t\<close> variable is a \<^typ>\<open>nat\<close>; \<open>u32\<close> and \<open>u64\<close> are the
  conversions the compiler inserts, and \<open>add64\<close>, \<open>sub64\<close>, \<open>shl64\<close> are the C operators
  on \<^verbatim>\<open>size_t\<close>.
\<close>

named_theorems ribs_arith \<open>machine arithmetic inside its range\<close>
named_theorems ribs_defs \<open>definitions of small accessors\<close>

unbundle bit_operations_syntax

type_synonym byte = "8 word"

definition u32 :: "nat \<Rightarrow> nat" where
  "u32 n = n mod 2 ^ 32"

definition u64 :: "nat \<Rightarrow> nat" where
  "u64 n = n mod 2 ^ 64"

definition add64 :: "nat \<Rightarrow> nat \<Rightarrow> nat" where
  "add64 a b = u64 (a + b)"

definition sub64 :: "nat \<Rightarrow> nat \<Rightarrow> nat" where
  "sub64 a b = u64 (a + (2 ^ 64 - b mod 2 ^ 64))"

definition shl64 :: "nat \<Rightarrow> nat \<Rightarrow> nat" where
  "shl64 a k = u64 (a * 2 ^ k)"

definition mul64 :: "nat \<Rightarrow> nat \<Rightarrow> nat" where
  "mul64 a b = u64 (a * b)"

lemma u32_small [ribs_arith]: "n < 2 ^ 32 \<Longrightarrow> u32 n = n"
  by (simp add: u32_def)

lemma u32_lt: "u32 n < 2 ^ 32"
  by (simp add: u32_def)

lemma u64_small [ribs_arith]: "n < 2 ^ 64 \<Longrightarrow> u64 n = n"
  by (simp add: u64_def)

lemma u64_lt: "u64 n < 2 ^ 64"
  by (simp add: u64_def)

lemma add64_small [ribs_arith]: "a + b < 2 ^ 64 \<Longrightarrow> add64 a b = a + b"
  by (simp add: add64_def u64_def)

lemma sub64_small [ribs_arith]:
  assumes "b \<le> a" "a < 2 ^ 64"
  shows "sub64 a b = a - b"
proof -
  have eq: "a + (2 ^ 64 - b mod 2 ^ 64) = (a - b) + 2 ^ 64"
    using assms by simp
  show ?thesis
    unfolding sub64_def u64_def eq
    by (simp only: mod_add_self2 mod_less less_imp_diff_less assms(2))
qed

lemma shl64_small [ribs_arith]: "a * 2 ^ k < 2 ^ 64 \<Longrightarrow> shl64 a k = a * 2 ^ k"
  by (simp add: shl64_def u64_def)

lemma mul64_small [ribs_arith]: "a * b < 2 ^ 64 \<Longrightarrow> mul64 a b = a * b"
  by (simp add: mul64_def u64_def)

text \<open>Rounding up to a multiple of a power of two, as \<open>(x + (a - 1)) & ~(a - 1)\<close> on
  \<^verbatim>\<open>size_t\<close> computes it.\<close>

definition align_up :: "nat \<Rightarrow> nat \<Rightarrow> nat" where
  "align_up a x = (let y = add64 x (a - 1) in y - y mod a)"

lemma align_up_dvd: "a dvd align_up a x"
  by (simp add: align_up_def Let_def minus_mod_eq_mult_div)

lemma align_up_ge:
  assumes "0 < a" "x + a \<le> 2 ^ 64"
  shows "x \<le> align_up a x"
proof -
  have "(x + (a - 1)) mod a \<le> a - 1"
    using assms(1) by (metis Suc_pred' less_Suc_eq_le mod_less_divisor)
  then show ?thesis
    using assms by (simp add: align_up_def Let_def add64_small)
qed

lemma align_up_lt:
  assumes "0 < a" "x + a \<le> 2 ^ 64"
  shows "align_up a x < x + a"
  using assms by (simp add: align_up_def Let_def add64_small)

lemma align_up_id:
  assumes "0 < a" "a dvd x" "x + a \<le> 2 ^ 64"
  shows "align_up a x = x"
proof -
  obtain q where q: "x = a * q"
    using assms(2) by (elim dvdE)
  obtain r where r: "align_up a x = a * r"
    using align_up_dvd[of a x] by (elim dvdE)
  have "a * q \<le> a * r" "a * r < a * q + a"
    using align_up_ge[OF assms(1,3)] align_up_lt[OF assms(1,3)] q r by simp_all
  then have "a * q \<le> a * r" "a * r < a * Suc q"
    by simp_all
  then have "q \<le> r" "r < Suc q"
    using assms(1) by (simp_all only: mult_le_cancel1 mult_less_cancel1)
  then show ?thesis
    using q r by simp
qed

text \<open>A table mask is one less than a power of two, and \<open>hc & mask\<close> is then the remainder.\<close>

lemma and_mask_mod: "x AND (2 ^ k - 1) = x mod (2 ^ k :: nat)"
proof -
  have "x AND mask k = take_bit k x"
    by (simp add: take_bit_eq_mask)
  then show ?thesis
    by (simp add: mask_eq_exp_minus_1 take_bit_eq_mod)
qed

lemma and_mask_le: "x AND (2 ^ k - 1) \<le> (2 ^ k - 1 :: nat)"
proof -
  have "x mod 2 ^ k < 2 ^ k"
    by simp
  then show ?thesis
    unfolding and_mask_mod by linarith
qed

lemma mod_double_cases:
  fixes x c :: nat
  assumes "0 < c"
  shows "x mod (2 * c) = x mod c \<or> x mod (2 * c) = x mod c + c"
proof -
  have "x mod (2 * c) = c * (x div c mod 2) + x mod c"
    by (metis mod_mult2_eq mult.commute)
  moreover have "x div c mod 2 = 0 \<or> x div c mod 2 = 1"
    by arith
  ultimately show ?thesis
    by auto
qed

section \<open>The kernel's answers\<close>

text \<open>The memory and file system calls are outside the repository.  A value of type
  \<open>kernel\<close> fixes what they answer: whether a mapping of a given size is granted, whether a
  mapping can be resized, whether a file can be truncated or extended to a length.  Every
  operation that issues such a call takes the answers as an argument; \<open>grants\<close> is the
  hypothesis that the kernel has memory to give.\<close>

record kernel =
  k_mmap :: "nat \<Rightarrow> bool"
  k_mremap :: "nat \<Rightarrow> nat \<Rightarrow> bool"
  k_ftruncate :: "nat \<Rightarrow> bool"

definition grants :: "kernel \<Rightarrow> bool" where
  "grants k \<longleftrightarrow> (\<forall>n. k_mmap k n) \<and> (\<forall>m n. k_mremap k m n) \<and> (\<forall>n. k_ftruncate k n)"

definition generous :: kernel where
  "generous = \<lparr>k_mmap = (\<lambda>_. True), k_mremap = (\<lambda>_ _. True), k_ftruncate = (\<lambda>_. True)\<rparr>"

lemma grants_generous [simp]: "grants generous"
  by (simp add: grants_def generous_def)

section \<open>Untyped memory seen from a base address\<close>

definition mem_copy :: "(nat \<Rightarrow> byte) \<Rightarrow> nat \<Rightarrow> byte list \<Rightarrow> nat \<Rightarrow> byte" where
  "mem_copy f ofs xs = (\<lambda>i. if ofs \<le> i \<and> i < ofs + length xs then xs ! (i - ofs) else f i)"

definition mem_read :: "(nat \<Rightarrow> byte) \<Rightarrow> nat \<Rightarrow> nat \<Rightarrow> byte list" where
  "mem_read f ofs n = map (\<lambda>i. f (ofs + i)) [0..<n]"

lemma length_mem_read [simp]: "length (mem_read f ofs n) = n"
  by (simp add: mem_read_def)

lemma mem_read_copy_same [simp]: "mem_read (mem_copy f ofs xs) ofs (length xs) = xs"
  by (rule nth_equalityI) (simp_all add: mem_read_def mem_copy_def)

lemma mem_read_copy_disj:
  "ofs + n \<le> ofs' \<or> ofs' + length xs \<le> ofs \<Longrightarrow> mem_read (mem_copy f ofs' xs) ofs n = mem_read f ofs n"
  by (rule nth_equalityI) (auto simp: mem_read_def mem_copy_def)

lemma mem_copy_Nil [simp]: "mem_copy m a [] = m"
  by (rule ext) (auto simp: mem_copy_def)

lemma mem_copy_outside: "i < a \<or> a + length xs \<le> i \<Longrightarrow> mem_copy m a xs i = m i"
  by (auto simp: mem_copy_def)

lemma mem_copy_Cons: "mem_copy m a (x # xs) = mem_copy (m(a := x)) (a + 1) xs"
  by (rule ext) (auto simp: mem_copy_def nth_Cons')

lemma mem_copy_snoc: "(mem_copy m a xs)(a + length xs := y) = mem_copy m a (xs @ [y])"
  by (rule ext) (auto simp: mem_copy_def nth_append)

lemma mem_read_Suc: "mem_read m a (Suc n) = m a # mem_read m (a + 1) n"
  by (simp add: mem_read_def map_upt_Suc del: upt_Suc)

lemma mem_read_cong: "(\<And>i. i < n \<Longrightarrow> m' (a + i) = m (a + i)) \<Longrightarrow> mem_read m' a n = mem_read m a n"
  by (simp add: mem_read_def)


section \<open>Simulation\<close>

text \<open>One step of the code against one step of its specification; a run is then a run of the
  specification.  The components whose contract is a data type interpret it.\<close>

fun pre_run :: "('o \<Rightarrow> 'a \<Rightarrow> 'a) \<Rightarrow> ('o \<Rightarrow> 'a \<Rightarrow> bool) \<Rightarrow> 'o list \<Rightarrow> 'a \<Rightarrow> bool" where
  "pre_run astep pre [] a \<longleftrightarrow> True"
| "pre_run astep pre (op # ops) a \<longleftrightarrow> pre op a \<and> pre_run astep pre ops (astep op a)"

locale simulation =
  fixes rel :: "'c \<Rightarrow> 'a \<Rightarrow> bool"
    and cstep :: "'o \<Rightarrow> 'c \<Rightarrow> 'c"
    and astep :: "'o \<Rightarrow> 'a \<Rightarrow> 'a"
    and pre :: "'o \<Rightarrow> 'a \<Rightarrow> bool"
  assumes step_sim: "rel c a \<Longrightarrow> pre op a \<Longrightarrow> rel (cstep op c) (astep op a)"
begin

lemma run_sim: "rel c a \<Longrightarrow> pre_run astep pre ops a \<Longrightarrow> rel (fold cstep ops c) (fold astep ops a)"
  by (induction ops arbitrary: c a) (auto intro: step_sim)

end

end
