(* ===== verification/Open_Addressing.thy ===== *)
theory Open_Addressing
  imports Ribs_Prelude
begin

text \<open>
  Linear probing over a power-of-two bucket array: the loops that
  \<^verbatim>\<open>hashtable.c\<close>, \<^verbatim>\<open>thashtable.c\<close>, \<^verbatim>\<open>lhashtable.c\<close> and \<^verbatim>\<open>_hashtable_vect.c\<close> repeat over their
  own bucket storage.  The loops are written over two accessors, \<open>get\<close> for the entry a
  bucket number denotes and \<open>put\<close> for a store into it; each table instantiates them with
  its own bucket address computation.  The locale \<open>bucket_array\<close> states what the loops
  need of the accessors, and the theorems about probing, deletion and in-place
  doubling are proved once there.
\<close>

section \<open>Bucket entries and the probing loops\<close>

record ht_entry =
  e_hashcode :: nat
  e_rec :: nat

lemma ht_entry_eta [simp]: "\<lparr>e_hashcode = e_hashcode x, e_rec = e_rec x\<rparr> = (x :: ht_entry)"
  by (cases x) simp

definition nxt :: "nat \<Rightarrow> nat \<Rightarrow> nat" where
  "nxt msk b = (if b + 1 > msk then 0 else b + 1)"

partial_function (option) probe :: "(nat \<Rightarrow> bool) \<Rightarrow> nat \<Rightarrow> nat \<Rightarrow> nat option" where
  "probe stop msk b = (if stop b then Some b else probe stop msk (nxt msk b))"

partial_function (option) oa_first_free ::
    "('s \<Rightarrow> nat \<Rightarrow> ht_entry) \<Rightarrow> 's \<Rightarrow> nat \<Rightarrow> nat option" where
  "oa_first_free get s b =
     (if e_rec (get s b) = 0 then Some b else oa_first_free get s (b + 1))"

function oa_move_range ::
    "('s \<Rightarrow> nat \<Rightarrow> ht_entry) \<Rightarrow> ('s \<Rightarrow> nat \<Rightarrow> ht_entry \<Rightarrow> 's) \<Rightarrow>
     nat \<Rightarrow> nat \<Rightarrow> nat \<Rightarrow> 's \<Rightarrow> 's option" where
  "oa_move_range get put new_mask begin_b end_b s =
     (if begin_b < end_b then
        (let e = get s begin_b;
             new_bkt_idx = e_hashcode e AND new_mask
         in if begin_b = new_bkt_idx
            then oa_move_range get put new_mask (begin_b + 1) end_b s
            else
              (let s1 = put s begin_b (e\<lparr>e_rec := 0\<rparr>)
               in case probe (\<lambda>i. e_rec (get s1 i) = 0) new_mask new_bkt_idx of
                    None \<Rightarrow> None
                  | Some t \<Rightarrow>
                      oa_move_range get put new_mask (begin_b + 1) end_b
                        (put s1 t \<lparr>e_hashcode = e_hashcode e, e_rec = e_rec e\<rparr>)))
      else Some s)"
  by pat_completeness auto
termination
  by (relation "measure (\<lambda>(get, put, new_mask, b, e, s). e - b)", rule wf_measure)
    (unfold in_measure split_conv, linarith+)

declare oa_move_range.simps [simp del]

partial_function (option) oa_fix_chain_down ::
    "('s \<Rightarrow> nat \<Rightarrow> ht_entry) \<Rightarrow> ('s \<Rightarrow> nat \<Rightarrow> ht_entry \<Rightarrow> 's) \<Rightarrow>
     nat \<Rightarrow> nat \<Rightarrow> 's \<Rightarrow> 's option" where
  "oa_fix_chain_down get put msk bucket s =
     (let bkt = get s bucket
      in if e_rec bkt = 0 then Some s
         else
           (case probe (\<lambda>i. i = bucket \<or> e_rec (get s i) = 0) msk (e_hashcode bkt AND msk) of
              None \<Rightarrow> None
            | Some t \<Rightarrow>
                oa_fix_chain_down get put msk (nxt msk bucket)
                  (if t = bucket then s
                   else put (put s t bkt) bucket (bkt\<lparr>e_rec := 0\<rparr>))))"

section \<open>Cyclic order made linear by an empty bucket\<close>

text \<open>Counting buckets from the one after \<open>e\<close>, bucket \<open>e\<close> comes last.  When \<open>e\<close> is empty no
  probe sequence crosses it, so every sequence is an interval of ranks.\<close>

definition rk :: "nat \<Rightarrow> nat \<Rightarrow> nat \<Rightarrow> nat" where
  "rk e m i = (if e < i then i - e - 1 else i + m - e)"

lemma rk_le: "i \<le> m \<Longrightarrow> e \<le> m \<Longrightarrow> rk e m i \<le> m"
  by (auto simp: rk_def)

lemma rk_last: "e \<le> m \<Longrightarrow> rk e m e = m"
  by (simp add: rk_def)

lemma rk_inj: "rk e m i = rk e m j \<Longrightarrow> i \<le> m \<Longrightarrow> j \<le> m \<Longrightarrow> e \<le> m \<Longrightarrow> i = j"
  by (auto simp: rk_def split: if_splits)

lemma rk_eq_iff: "i \<le> m \<Longrightarrow> j \<le> m \<Longrightarrow> e \<le> m \<Longrightarrow> rk e m i = rk e m j \<longleftrightarrow> i = j"
  by (auto intro: rk_inj)

lemma rk_above:
  assumes "b < h" "b < u" "u \<le> n" "rk b n h \<le> rk b n q" "rk b n q \<le> rk b n u"
  shows "h \<le> q \<and> q \<le> u"
proof (cases "b < q")
  case True
  then show ?thesis
    using assms by (simp add: rk_def le_diff_iff Suc_le_eq)
next
  case False
  then have "q + n - b \<le> u - b - 1"
    using assms by (simp add: rk_def)
  then show ?thesis
    using assms False by linarith
qed

lemma nxt_le: "b \<le> m \<Longrightarrow> nxt m b \<le> m"
  by (simp add: nxt_def)

lemma rk_nxt: "b \<le> m \<Longrightarrow> e \<le> m \<Longrightarrow> b \<noteq> e \<Longrightarrow> rk e m (nxt m b) = Suc (rk e m b)"
  by (auto simp: rk_def nxt_def)

lemma rk_lt_last: "b \<le> m \<Longrightarrow> e \<le> m \<Longrightarrow> b \<noteq> e \<Longrightarrow> rk e m b < m"
  by (auto simp: rk_def)

lemma probe_rk:
  assumes "e \<le> m" "t \<le> m" "stop t"
  shows "b \<le> m \<Longrightarrow> rk e m b \<le> rk e m t \<Longrightarrow>
    (\<And>j. j \<le> m \<Longrightarrow> rk e m b \<le> rk e m j \<Longrightarrow> rk e m j < rk e m t \<Longrightarrow> \<not> stop j) \<Longrightarrow>
    probe stop m b = Some t"
proof (induction "rk e m t - rk e m b" arbitrary: b)
  case 0
  then have "b = t"
    using assms by (auto intro: rk_inj[of e m])
  then show ?case
    using assms by (simp add: probe.simps)
next
  case (Suc k)
  have lt: "rk e m b < rk e m t"
    using Suc.hyps(2) by simp
  have ns: "\<not> stop b"
    using Suc.prems(1,3) lt by simp
  have "b \<noteq> e"
    using lt rk_le[OF assms(2,1)] rk_last[OF assms(1)] by auto
  then have r: "rk e m (nxt m b) = Suc (rk e m b)"
    using Suc.prems(1) assms(1) by (simp add: rk_nxt)
  have "probe stop m (nxt m b) = Some t"
  proof (rule Suc.hyps(1))
    show "k = rk e m t - rk e m (nxt m b)" "rk e m (nxt m b) \<le> rk e m t"
      using r Suc.hyps(2) by simp_all
    show "nxt m b \<le> m"
      using Suc.prems(1) by (rule nxt_le)
    show "\<not> stop j" if "j \<le> m" "rk e m (nxt m b) \<le> rk e m j" "rk e m j < rk e m t" for j
      using Suc.prems(3) that r by simp
  qed
  then show ?case
    using ns by (simp add: probe.simps[of stop m b])
qed

lemma probe_ex:
  assumes "e \<le> m" "b \<le> m" "u \<le> m" "stop u" "rk e m b \<le> rk e m u"
  obtains t where "probe stop m b = Some t" "t \<le> m" "stop t"
    "rk e m b \<le> rk e m t" "rk e m t \<le> rk e m u"
    "\<And>j. j \<le> m \<Longrightarrow> rk e m b \<le> rk e m j \<Longrightarrow> rk e m j < rk e m t \<Longrightarrow> \<not> stop j"
proof -
  define Q where "Q = (\<lambda>t. t \<le> m \<and> stop t \<and> rk e m b \<le> rk e m t)"
  obtain t where t: "Q t" and least: "\<And>j. Q j \<Longrightarrow> rk e m t \<le> rk e m j"
    using ex_has_least_nat[of Q u "rk e m"] assms Q_def by auto
  have before: "\<not> stop j" if "j \<le> m" "rk e m b \<le> rk e m j" "rk e m j < rk e m t" for j
    using least[of j] that by (auto simp: Q_def)
  have "probe stop m b = Some t"
    using probe_rk[OF assms(1), of t stop b] t before assms(2) by (auto simp: Q_def)
  then show ?thesis
    using that[of t] t before least[of u] assms by (auto simp: Q_def)
qed

section \<open>The table invariant\<close>

text \<open>A bucket is occupied when its record reference is not 0.  \<open>probe_ok\<close>: every bucket
  from the home of an entry up to the entry, in probing order, is occupied.\<close>

definition occ :: "(nat \<Rightarrow> ht_entry) \<Rightarrow> nat \<Rightarrow> bool" where
  "occ T i \<longleftrightarrow> e_rec (T i) \<noteq> 0"

definition home :: "(nat \<Rightarrow> ht_entry) \<Rightarrow> nat \<Rightarrow> nat \<Rightarrow> nat" where
  "home T m i = e_hashcode (T i) AND m"

definition cyc_between :: "nat \<Rightarrow> nat \<Rightarrow> nat \<Rightarrow> bool" where
  "cyc_between h j i \<longleftrightarrow> (if h \<le> i then h \<le> j \<and> j \<le> i else h \<le> j \<or> j \<le> i)"

definition probe_ok :: "(nat \<Rightarrow> ht_entry) \<Rightarrow> nat \<Rightarrow> bool" where
  "probe_ok T m \<longleftrightarrow>
     (\<forall>i\<le>m. occ T i \<longrightarrow> (\<forall>j\<le>m. cyc_between (home T m i) j i \<longrightarrow> occ T j))"

definition lin_ok :: "nat \<Rightarrow> (nat \<Rightarrow> ht_entry) \<Rightarrow> nat \<Rightarrow> bool" where
  "lin_ok e T m \<longleftrightarrow>
     (\<forall>i\<le>m. occ T i \<longrightarrow> rk e m (home T m i) \<le> rk e m i \<and>
        (\<forall>j\<le>m. rk e m (home T m i) \<le> rk e m j \<and> rk e m j \<le> rk e m i \<longrightarrow> occ T j))"

definition ebag :: "ht_entry \<Rightarrow> (nat \<times> nat) multiset" where
  "ebag x = (if e_rec x = 0 then {#} else {#(e_hashcode x, e_rec x)#})"

definition bag :: "(nat \<Rightarrow> ht_entry) \<Rightarrow> nat \<Rightarrow> (nat \<times> nat) multiset" where
  "bag T m = (\<Sum>i\<le>m. ebag (T i))"

lemma cyc_between_rk:
  assumes "e \<le> m" "h \<le> m" "i \<le> m" "j \<le> m" "rk e m h \<le> rk e m i"
  shows "cyc_between h j i \<longleftrightarrow> rk e m h \<le> rk e m j \<and> rk e m j \<le> rk e m i"
  using assms by (auto simp: cyc_between_def rk_def split: if_splits)

lemma cyc_between_wrap:
  assumes "e \<le> m" "h \<le> m" "i \<le> m" "\<not> rk e m h \<le> rk e m i"
  shows "cyc_between h e i"
  using assms by (auto simp: cyc_between_def rk_def split: if_splits)

lemma home_le: "m = 2 ^ k - 1 \<Longrightarrow> home T m i \<le> m"
  unfolding home_def by (simp only: and_mask_le)

lemma probe_ok_lin:
  assumes "m = 2 ^ k - 1" "e \<le> m" "\<not> occ T e"
  shows "probe_ok T m \<longleftrightarrow> lin_ok e T m"
proof
  assume ok: "probe_ok T m"
  show "lin_ok e T m"
    unfolding lin_ok_def
  proof (intro allI impI)
    fix i
    assume i: "i \<le> m" "occ T i"
    have "rk e m (home T m i) \<le> rk e m i"
      using ok i assms cyc_between_wrap[OF assms(2) home_le[OF assms(1)] i(1)]
      unfolding probe_ok_def by blast
    then show "rk e m (home T m i) \<le> rk e m i \<and>
        (\<forall>j\<le>m. rk e m (home T m i) \<le> rk e m j \<and> rk e m j \<le> rk e m i \<longrightarrow> occ T j)"
      using ok i cyc_between_rk[OF assms(2) home_le[OF assms(1)] i(1)]
      unfolding probe_ok_def by blast
  qed
next
  assume "lin_ok e T m"
  then show "probe_ok T m"
    using cyc_between_rk[OF assms(2) home_le[OF assms(1)]]
    unfolding lin_ok_def probe_ok_def by blast
qed

lemma bag_upd:
  assumes "i \<le> m"
  shows "bag (T(i := x)) m + ebag (T i) = bag T m + ebag x"
proof -
  have "bag (T(i := x)) m = ebag x + (\<Sum>j\<in>{..m} - {i}. ebag (T j))"
    unfolding bag_def using assms by (subst sum.remove[of _ i]) (auto intro!: sum.cong)
  moreover have "bag T m = ebag (T i) + (\<Sum>j\<in>{..m} - {i}. ebag (T j))"
    unfolding bag_def using assms by (subst sum.remove[of _ i]) auto
  ultimately show ?thesis
    by simp
qed

lemma bag_cong: "(\<And>i. i \<le> m \<Longrightarrow> T i = T' i) \<Longrightarrow> bag T m = bag T' m"
  unfolding bag_def by (rule sum.cong) auto

lemma in_bag: "(h, r) \<in># bag T m \<longleftrightarrow> (\<exists>i\<le>m. occ T i \<and> e_hashcode (T i) = h \<and> e_rec (T i) = r)"
proof -
  have "(h, r) \<in># bag T m \<longleftrightarrow> (\<exists>i\<le>m. (h, r) \<in># ebag (T i))"
    by (induction m) (auto simp: bag_def le_Suc_eq)
  then show ?thesis
    by (auto simp: ebag_def occ_def)
qed

lemma size_bag: "size (bag T m) = card {i. i \<le> m \<and> occ T i}"
proof (induction m)
  case 0
  have "{i. i = 0 \<and> occ T i} = (if occ T 0 then {0} else {})"
    by auto
  then show ?case
    by (simp add: bag_def ebag_def occ_def)
next
  case (Suc m)
  have "{i. i \<le> Suc m \<and> occ T i} =
      (if occ T (Suc m) then insert (Suc m) {i. i \<le> m \<and> occ T i} else {i. i \<le> m \<and> occ T i})"
    by (auto simp: le_Suc_eq)
  moreover have "finite {i. i \<le> m \<and> occ T i}"
    by simp
  ultimately show ?case
    using Suc by (simp add: bag_def ebag_def occ_def)
qed

lemma bag_double: "(\<And>i. m < i \<Longrightarrow> i \<le> n \<Longrightarrow> e_rec (T i) = 0) \<Longrightarrow> m \<le> n \<Longrightarrow> bag T n = bag T m"
  unfolding bag_def by (rule sum.mono_neutral_right) (auto simp: ebag_def)

lemma ex_empty:
  assumes "size (bag T m) \<le> m"
  obtains e where "e \<le> m" "\<not> occ T e"
proof -
  have "{i. i \<le> m \<and> occ T i} \<noteq> {..m}"
    using assms size_bag[of T m] by auto
  then show ?thesis
    using that by auto
qed

section \<open>Searching and filling\<close>

lemma probe_search:
  assumes m: "m = 2 ^ k - 1" and ok: "probe_ok T m" and room: "size (bag T m) \<le> m"
    and hash: "\<And>h r. (h, r) \<in># bag T m \<Longrightarrow> P r \<Longrightarrow> h = hc"
  obtains t where
    "probe (\<lambda>i. e_rec (T i) = 0 \<or> e_hashcode (T i) = hc \<and> P (e_rec (T i))) m (hc AND m) = Some t"
    "t \<le> m"
    "occ T t \<longrightarrow> e_hashcode (T t) = hc \<and> P (e_rec (T t))"
    "\<not> occ T t \<longrightarrow> (\<forall>h r. (h, r) \<in># bag T m \<longrightarrow> \<not> P r) \<and>
       (\<forall>j\<le>m. cyc_between (hc AND m) j t \<and> j \<noteq> t \<longrightarrow> occ T j)"
proof -
  let ?stop = "\<lambda>i. e_rec (T i) = 0 \<or> e_hashcode (T i) = hc \<and> P (e_rec (T i))"
  obtain e where e: "e \<le> m" "\<not> occ T e"
    using room by (rule ex_empty)
  have h: "hc AND m \<le> m"
    unfolding m by (rule and_mask_le)
  have lin: "lin_ok e T m"
    using probe_ok_lin[OF m e] ok by simp
  have "rk e m (hc AND m) \<le> rk e m e"
    using rk_le[OF h e(1)] rk_last[OF e(1)] by simp
  then obtain t where t: "probe ?stop m (hc AND m) = Some t" "t \<le> m" "?stop t"
      "rk e m (hc AND m) \<le> rk e m t"
    and before: "\<And>j. j \<le> m \<Longrightarrow> rk e m (hc AND m) \<le> rk e m j \<Longrightarrow> rk e m j < rk e m t \<Longrightarrow> \<not> ?stop j"
    using probe_ex[of e m "hc AND m" e ?stop] e h by (auto simp: occ_def)
  have "\<not> P r" if "\<not> occ T t" "(g, r) \<in># bag T m" for g r
  proof
    assume "P r"
    obtain i where i: "i \<le> m" "occ T i" "e_hashcode (T i) = g" "e_rec (T i) = r"
      using \<open>(g, r) \<in># bag T m\<close> by (auto simp: in_bag)
    have g: "g = hc"
      using hash that(2) \<open>P r\<close> .
    have "rk e m i < rk e m t"
      using lin i(1,2) t(2,4) that(1) g i(3) unfolding lin_ok_def home_def by (meson leI)
    then show False
      using before[OF i(1)] lin i g \<open>P r\<close> unfolding lin_ok_def home_def by auto
  qed
  moreover have "occ T j" if "\<not> occ T t" "j \<le> m" "cyc_between (hc AND m) j t" "j \<noteq> t" for j
  proof -
    have "rk e m (hc AND m) \<le> rk e m j" "rk e m j \<le> rk e m t"
      using that(3) cyc_between_rk[OF e(1) h t(2) that(2) t(4)] by simp_all
    moreover have "rk e m j \<noteq> rk e m t"
      using that(4) rk_inj[OF _ that(2) t(2) e(1)] by blast
    ultimately show ?thesis
      using before[OF that(2)] by (simp add: occ_def)
  qed
  moreover have "e_hashcode (T t) = hc \<and> P (e_rec (T t))" if "occ T t"
    using that t(3) by (simp add: occ_def)
  ultimately show ?thesis
    using that[of t] t(1,2) by blast
qed

lemma probe_ok_fill:
  assumes ok: "probe_ok T m" and t: "t \<le> m" "\<not> occ T t" and r: "e_rec x \<noteq> 0"
    and path: "\<forall>j\<le>m. cyc_between (e_hashcode x AND m) j t \<and> j \<noteq> t \<longrightarrow> occ T j"
  shows "probe_ok (T(t := x)) m"
proof -
  have occ': "occ (T(t := x)) j \<longleftrightarrow> j = t \<or> occ T j" for j
    using r by (auto simp: occ_def)
  show ?thesis
    unfolding probe_ok_def
  proof (intro allI impI)
    fix i j
    assume a: "i \<le> m" "occ (T(t := x)) i" "j \<le> m" "cyc_between (home (T(t := x)) m i) j i"
    show "occ (T(t := x)) j"
    proof (cases "i = t")
      case True
      then show ?thesis
        using a path by (auto simp: home_def occ')
    next
      case False
      then have "occ T i" "cyc_between (home T m i) j i"
        using a by (simp_all add: occ' home_def)
      then show ?thesis
        using ok a(1,3) unfolding probe_ok_def occ' by blast
    qed
  qed
qed

lemma bag_fill:
  assumes "t \<le> m" "\<not> occ T t"
  shows "bag (T(t := x)) m = bag T m + ebag x"
  using bag_upd[OF assms(1), of T x] assms(2) by (simp add: ebag_def occ_def)

section \<open>Closing the hole a deletion leaves\<close>

text \<open>While the cluster after a deleted bucket is scanned, the hole is at \<open>g\<close> and the scan at
  \<open>p\<close>: entries already scanned have intact probe sequences, the others may miss \<open>g\<close> only.\<close>

definition chain_inv :: "nat \<Rightarrow> (nat \<Rightarrow> ht_entry) \<Rightarrow> nat \<Rightarrow> nat \<Rightarrow> nat \<Rightarrow> bool" where
  "chain_inv e T m g p \<longleftrightarrow>
     e \<le> m \<and> g \<le> m \<and> p \<le> m \<and> \<not> occ T e \<and> \<not> occ T g \<and> rk e m g < rk e m p \<and>
     (\<forall>i\<le>m. occ T i \<longrightarrow> rk e m (home T m i) \<le> rk e m i \<and>
        (\<forall>q\<le>m. rk e m (home T m i) \<le> rk e m q \<and> rk e m q \<le> rk e m i \<longrightarrow>
           occ T q \<or> q = g \<and> rk e m p \<le> rk e m i))"

lemma chain_inv_cong:
  assumes "\<And>i. i \<le> m \<Longrightarrow> T i = T' i"
  shows "chain_inv e T m g p \<longleftrightarrow> chain_inv e T' m g p"
  by (simp add: chain_inv_def occ_def home_def assms cong: conj_cong)

lemma lin_ok_cong:
  assumes "\<And>i. i \<le> m \<Longrightarrow> T i = T' i"
  shows "lin_ok e T m \<longleftrightarrow> lin_ok e T' m"
  by (simp add: lin_ok_def occ_def home_def assms cong: conj_cong)

lemma chain_done:
  assumes inv: "chain_inv e T m g p" and "\<not> occ T p"
  shows "lin_ok e T m"
  unfolding lin_ok_def
proof (intro allI impI conjI)
  fix i
  assume i: "i \<le> m" "occ T i"
  show "rk e m (home T m i) \<le> rk e m i"
    using inv i by (simp add: chain_inv_def)
  fix j
  assume j: "j \<le> m" "rk e m (home T m i) \<le> rk e m j \<and> rk e m j \<le> rk e m i"
  have path: "\<And>q. q \<le> m \<Longrightarrow> rk e m (home T m i) \<le> rk e m q \<Longrightarrow> rk e m q \<le> rk e m i \<Longrightarrow>
      occ T q \<or> q = g \<and> rk e m p \<le> rk e m i"
    using inv i by (simp add: chain_inv_def)
  have gp: "rk e m g < rk e m p" "p \<le> m" "p \<noteq> g"
    using inv by (auto simp: chain_inv_def)
  show "occ T j"
    using path[OF j(1)] path[OF gp(2)] j(2) gp \<open>\<not> occ T p\<close> by fastforce
qed

lemma chain_step_stay:
  assumes inv: "chain_inv e T m g p" and p: "occ T p" and far: "rk e m g < rk e m (home T m p)"
  shows "chain_inv e T m g (nxt m p)"
proof -
  have pe: "p \<le> m" "e \<le> m" "p \<noteq> e"
    using inv p by (auto simp: chain_inv_def)
  have r: "rk e m (nxt m p) = Suc (rk e m p)"
    by (rule rk_nxt[OF pe])
  have "occ T q \<or> q = g \<and> rk e m (nxt m p) \<le> rk e m i"
    if a: "i \<le> m" "occ T i" "q \<le> m" "rk e m (home T m i) \<le> rk e m q" "rk e m q \<le> rk e m i" for i q
  proof (cases "rk e m p = rk e m i")
    case True
    then have "i = p"
      using rk_inj[OF _ a(1) pe(1,2)] by simp
    then have "q \<noteq> g"
      using a(4) far by auto
    then show ?thesis
      using inv a by (auto simp: chain_inv_def)
  next
    case False
    have "occ T q \<or> q = g \<and> rk e m p \<le> rk e m i"
      using inv a unfolding chain_inv_def by blast
    then show ?thesis
      using False r by auto
  qed
  then show ?thesis
    using inv r nxt_le[OF pe(1)] by (auto simp: chain_inv_def)
qed

lemma chain_step_move:
  assumes inv: "chain_inv e T m g p" and p: "occ T p" and near: "rk e m (home T m p) \<le> rk e m g"
  shows "chain_inv e (T(g := T p, p := (T p)\<lparr>e_rec := 0\<rparr>)) m p (nxt m p)"
proof -
  let ?T = "T(g := T p, p := (T p)\<lparr>e_rec := 0\<rparr>)"
  have gp: "g \<noteq> p" "rk e m g < rk e m p" "g \<le> m" "\<not> occ T g"
    using inv by (auto simp: chain_inv_def)
  have pe: "p \<le> m" "e \<le> m" "p \<noteq> e" "\<not> occ T e"
    using inv p by (auto simp: chain_inv_def)
  have ge: "g \<noteq> e"
    using gp(2) rk_le[OF pe(1,2)] rk_last[OF pe(2)] by auto
  have r: "rk e m (nxt m p) = Suc (rk e m p)"
    by (rule rk_nxt[OF pe(1,2,3)])
  have occ': "occ ?T i \<longleftrightarrow> i = g \<or> i \<noteq> p \<and> occ T i" for i
    using gp(1) p by (auto simp: occ_def)
  have home': "home ?T m i = (if i = g then home T m p else home T m i)" for i
    using gp(1) by (auto simp: home_def)
  have old: "rk e m (home T m i) \<le> rk e m i"
    "q \<le> m \<Longrightarrow> rk e m (home T m i) \<le> rk e m q \<Longrightarrow> rk e m q \<le> rk e m i \<Longrightarrow>
       occ T q \<or> q = g \<and> rk e m p \<le> rk e m i" if "i \<le> m" "occ T i" for i q
    using inv that by (auto simp: chain_inv_def)
  have h1: "rk e m (home ?T m i) \<le> rk e m i" if "i \<le> m" "occ ?T i" for i
    using that near old(1) by (cases "i = g") (auto simp: home' occ')
  have h2: "occ ?T q \<or> q = p \<and> rk e m (nxt m p) \<le> rk e m i"
    if i: "i \<le> m" "occ ?T i"
      and q: "q \<le> m" "rk e m (home ?T m i) \<le> rk e m q" "rk e m q \<le> rk e m i" for i q
  proof (cases "i = g")
    case True
    then have "rk e m (home T m p) \<le> rk e m q" "rk e m q \<le> rk e m p" "q \<noteq> p"
      using q(2,3) gp by (auto simp: home')
    then show ?thesis
      using old(2)[OF pe(1) p q(1)] by (auto simp: occ')
  next
    case False
    then have oi: "i \<noteq> p" "occ T i"
      using i(2) by (auto simp: occ')
    then have "rk e m i \<noteq> rk e m p"
      using rk_inj[OF _ i(1) pe(1,2)] by blast
    moreover have "occ T q \<or> q = g \<and> rk e m p \<le> rk e m i"
      using False old(2)[OF i(1) oi(2) q(1)] q(2,3) by (simp add: home')
    ultimately show ?thesis
      using q(3) r by (auto simp: occ')
  qed
  have "\<not> occ ?T e" "\<not> occ ?T p" "rk e m p < rk e m (nxt m p)" "nxt m p \<le> m"
    using pe gp(1) ge r nxt_le[OF pe(1)] by (auto simp: occ')
  then show ?thesis
    unfolding chain_inv_def using h1 h2 pe(1,2) by blast
qed

lemma chain_probe:
  assumes m: "m = 2 ^ k - 1" and inv: "chain_inv e T m g p" and p: "occ T p"
  shows "probe (\<lambda>i. i = p \<or> e_rec (T i) = 0) m (e_hashcode (T p) AND m) =
    Some (if rk e m (home T m p) \<le> rk e m g then g else p)"
proof -
  have g: "g \<le> m" "rk e m g < rk e m p" "\<not> occ T g" and pe: "p \<le> m" "e \<le> m"
    using inv by (auto simp: chain_inv_def)
  have path: "rk e m (home T m p) \<le> rk e m p"
    "\<And>q. q \<le> m \<Longrightarrow> rk e m (home T m p) \<le> rk e m q \<Longrightarrow> rk e m q \<le> rk e m p \<Longrightarrow> occ T q \<or> q = g"
    using inv pe p by (auto simp: chain_inv_def)
  have h: "home T m p \<le> m"
    using m by (rule home_le)
  let ?stop = "\<lambda>i. i = p \<or> e_rec (T i) = 0"
  show ?thesis
  proof (cases "rk e m (home T m p) \<le> rk e m g")
    case True
    have "probe ?stop m (home T m p) = Some g"
    proof (rule probe_rk[OF pe(2) g(1) _ h True])
      show "?stop g"
        using g(3) by (simp add: occ_def)
      show "\<not> ?stop j" if "j \<le> m" "rk e m (home T m p) \<le> rk e m j" "rk e m j < rk e m g" for j
        using path(2)[OF that(1,2)] that(3) g(2) by (auto simp: occ_def)
    qed
    then show ?thesis
      using True by (simp add: home_def)
  next
    case False
    have "probe ?stop m (home T m p) = Some p"
    proof (rule probe_rk[OF pe(2,1) _ h path(1)])
      show "\<not> ?stop j" if "j \<le> m" "rk e m (home T m p) \<le> rk e m j" "rk e m j < rk e m p" for j
        using path(2)[OF that(1,2)] that False by (auto simp: occ_def)
    qed simp
    then show ?thesis
      using False by (simp add: home_def)
  qed
qed

lemma chain_start:
  assumes m: "m = 2 ^ k - 1" and ok: "lin_ok e T m" and e: "e \<le> m" "\<not> occ T e"
    and d: "d \<le> m" "occ T d"
  shows "chain_inv e (T(d := (T d)\<lparr>e_rec := 0\<rparr>)) m d (nxt m d)"
proof -
  let ?T = "T(d := (T d)\<lparr>e_rec := 0\<rparr>)"
  have de: "d \<noteq> e"
    using d e by auto
  have r: "rk e m (nxt m d) = Suc (rk e m d)"
    by (rule rk_nxt[OF d(1) e(1) de])
  have occ': "occ ?T i \<longleftrightarrow> i \<noteq> d \<and> occ T i" and home': "home ?T m i = home T m i" for i
    by (auto simp: occ_def home_def)
  have h1: "rk e m (home ?T m i) \<le> rk e m i" if "i \<le> m" "occ ?T i" for i
    using ok that unfolding lin_ok_def occ' home' by blast
  have h2: "occ ?T q \<or> q = d \<and> rk e m (nxt m d) \<le> rk e m i"
    if i: "i \<le> m" "occ ?T i"
      and q: "q \<le> m" "rk e m (home ?T m i) \<le> rk e m q" "rk e m q \<le> rk e m i" for i q
  proof -
    have "occ T q"
      using ok i q unfolding lin_ok_def occ' home' by blast
    moreover have "rk e m i \<noteq> rk e m d"
      using i(2) rk_inj[OF _ i(1) d(1) e(1)] unfolding occ' by blast
    ultimately show ?thesis
      using q(3) r by (auto simp: occ')
  qed
  have "\<not> occ ?T e" "\<not> occ ?T d" "rk e m d < rk e m (nxt m d)" "nxt m d \<le> m"
    using e r nxt_le[OF d(1)] by (auto simp: occ')
  then show ?thesis
    unfolding chain_inv_def using h1 h2 d(1) e(1) by blast
qed

section \<open>Doubling the table in place\<close>

text \<open>Buckets in \<open>D\<close> have been redistributed to the doubled table of mask \<open>n\<close>; the others, all
  below the old capacity \<open>c\<close>, still lie where the old table put them.  Bucket \<open>b\<close> is the
  empty one the redistribution starts from.\<close>

definition grow_inv :: "nat \<Rightarrow> nat \<Rightarrow> nat \<Rightarrow> (nat \<Rightarrow> ht_entry) \<Rightarrow> nat set \<Rightarrow> bool" where
  "grow_inv b c n T D \<longleftrightarrow>
     \<not> occ T b \<and>
     (\<forall>i\<le>n. i \<in> D \<and> occ T i \<longrightarrow> rk b n (home T n i) \<le> rk b n i \<and>
        (\<forall>q\<le>n. rk b n (home T n i) \<le> rk b n q \<and> rk b n q \<le> rk b n i \<longrightarrow> occ T q \<and> q \<in> D)) \<and>
     (\<forall>i\<le>n. i \<notin> D \<and> occ T i \<longrightarrow>
        i < c \<and> rk b (c - 1) (home T (c - 1) i) \<le> rk b (c - 1) i)"

lemma grow_inv_cong:
  assumes "\<And>i. i \<le> n \<Longrightarrow> T i = T' i" "b \<le> n"
  shows "grow_inv b c n T D \<longleftrightarrow> grow_inv b c n T' D"
proof -
  have eq: "occ T i = occ T' i" "home T x i = home T' x i" if "i \<le> n" for i x
    using assms(1)[OF that] by (simp_all add: occ_def home_def)
  have "occ T b = occ T' b"
    using assms(2) by (rule eq)
  then show ?thesis
    unfolding grow_inv_def by (simp only: eq cong: conj_cong imp_cong)
qed

lemma grow_inv_empty: "grow_inv b c n T D \<Longrightarrow> \<not> occ T b"
  unfolding grow_inv_def by blast

lemma grow_inv_home:
  "grow_inv b c n T D \<Longrightarrow> i \<le> n \<Longrightarrow> i \<in> D \<Longrightarrow> occ T i \<Longrightarrow> rk b n (home T n i) \<le> rk b n i"
  unfolding grow_inv_def by blast

lemma grow_inv_path:
  "grow_inv b c n T D \<Longrightarrow> i \<le> n \<Longrightarrow> i \<in> D \<Longrightarrow> occ T i \<Longrightarrow> q \<le> n \<Longrightarrow>
    rk b n (home T n i) \<le> rk b n q \<Longrightarrow> rk b n q \<le> rk b n i \<Longrightarrow> occ T q \<and> q \<in> D"
  unfolding grow_inv_def by blast

lemma grow_inv_old:
  "grow_inv b c n T D \<Longrightarrow> i \<le> n \<Longrightarrow> i \<notin> D \<Longrightarrow> occ T i \<Longrightarrow>
    i < c \<and> rk b (c - 1) (home T (c - 1) i) \<le> rk b (c - 1) i"
  unfolding grow_inv_def by blast

text \<open>One bucket is redistributed: it is emptied and its entry goes to the first free bucket
  from its new home.  The free bucket \<open>u\<close> bounds the search.\<close>

lemma place_occ:
  assumes n: "n = 2 ^ k - 1" and b: "b \<le> n" and p: "p \<le> n" "p \<notin> D" "occ T p"
    and inv: "grow_inv b c n T D"
    and u: "u \<le> n" "u \<noteq> b" "u = p \<or> \<not> occ T u" "rk b n (home T n p) \<le> rk b n u"
      "\<And>q. q \<le> n \<Longrightarrow> rk b n (home T n p) \<le> rk b n q \<Longrightarrow> rk b n q \<le> rk b n u \<Longrightarrow> q \<in> insert p D"
    and T1: "\<And>i. i \<le> n \<Longrightarrow> T1 i = (T(p := (T p)\<lparr>e_rec := 0\<rparr>)) i"
  obtains t where "probe (\<lambda>i. e_rec (T1 i) = 0) n (home T n p) = Some t" "t \<le> n" "\<not> occ T1 t"
    "rk b n (home T n p) \<le> rk b n t" "rk b n t \<le> rk b n u"
    "grow_inv b c n (T1(t := T p)) (insert p D)"
proof -
  have h: "home T n p \<le> n"
    using n by (rule home_le)
  have occ1: "occ T1 i \<longleftrightarrow> i \<noteq> p \<and> occ T i" if "i \<le> n" for i
    using T1[OF that] by (simp add: occ_def)
  have u0: "e_rec (T1 u) = 0"
    using u(3) T1[OF u(1)] by (auto simp: occ_def)
  obtain t where t: "probe (\<lambda>i. e_rec (T1 i) = 0) n (home T n p) = Some t" "t \<le> n" "\<not> occ T1 t"
      "rk b n (home T n p) \<le> rk b n t" "rk b n t \<le> rk b n u"
    and before: "\<And>j. j \<le> n \<Longrightarrow> rk b n (home T n p) \<le> rk b n j \<Longrightarrow> rk b n j < rk b n t \<Longrightarrow> occ T1 j"
    by (rule probe_ex[where stop = "\<lambda>i. e_rec (T1 i) = 0", OF b h u(1) u0 u(4)])
      (simp_all add: occ_def)
  let ?T = "T1(t := T p)"
  have occ2: "occ ?T i \<longleftrightarrow> i = t \<or> i \<noteq> p \<and> occ T i" if "i \<le> n" for i
    using p(3) occ1[OF that] by (simp add: occ_def)
  have home2: "home ?T x i = (if i = t then home T x p else home T x i)" if "i \<le> n" for x i
    using T1[OF that] by (simp add: home_def)
  have tD: "t \<in> insert p D"
    using t(2,4,5) by (rule u(5))
  have tb: "t \<noteq> b"
    using t(5) rk_lt_last[OF u(1) b u(2)] rk_last[OF b] by auto
  note old = grow_inv_home[OF inv] grow_inv_path[OF inv]
  have split: "i = t \<or> i \<noteq> t \<and> i \<in> D \<and> occ T i" if "i \<le> n" "i \<in> insert p D" "occ ?T i" for i
    using that occ2 by auto
  have a1: "rk b n (home ?T n i) \<le> rk b n i" if "i \<le> n" "i \<in> insert p D" "occ ?T i" for i
    using split[OF that] t(4) old(1)[OF that(1)] home2[OF that(1)] by auto
  have a2: "occ ?T q \<and> q \<in> insert p D"
    if i: "i \<le> n" "i \<in> insert p D" "occ ?T i"
      and q: "q \<le> n" "rk b n (home ?T n i) \<le> rk b n q" "rk b n q \<le> rk b n i" for i q
    using split[OF i]
  proof (elim disjE)
    assume it: "i = t"
    then have "rk b n (home T n p) \<le> rk b n q" "rk b n q \<le> rk b n t"
      using q i(1) by (simp_all add: home2)
    moreover have "q = t \<or> rk b n q \<noteq> rk b n t"
      using rk_inj[OF _ q(1) t(2) b] by blast
    ultimately show ?thesis
      using before[OF q(1)] u(5)[OF q(1)] t(5) occ1[OF q(1)] occ2[OF q(1)] by fastforce
  next
    assume it: "i \<noteq> t \<and> i \<in> D \<and> occ T i"
    then have "occ T q \<and> q \<in> D"
      using old(2)[OF i(1) _ _ q(1)] q(2,3) i(1) by (simp add: home2)
    then show ?thesis
      using p(2) occ2[OF q(1)] by auto
  qed
  have a3: "i < c \<and> rk b (c - 1) (home ?T (c - 1) i) \<le> rk b (c - 1) i"
    if "i \<le> n" "i \<notin> insert p D" "occ ?T i" for i
  proof -
    have "i \<noteq> t" "occ T i"
      using that tD by (auto simp: occ2)
    then show ?thesis
      using grow_inv_old[OF inv that(1)] that(2) home2[OF that(1)] by simp
  qed
  have "\<not> occ ?T b"
    using grow_inv_empty[OF inv] tb occ2[OF b] by simp
  then have "grow_inv b c n ?T (insert p D)"
    unfolding grow_inv_def using a1 a2 a3 by blast
  then show ?thesis
    using that[of t] t by blast
qed

lemma place_empty:
  assumes n: "n = 2 ^ k - 1" and b: "b \<le> n" and p: "p \<le> n" "\<not> occ T p"
    and inv: "grow_inv b c n T D"
    and T1: "\<And>i. i \<le> n \<Longrightarrow> T1 i = (T(p := (T p)\<lparr>e_rec := 0\<rparr>)) i"
  obtains t where "probe (\<lambda>i. e_rec (T1 i) = 0) n (home T n p) = Some t" "t \<le> n" "\<not> occ T1 t"
    "grow_inv b c n (T1(t := T p)) (insert p D)"
    "\<forall>i\<le>n. occ (T1(t := T p)) i \<longleftrightarrow> occ T i"
proof -
  have h: "home T n p \<le> n"
    using n by (rule home_le)
  have b0: "e_rec (T1 b) = 0" and last: "rk b n (home T n p) \<le> rk b n b"
    using T1[OF b] grow_inv_empty[OF inv] rk_le[OF h b] rk_last[OF b] by (auto simp: occ_def)
  obtain t where t: "probe (\<lambda>i. e_rec (T1 i) = 0) n (home T n p) = Some t" "t \<le> n" "\<not> occ T1 t"
    by (rule probe_ex[where stop = "\<lambda>i. e_rec (T1 i) = 0", OF b h b b0 last]) (simp_all add: occ_def)
  let ?T = "T1(t := T p)"
  have occ2: "occ ?T i \<longleftrightarrow> occ T i" if "i \<le> n" for i
    using p(2) T1[OF that] T1[OF t(2)] t(3) by (auto simp: occ_def split: if_splits)
  have home2: "home ?T x i = home T x i" if "i \<le> n" "occ T i" for x i
    using that p(2) T1[OF that(1)] occ2[OF that(1)] by (auto simp: home_def occ_def)
  have nD: "i \<in> D" if "i \<in> insert p D" "occ T i" for i
    using that p(2) by auto
  have "grow_inv b c n ?T (insert p D)"
    unfolding grow_inv_def
    using occ2 home2 nD grow_inv_empty[OF inv] grow_inv_home[OF inv] grow_inv_path[OF inv]
      grow_inv_old[OF inv] b
    by (metis insertCI)
  then show ?thesis
    using that[of t] t occ2 by blast
qed

lemma place_stay:
  assumes n: "n = 2 ^ k - 1" and b: "b \<le> n" and p: "p \<le> n" "p \<notin> D" "home T n p = p"
    and inv: "grow_inv b c n T D"
  shows "grow_inv b c n T (insert p D)"
proof -
  have "occ T q \<and> q \<in> insert p D"
    if "i \<le> n" "i \<in> insert p D" "occ T i" "q \<le> n" "rk b n (home T n i) \<le> rk b n q"
      "rk b n q \<le> rk b n i" for i q
  proof (cases "i = p")
    case True
    then have "rk b n q = rk b n p"
      using that(5,6) p(3) by simp
    then have "q = p"
      using that(4) p(1) b by (rule rk_inj)
    then show ?thesis
      using that(3) True by simp
  next
    case False
    then show ?thesis
      using grow_inv_path[OF inv that(1) _ that(3-6)] that(2) by simp
  qed
  moreover have "rk b n (home T n i) \<le> rk b n i" if "i \<le> n" "i \<in> insert p D" "occ T i" for i
    using grow_inv_home[OF inv that(1) _ that(3)] that(2) p(3) by (cases "i = p") auto
  ultimately show ?thesis
    unfolding grow_inv_def using grow_inv_empty[OF inv] grow_inv_old[OF inv] by blast
qed

lemma bag_place:
  assumes "p \<le> n" "t \<le> n" "\<not> occ T1 t" "\<And>i. i \<le> n \<Longrightarrow> T1 i = (T(p := (T p)\<lparr>e_rec := 0\<rparr>)) i"
  shows "bag (T1(t := T p)) n = bag T n"
proof -
  have "bag T1 n = bag (T(p := (T p)\<lparr>e_rec := 0\<rparr>)) n"
    by (rule bag_cong) (rule assms(4))
  then have "bag T1 n + ebag (T p) = bag T n"
    using bag_upd[OF assms(1), of T "(T p)\<lparr>e_rec := 0\<rparr>"] by (simp add: ebag_def)
  then show ?thesis
    using bag_fill[OF assms(2,3), of "T p"] by simp
qed

text \<open>The two passes: first the old buckets from \<open>b\<close> up to the old capacity, then those
  below \<open>b\<close>.  During the first pass the upper half is filled at most up to the image of the
  current bucket.\<close>

definition ginv1 :: "nat \<Rightarrow> nat \<Rightarrow> nat \<Rightarrow> (nat \<Rightarrow> ht_entry) \<Rightarrow> nat \<Rightarrow> bool" where
  "ginv1 b c n T p \<longleftrightarrow> grow_inv b c n T ({c..} \<union> {b..<p}) \<and> (\<forall>i\<le>n. c + p \<le> i \<longrightarrow> \<not> occ T i)"

definition ginv2 :: "nat \<Rightarrow> nat \<Rightarrow> nat \<Rightarrow> (nat \<Rightarrow> ht_entry) \<Rightarrow> nat \<Rightarrow> bool" where
  "ginv2 b c n T p \<longleftrightarrow> grow_inv b c n T ({b..} \<union> {..<p})"

lemma ginv1_cong:
  assumes "\<And>i. i \<le> n \<Longrightarrow> T i = T' i" "b \<le> n"
  shows "ginv1 b c n T p \<longleftrightarrow> ginv1 b c n T' p"
  using grow_inv_cong[OF assms] assms(1) by (auto simp: ginv1_def occ_def)

lemma ginv2_cong:
  assumes "\<And>i. i \<le> n \<Longrightarrow> T i = T' i" "b \<le> n"
  shows "ginv2 b c n T p \<longleftrightarrow> ginv2 b c n T' p"
  using grow_inv_cong[OF assms] by (simp add: ginv2_def)

lemma home_double:
  assumes "c = 2 ^ k" "n = 2 * c - 1"
  shows "home T n i = home T (c - 1) i \<or> home T n i = home T (c - 1) i + c"
    and "home T (c - 1) i < c"
proof -
  have n: "n = 2 ^ Suc k - 1"
    using assms by simp
  have "home T n i = e_hashcode (T i) mod (2 * c)" "home T (c - 1) i = e_hashcode (T i) mod c"
    unfolding home_def n assms(1) and_mask_mod by simp_all
  then show "home T n i = home T (c - 1) i \<or> home T n i = home T (c - 1) i + c"
    "home T (c - 1) i < c"
    using mod_double_cases[of c "e_hashcode (T i)"] assms(1) by simp_all
qed

lemma grow_step1:
  assumes c: "c = 2 ^ k" "n = 2 * c - 1" and p: "b \<le> p" "p < c" and inv: "ginv1 b c n T p"
    and T1: "\<And>i. i \<le> n \<Longrightarrow> T1 i = (T(p := (T p)\<lparr>e_rec := 0\<rparr>)) i"
  shows "\<exists>t. probe (\<lambda>i. e_rec (T1 i) = 0) n (home T n p) = Some t \<and> t \<le> n \<and> \<not> occ T1 t \<and>
    ginv1 b c n (T1(t := T p)) (p + 1)"
proof -
  let ?D = "{c..} \<union> {b..<p}"
  have n: "n = 2 ^ Suc k - 1" and bn: "b \<le> n" and pn: "p \<le> n" "p \<notin> ?D"
    using c p by auto
  have D: "insert p ?D = {c..} \<union> {b..<p + 1}"
    using p by auto
  have g: "grow_inv b c n T ?D" and up: "\<And>i. i \<le> n \<Longrightarrow> c + p \<le> i \<Longrightarrow> \<not> occ T i"
    using inv by (auto simp: ginv1_def)
  show ?thesis
  proof (cases "occ T p")
    case False
    obtain t where t: "probe (\<lambda>i. e_rec (T1 i) = 0) n (home T n p) = Some t" "t \<le> n" "\<not> occ T1 t"
        "grow_inv b c n (T1(t := T p)) (insert p ?D)"
        "\<forall>i\<le>n. occ (T1(t := T p)) i \<longleftrightarrow> occ T i"
      by (rule place_empty[OF n bn pn(1) False g T1])
    then show ?thesis
      using up D by (auto simp: ginv1_def)
  next
    case True
    have pb: "b < p"
      using True grow_inv_empty[OF g] p(1) by (cases "b = p") auto
    define u where "u = (if home T n p < c then p else p + c)"
    have hp: "b < home T (c - 1) p" "home T (c - 1) p \<le> p"
      using grow_inv_old[OF g pn True] pb p home_double(2)[OF c, of T p]
      by (auto simp: rk_def split: if_splits)
    have hn: "home T n p = (if home T n p < c then home T (c - 1) p else home T (c - 1) p + c)"
      using home_double[OF c, of T p] by auto
    have u: "u \<le> n" "u \<noteq> b" "u = p \<or> \<not> occ T u" "rk b n (home T n p) \<le> rk b n u"
      using hn hp p pb up[of u] c(2) by (auto simp: u_def rk_def split: if_splits)
    have bh: "b < home T n p" and bu: "b < u"
      using hn hp pb by (auto simp: u_def split: if_splits)
    have path: "q \<in> insert p ?D" if "q \<le> n" "rk b n (home T n p) \<le> rk b n q" "rk b n q \<le> rk b n u" for q
    proof -
      have "home T n p \<le> q \<and> q \<le> u"
        using rk_above[OF bh bu u(1) that(2,3)] .
      then show ?thesis
        using hn hp p by (auto simp: u_def split: if_splits)
    qed
    obtain t where t: "probe (\<lambda>i. e_rec (T1 i) = 0) n (home T n p) = Some t" "t \<le> n" "\<not> occ T1 t"
        "rk b n (home T n p) \<le> rk b n t" "rk b n t \<le> rk b n u"
        "grow_inv b c n (T1(t := T p)) (insert p ?D)"
      by (rule place_occ[OF n bn pn True g u path T1])
    have "t \<le> p + c"
      using rk_above[OF bh bu u(1) t(4,5)] by (simp add: u_def split: if_splits)
    then have "\<not> occ (T1(t := T p)) i" if "i \<le> n" "c + (p + 1) \<le> i" for i
      using that up[of i] T1[of i] by (auto simp: occ_def)
    then show ?thesis
      using t D by (auto simp: ginv1_def)
  qed
qed

lemma grow_step2:
  assumes c: "c = 2 ^ k" "n = 2 * c - 1" and p: "p < b" "b < c" and inv: "ginv2 b c n T p"
    and T1: "\<And>i. i \<le> n \<Longrightarrow> T1 i = (T(p := (T p)\<lparr>e_rec := 0\<rparr>)) i"
  shows "\<exists>t. probe (\<lambda>i. e_rec (T1 i) = 0) n (home T n p) = Some t \<and> t \<le> n \<and> \<not> occ T1 t \<and>
    ginv2 b c n (T1(t := T p)) (p + 1)"
proof -
  let ?D = "{b..} \<union> {..<p}"
  have n: "n = 2 ^ Suc k - 1" and bn: "b \<le> n" and pn: "p \<le> n" "p \<notin> ?D"
    using c p by auto
  have D: "insert p ?D = {b..} \<union> {..<p + 1}"
    by auto
  have g: "grow_inv b c n T ?D"
    using inv by (simp add: ginv2_def)
  show ?thesis
  proof (cases "occ T p")
    case False
    show ?thesis
      by (rule place_empty[OF n bn pn(1) False g T1]) (auto simp: ginv2_def D)
  next
    case True
    have hp: "home T (c - 1) p \<le> p \<or> b < home T (c - 1) p"
      using grow_inv_old[OF g pn True] p by (auto simp: rk_def split: if_splits)
    have u: "rk b n (home T n p) \<le> rk b n p"
      using home_double[OF c, of T p] hp p c(2) by (auto simp: rk_def split: if_splits)
    have path: "q \<in> insert p ?D" if "q \<le> n" "rk b n (home T n p) \<le> rk b n q" "rk b n q \<le> rk b n p" for q
      using that p bn by (auto simp: rk_def split: if_splits)
    have "p \<noteq> b" "p = p \<or> \<not> occ T p"
      using p by simp_all
    then show ?thesis
      by (rule place_occ[OF n bn pn True g pn(1) _ _ u path T1]) (auto simp: ginv2_def D)
  qed
qed

lemma ginv_start:
  assumes c: "c = 2 ^ k" "n = 2 * c - 1" and b: "b < c" "\<not> occ T b" and ok: "probe_ok T (c - 1)"
    and upper: "\<And>i. c \<le> i \<Longrightarrow> i \<le> n \<Longrightarrow> \<not> occ T i"
  shows "ginv1 b c n T b"
proof -
  have "lin_ok b T (c - 1)"
    using probe_ok_lin[of "c - 1" k b T] c b ok by simp
  then have old: "rk b (c - 1) (home T (c - 1) i) \<le> rk b (c - 1) i" if "i < c" "occ T i" for i
    using that unfolding lin_ok_def by simp
  have "i < c" if "i \<le> n" "occ T i" for i
    using upper[of i] that by (meson leI)
  then show ?thesis
    unfolding ginv1_def grow_inv_def using b(2) old upper by auto
qed

lemma ginv_switch: "ginv1 b c n T c \<Longrightarrow> b < c \<Longrightarrow> ginv2 b c n T 0"
proof -
  assume a: "ginv1 b c n T c" "b < c"
  have "{c..} \<union> {b..<c} = {b..} \<union> {..<0}"
    using a(2) by auto
  then show ?thesis
    using a(1) unfolding ginv1_def ginv2_def by (simp only:)
qed

lemma ginv_finish:
  assumes "n = 2 ^ k - 1" "b \<le> n" "ginv2 b c n T b"
  shows "probe_ok T n"
proof -
  have g: "grow_inv b c n T UNIV"
  proof -
    have "{b..} \<union> {..<b} = (UNIV :: nat set)"
      by auto
    then show ?thesis
      using assms(3) by (simp add: ginv2_def)
  qed
  have "lin_ok b T n"
    unfolding lin_ok_def using grow_inv_home[OF g] grow_inv_path[OF g] by blast
  then show ?thesis
    using probe_ok_lin[OF assms(1,2) grow_inv_empty[OF g]] by blast
qed

lemma first_free_ok:
  "b \<le> e \<Longrightarrow> \<not> occ (get s) e \<Longrightarrow> \<exists>f. oa_first_free get s b = Some f \<and> f \<le> e \<and> \<not> occ (get s) f"
proof (induction "e - b" arbitrary: b)
  case 0
  then show ?case
    by (simp add: oa_first_free.simps occ_def)
next
  case (Suc d)
  show ?case
  proof (cases "occ (get s) b")
    case True
    then have "oa_first_free get s b = oa_first_free get s (b + 1)"
      by (simp add: oa_first_free.simps[of get s b] occ_def)
    then show ?thesis
      using Suc.hyps(1)[of "b + 1"] Suc.hyps(2) Suc.prems(2) by simp
  next
    case False
    then show ?thesis
      using Suc.prems(1) by (simp add: oa_first_free.simps[of get s b] occ_def)
  qed
qed

section \<open>Accessors\<close>

locale bucket_array =
  fixes get :: "'s \<Rightarrow> nat \<Rightarrow> ht_entry"
    and put :: "'s \<Rightarrow> nat \<Rightarrow> ht_entry \<Rightarrow> 's"
    and valid :: "'s \<Rightarrow> nat \<Rightarrow> bool"
    and rest :: "'s \<Rightarrow> 'c"
  assumes get_put: "valid s i \<Longrightarrow> valid s j \<Longrightarrow> get (put s i x) j = (if j = i then x else get s j)"
    and valid_put: "valid s i \<Longrightarrow> valid (put s i x) j \<longleftrightarrow> valid s j"
    and rest_put: "valid s i \<Longrightarrow> rest (put s i x) = rest s"
begin

lemma get_put_upd:
  assumes "\<And>i. i \<le> m \<Longrightarrow> valid s i" "i \<le> m" "j \<le> m"
  shows "get (put s i x) j = ((get s)(i := x)) j"
  using assms by (simp add: get_put)

lemma fix_step_move:
  assumes v: "\<And>i. i \<le> m \<Longrightarrow> valid s i" and inv: "chain_inv e (get s) m g p"
    and p: "occ (get s) p" and near: "rk e m (home (get s) m p) \<le> rk e m g"
    and s': "s' = put (put s g (get s p)) p ((get s p)\<lparr>e_rec := 0\<rparr>)"
  shows "chain_inv e (get s') m p (nxt m p)" "bag (get s') m = bag (get s) m"
    "rest s' = rest s" "\<And>i. valid s' i \<longleftrightarrow> valid s i"
proof -
  have gp: "g \<le> m" "p \<le> m" "g \<noteq> p" "\<not> occ (get s) g"
    using inv by (auto simp: chain_inv_def)
  let ?T = "(get s)(g := get s p, p := (get s p)\<lparr>e_rec := 0\<rparr>)"
  have eq: "get s' j = ?T j" if "j \<le> m" for j
    using that gp v by (simp add: s' get_put valid_put)
  show "chain_inv e (get s') m p (nxt m p)"
    using chain_step_move[OF inv p near] chain_inv_cong[of m "get s'" ?T, OF eq] by blast
  have "bag (get s') m = bag ?T m"
    by (rule bag_cong) (rule eq)
  also have "\<dots> = bag (get s) m"
    using bag_upd[OF gp(2), of "(get s)(g := get s p)" "(get s p)\<lparr>e_rec := 0\<rparr>"]
      bag_fill[OF gp(1,4), of "get s p"] gp(3) by (simp add: ebag_def)
  finally show "bag (get s') m = bag (get s) m" .
  show "rest s' = rest s" "\<And>i. valid s' i \<longleftrightarrow> valid s i"
    using gp v by (simp_all add: s' rest_put valid_put)
qed

lemma fix_chain_down_ok:
  assumes m: "m = 2 ^ k - 1"
  shows "chain_inv e (get s) m g p \<Longrightarrow> (\<And>i. i \<le> m \<Longrightarrow> valid s i) \<Longrightarrow>
    \<exists>s'. oa_fix_chain_down get put m p s = Some s' \<and> lin_ok e (get s') m \<and> \<not> occ (get s') e \<and>
      bag (get s') m = bag (get s) m \<and> rest s' = rest s \<and> (\<forall>i. valid s' i \<longleftrightarrow> valid s i)"
proof (induction "m - rk e m p" arbitrary: p g s rule: less_induct)
  case less
  note inv = less.prems(1) and v = less.prems(2)
  show ?case
  proof (cases "occ (get s) p")
    case False
    then have "oa_fix_chain_down get put m p s = Some s"
      by (simp add: oa_fix_chain_down.simps occ_def Let_def)
    moreover have "lin_ok e (get s) m"
      using inv False by (rule chain_done)
    ultimately show ?thesis
      using inv by (auto simp: chain_inv_def)
  next
    case True
    define s' where "s' = (if rk e m (home (get s) m p) \<le> rk e m g
      then put (put s g (get s p)) p ((get s p)\<lparr>e_rec := 0\<rparr>) else s)"
    have pe: "p \<le> m" "e \<le> m" "p \<noteq> e" "g \<noteq> p"
      using inv True by (auto simp: chain_inv_def)
    have unf: "oa_fix_chain_down get put m p s = oa_fix_chain_down get put m (nxt m p) s'"
      using True pe(4) chain_probe[OF m inv True]
      by (subst oa_fix_chain_down.simps) (simp add: Let_def occ_def s'_def)
    have step: "\<exists>g'. chain_inv e (get s') m g' (nxt m p)" "bag (get s') m = bag (get s) m"
        "rest s' = rest s" "\<And>i. valid s' i \<longleftrightarrow> valid s i"
      using fix_step_move[OF v inv True _ refl] chain_step_stay[OF inv True]
      by (auto simp: s'_def not_le)
    have "m - rk e m (nxt m p) < m - rk e m p"
      using rk_nxt[OF pe(1-3)] rk_lt_last[OF pe(1-3)] by simp
    then show ?thesis
      using less.hyps[of "nxt m p" s'] step v unf by fastforce
  qed
qed


lemma delete_ok:
  assumes m: "m = 2 ^ k - 1" and v: "\<And>i. i \<le> m \<Longrightarrow> valid s i"
    and ok: "probe_ok (get s) m" and room: "size (bag (get s) m) \<le> m"
    and d: "d \<le> m" "occ (get s) d"
  obtains s' where
    "oa_fix_chain_down get put m (nxt m d) (put s d ((get s d)\<lparr>e_rec := 0\<rparr>)) = Some s'"
    "probe_ok (get s') m"
    "bag (get s) m = add_mset (e_hashcode (get s d), e_rec (get s d)) (bag (get s') m)"
    "rest s' = rest s" "\<And>i. valid s' i \<longleftrightarrow> valid s i"
proof -
  obtain e where e: "e \<le> m" "\<not> occ (get s) e"
    using room by (rule ex_empty)
  let ?s1 = "put s d ((get s d)\<lparr>e_rec := 0\<rparr>)" and ?T = "(get s)(d := (get s d)\<lparr>e_rec := 0\<rparr>)"
  have eq: "get ?s1 j = ?T j" if "j \<le> m" for j
    using that d(1) v by (simp add: get_put)
  have "chain_inv e ?T m d (nxt m d)"
    using chain_start[OF m _ e d] ok probe_ok_lin[OF m e] by blast
  then have inv: "chain_inv e (get ?s1) m d (nxt m d)"
    using chain_inv_cong[of m "get ?s1" ?T, OF eq] by blast
  have v1: "valid ?s1 i \<longleftrightarrow> valid s i" for i
    using v[OF d(1)] by (rule valid_put)
  obtain s' where s': "oa_fix_chain_down get put m (nxt m d) ?s1 = Some s'" "lin_ok e (get s') m"
      "\<not> occ (get s') e" "bag (get s') m = bag (get ?s1) m" "rest s' = rest ?s1"
      "\<And>i. valid s' i \<longleftrightarrow> valid ?s1 i"
    using fix_chain_down_ok[OF m inv] v v1 by blast
  have "bag (get ?s1) m = bag ?T m"
    by (rule bag_cong) (rule eq)
  then have b: "bag (get s) m = add_mset (e_hashcode (get s d), e_rec (get s d)) (bag (get s') m)"
    using bag_upd[OF d(1), of "get s" "(get s d)\<lparr>e_rec := 0\<rparr>"] s'(4) d(2)
    by (simp add: ebag_def occ_def)
  have "probe_ok (get s') m"
    using probe_ok_lin[OF m e(1) s'(3)] s'(2) by blast
  then show ?thesis
    using that[OF s'(1) _ b] s'(5,6) v1 v[OF d(1)] by (simp add: rest_put)
qed

lemma move_range_ok:
  assumes stay: "\<And>p T. lo \<le> p \<Longrightarrow> p < hi \<Longrightarrow> I T p \<Longrightarrow> home T n p = p \<Longrightarrow> I T (p + 1)"
    and move: "\<And>p T T1. lo \<le> p \<Longrightarrow> p < hi \<Longrightarrow> I T p \<Longrightarrow>
      (\<And>i. i \<le> n \<Longrightarrow> T1 i = (T(p := (T p)\<lparr>e_rec := 0\<rparr>)) i) \<Longrightarrow>
      \<exists>t. probe (\<lambda>i. e_rec (T1 i) = 0) n (home T n p) = Some t \<and> t \<le> n \<and> \<not> occ T1 t \<and>
        I (T1(t := T p)) (p + 1)"
    and cong: "\<And>T T' p. (\<And>i. i \<le> n \<Longrightarrow> T i = T' i) \<Longrightarrow> I T p \<longleftrightarrow> I T' p"
    and hi: "hi \<le> n + 1"
  shows "lo \<le> p \<Longrightarrow> p \<le> hi \<Longrightarrow> I (get s) p \<Longrightarrow> (\<And>i. i \<le> n \<Longrightarrow> valid s i) \<Longrightarrow>
    \<exists>s'. oa_move_range get put n p hi s = Some s' \<and> I (get s') hi \<and>
      bag (get s') n = bag (get s) n \<and> rest s' = rest s \<and> (\<forall>i. valid s' i \<longleftrightarrow> valid s i)"
proof (induction "hi - p" arbitrary: p s)
  case 0
  then show ?case
    by (simp add: oa_move_range.simps)
next
  case (Suc d)
  note v = Suc.prems(4)
  have p: "p < hi" "d = hi - (p + 1)" "p \<le> n"
    using Suc.hyps(2) hi by simp_all
  show ?case
  proof (cases "home (get s) n p = p")
    case True
    have "oa_move_range get put n p hi s = oa_move_range get put n (p + 1) hi s"
      using True p(1) by (subst oa_move_range.simps) (simp add: home_def Let_def)
    then show ?thesis
      using Suc.hyps(1)[OF p(2), of s] stay[OF Suc.prems(1) p(1) Suc.prems(3) True] Suc.prems p(1)
      by simp
  next
    case False
    define s1 where "s1 = put s p ((get s p)\<lparr>e_rec := 0\<rparr>)"
    have s1: "get s1 i = ((get s)(p := (get s p)\<lparr>e_rec := 0\<rparr>)) i" if "i \<le> n" for i
      unfolding s1_def using v p(3) that by (rule get_put_upd)
    obtain t where t: "probe (\<lambda>i. e_rec (get s1 i) = 0) n (home (get s) n p) = Some t" "t \<le> n"
        "\<not> occ (get s1) t" "I ((get s1)(t := get s p)) (p + 1)"
      using move[OF Suc.prems(1) p(1) Suc.prems(3) s1] by blast
    define s2 where "s2 = put s1 t (get s p)"
    have v1: "valid s1 i \<longleftrightarrow> valid s i" and v2: "valid s2 i \<longleftrightarrow> valid s i" for i
      unfolding s2_def s1_def using v p(3) t(2) by (simp_all add: valid_put)
    have s2: "get s2 i = ((get s1)(t := get s p)) i" if "i \<le> n" for i
      unfolding s2_def using v v1 t(2) that by (intro get_put_upd[of n]) simp_all
    have "I (get s2) (p + 1)"
      using t(4) cong[of "get s2" "(get s1)(t := get s p)", OF s2] by blast
    moreover have "bag (get s2) n = bag (get s) n"
      using trans[OF bag_cong[of n "get s2" "(get s1)(t := get s p)", OF s2]
          bag_place[OF p(3) t(2,3) s1]] by blast
    moreover have "rest s2 = rest s"
      unfolding s2_def s1_def using v p(3) t(2) by (simp add: rest_put valid_put)
    moreover have "oa_move_range get put n p hi s = oa_move_range get put n (p + 1) hi s2"
      using False p(1) t(1) unfolding s2_def s1_def
      by (subst oa_move_range.simps) (simp add: home_def Let_def)
    ultimately show ?thesis
      using Suc.hyps(1)[OF p(2), of s2] Suc.prems p(1) v v2 by simp
  qed
qed

lemma double_ok:
  assumes c: "c = 2 ^ k" "n = 2 * c - 1" and v: "\<And>i. i \<le> n \<Longrightarrow> valid s i"
    and b: "b < c" "\<not> occ (get s) b" and ok: "probe_ok (get s) (c - 1)"
    and upper: "\<And>i. c \<le> i \<Longrightarrow> i \<le> n \<Longrightarrow> \<not> occ (get s) i"
  obtains s1 s' where "oa_move_range get put n b c s = Some s1"
    "oa_move_range get put n 0 b s1 = Some s'" "probe_ok (get s') n"
    "bag (get s') n = bag (get s) n" "rest s' = rest s" "\<forall>i. valid s' i \<longleftrightarrow> valid s i"
proof -
  have n: "n = 2 ^ Suc k - 1" and bn: "b \<le> n" "c \<le> n + 1" "b \<le> n + 1"
    using c b by auto
  have stay1: "ginv1 b c n T (p + 1)" if "b \<le> p" "p < c" "ginv1 b c n T p" "home T n p = p" for p T
  proof -
    have "insert p ({c..} \<union> {b..<p}) = {c..} \<union> {b..<p + 1}"
      using that by auto
    then show ?thesis
      using place_stay[OF n bn(1), of p "{c..} \<union> {b..<p}" T c] that c(2) by (simp add: ginv1_def)
  qed
  have stay2: "ginv2 b c n T (p + 1)" if "0 \<le> p" "p < b" "ginv2 b c n T p" "home T n p = p" for p T
  proof -
    have "insert p ({b..} \<union> {..<p}) = {b..} \<union> {..<p + 1}"
      using that by auto
    then show ?thesis
      using place_stay[OF n bn(1), of p "{b..} \<union> {..<p}" T c] that bn(1) by (simp add: ginv2_def)
  qed
  have "\<exists>s1. oa_move_range get put n b c s = Some s1 \<and> ginv1 b c n (get s1) c \<and>
      bag (get s1) n = bag (get s) n \<and> rest s1 = rest s \<and> (\<forall>i. valid s1 i \<longleftrightarrow> valid s i)"
    using b(1) by (intro move_range_ok[where I = "ginv1 b c n", OF stay1 grow_step1[OF c]
        ginv1_cong[OF _ bn(1)] bn(2) order_refl _ ginv_start[OF c b ok upper] v]) simp_all
  then obtain s1 where s1: "oa_move_range get put n b c s = Some s1" "ginv1 b c n (get s1) c"
      "bag (get s1) n = bag (get s) n" "rest s1 = rest s" "\<And>i. valid s1 i \<longleftrightarrow> valid s i"
    by blast
  have "\<exists>s2. oa_move_range get put n 0 b s1 = Some s2 \<and> ginv2 b c n (get s2) b \<and>
      bag (get s2) n = bag (get s1) n \<and> rest s2 = rest s1 \<and> (\<forall>i. valid s2 i \<longleftrightarrow> valid s1 i)"
    using v s1(5) by (intro move_range_ok[where I = "ginv2 b c n", OF stay2 grow_step2[OF c _ b(1)]
        ginv2_cong[OF _ bn(1)] bn(3) order_refl _ ginv_switch[OF s1(2) b(1)]]) simp_all
  then obtain s2 where s2: "oa_move_range get put n 0 b s1 = Some s2" "ginv2 b c n (get s2) b"
      "bag (get s2) n = bag (get s1) n" "rest s2 = rest s1" "\<And>i. valid s2 i \<longleftrightarrow> valid s1 i"
    by blast
  show ?thesis
    using that[OF s1(1) s2(1) ginv_finish[OF n bn(1) s2(2)]] s1 s2 by simp
qed

end

end
