(* ===== verification/Hash_Funcs.thy ===== *)
theory Hash_Funcs
  imports Ribs_Prelude
begin

text \<open>
  \<^verbatim>\<open>include/ilog2.h\<close> and \<^verbatim>\<open>include/hash_funcs.h\<close>: the integer logarithm and power-of-two
  rounding that size every table and segment, and the byte-string hash functions.
  The tables see a hash code as a number below \<open>2 ^ 32\<close>.
\<close>

section \<open>Integer logarithms\<close>

text \<open>\<^verbatim>\<open>bsr\<close> finds the highest set bit.  For 0 the instruction leaves its result undefined;
  the value 0 is that of the portable branch.\<close>

fun ilog2 :: "nat \<Rightarrow> nat" where
  "ilog2 x = (if x \<le> 1 then 0 else Suc (ilog2 (x div 2)))"

declare ilog2.simps [simp del]

definition next_p2 :: "nat \<Rightarrow> nat" where
  "next_p2 x = u32 (2 * 2 ^ ilog2 (u32 (x + (2 ^ 32 - 1))))"

definition ilog2_64 :: "nat \<Rightarrow> nat" where
  "ilog2_64 x = ilog2 x"

definition next_p2_64 :: "nat \<Rightarrow> nat" where
  "next_p2_64 x = u64 (2 * 2 ^ ilog2_64 (sub64 x 1))"

lemma ilog2_le: "0 < x \<Longrightarrow> 2 ^ ilog2 x \<le> x"
proof (induction x rule: ilog2.induct)
  case (1 x)
  show ?case
  proof (cases "x \<le> 1")
    case True
    then show ?thesis
      using 1 by (simp add: ilog2.simps)
  next
    case False
    have "2 * 2 ^ ilog2 (x div 2) \<le> 2 * (x div 2)"
      using 1 False by simp
    then show ?thesis
      using False by (simp add: ilog2.simps[of x])
  qed
qed

lemma ilog2_lt: "x < 2 * 2 ^ ilog2 x"
proof (induction x rule: ilog2.induct)
  case (1 x)
  show ?case
  proof (cases "x \<le> 1")
    case False
    then have "x div 2 + 1 \<le> 2 * 2 ^ ilog2 (x div 2)"
      using 1 by simp
    then show ?thesis
      using False by (simp add: ilog2.simps[of x])
  qed (simp add: ilog2.simps)
qed

lemma ilog2_unique:
  assumes "2 ^ k \<le> x" "x < 2 * 2 ^ k"
  shows "ilog2 x = k"
proof -
  have x: "0 < x"
    using assms(1) by (metis gr0I le_zero_eq power_not_zero zero_neq_numeral)
  have "2 ^ ilog2 x < (2 :: nat) ^ Suc k" "2 ^ k < (2 :: nat) ^ Suc (ilog2 x)"
    using ilog2_le[OF x] ilog2_lt[of x] assms by simp_all
  then have "ilog2 x < Suc k" "k < Suc (ilog2 x)"
    by (simp_all only: power_strict_increasing_iff one_less_numeral_iff semiring_norm)
  then show ?thesis
    by simp
qed

lemma ilog2_pow: "ilog2 (2 ^ k) = k"
  by (rule ilog2_unique) simp_all

lemma ilog2_lt_bits:
  assumes "0 < x" "x < 2 ^ w"
  shows "ilog2 x < w"
proof -
  have "2 ^ ilog2 x < (2 :: nat) ^ w"
    using ilog2_le[OF assms(1)] assms(2) by linarith
  then show ?thesis
    by (simp only: power_strict_increasing_iff one_less_numeral_iff semiring_norm)
qed

lemma p2_above:
  assumes "2 \<le> x"
  shows "x \<le> 2 * 2 ^ ilog2 (x - 1)" "2 * 2 ^ ilog2 (x - 1) < 2 * x"
  using ilog2_lt[of "x - 1"] ilog2_le[of "x - 1"] assms by linarith+

lemma next_p2_64_eq:
  assumes "2 \<le> x" "x \<le> 2 ^ 63"
  shows "next_p2_64 x = 2 * 2 ^ ilog2 (x - 1)"
  using assms p2_above(2)[OF assms(1)] by (simp add: next_p2_64_def ilog2_64_def ribs_arith)

lemma next_p2_64_bounds:
  assumes "2 \<le> x" "x \<le> 2 ^ 63"
  shows "x \<le> next_p2_64 x" "next_p2_64 x < 2 * x"
  unfolding next_p2_64_eq[OF assms] using p2_above[OF assms(1)] by blast+

lemma next_p2_eq:
  assumes "2 \<le> x" "x \<le> 2 ^ 31"
  shows "next_p2 x = 2 * 2 ^ ilog2 (x - 1)"
proof -
  have "x + (2 ^ 32 - 1) = (x - 1) + 2 ^ 32"
    using assms by simp
  moreover have "(x - 1) mod 2 ^ 32 = x - 1"
    using assms by simp
  ultimately have "u32 (x + (2 ^ 32 - 1)) = x - 1"
    unfolding u32_def by (simp only: mod_add_self2)
  moreover have "2 * 2 ^ ilog2 (x - 1) < (2 :: nat) ^ 32"
    using p2_above(2)[OF assms(1)] assms(2) by simp
  ultimately show ?thesis
    by (simp add: next_p2_def u32_def)
qed

section \<open>Hash functions\<close>

definition hashcode2 :: "byte list \<Rightarrow> nat" where
  "hashcode2 key = unat (foldl (\<lambda>h c. (push_bit 5 h + h) XOR ucast c) (5381 :: 32 word) key)"

definition hashcode_djb_64 :: "byte list \<Rightarrow> nat" where
  "hashcode_djb_64 key = unat (foldl (\<lambda>h c. (push_bit 5 h + h) + ucast c) (5381 :: 64 word) key)"

definition hashcode :: "byte list \<Rightarrow> nat" where
  "hashcode key = unat (foldl (\<lambda>h c. (h XOR ucast c) * 0x811C9DC5) (0 :: 32 word) key)"

lemma hashcode_lt: "hashcode key < 2 ^ 32"
proof -
  have "unat w < 2 ^ 32" for w :: "32 word"
    using unsigned_less[of w, where ?'a = nat] by simp
  then show ?thesis
    unfolding hashcode_def .
qed

text \<open>MurmurHash2: whole 8-byte little-endian words, then the tail through the
  fall-through \<^verbatim>\<open>switch\<close>.\<close>

fun le64 :: "byte list \<Rightarrow> 64 word" where
  "le64 [] = 0"
| "le64 (b # bs) = ucast b + push_bit 8 (le64 bs)"

fun murmur_words :: "64 word \<Rightarrow> byte list \<Rightarrow> 64 word \<times> byte list" where
  "murmur_words h data =
     (if length data < 8 then (h, data)
      else
        (let m = 0xc6a4a7935bd1e995;
             k = le64 (take 8 data) * m;
             k = k XOR drop_bit 47 k;
             k = k * m
         in murmur_words ((h XOR k) * m) (drop 8 data)))"

declare murmur_words.simps [simp del]

definition murmur_tail :: "64 word \<Rightarrow> byte list \<Rightarrow> 64 word" where
  "murmur_tail h data2 =
     (let m = 0xc6a4a7935bd1e995;
          n = length data2;
          x = (\<lambda>i h. if i < n then h XOR push_bit (8 * i) (ucast (data2 ! i)) else h);
          h = x 0 (x 1 (x 2 (x 3 (x 4 (x 5 (x 6 h))))))
      in if n = 0 then h else h * m)"

definition hash_murmur2_64_universal :: "byte list \<Rightarrow> 32 word \<Rightarrow> 64 word" where
  "hash_murmur2_64_universal key seed =
     (let m = 0xc6a4a7935bd1e995;
          h = ucast (seed XOR of_nat (length key));
          (h, data2) = murmur_words h key;
          h = murmur_tail h data2;
          h = h XOR drop_bit 47 h;
          h = h * m
      in h XOR drop_bit 47 h)"

lemma murmur_words_tail: "length (snd (murmur_words h data)) = length data mod 8"
proof (induction h data rule: murmur_words.induct)
  case (1 h data)
  show ?case
  proof (cases "length data < 8")
    case False
    have "(length data - 8) mod 8 = length data mod 8"
      using False by (metis le_mod_geq not_less)
    then show ?thesis
      using False 1 by (simp add: murmur_words.simps[of h data] Let_def)
  qed (simp add: murmur_words.simps)
qed

end
