(* ===== verification/Vmallocator.thy ===== *)
theory Vmallocator
  imports Hash_Funcs
begin

text \<open>
  \<^verbatim>\<open>src/_vmallocator.c\<close> and \<^verbatim>\<open>src/vmallocator.c\<close>: a segment of memory, anonymous or mapped from
  a file, from which extents are allocated by advancing a write position and which is
  remapped to the next power of two when it is full.  An allocation returns an offset
  into the segment, and \<open>ALLOC_FAILED\<close>, the \<^verbatim>\<open>size_t\<close> value of \<open>-1\<close>, when the kernel refuses.
  The locale \<open>segment_alloc\<close> is the contract of the two allocation functions.
\<close>

section \<open>The segment\<close>

datatype resize_func = Resize_buf | Resize_file

record vmallocator =
  va_mem :: bool
  wlocpos :: nat
  va_capacity :: nat
  va_resize_func :: "resize_func option"
  va_fd :: int

definition VMALLOCATOR_INITIALIZER :: vmallocator where
  "VMALLOCATOR_INITIALIZER =
     \<lparr>va_mem = False, wlocpos = 0, va_capacity = 0, va_resize_func = None, va_fd = -1\<rparr>"

definition VM_ALLOC_MIN_SIZE :: nat where
  "VM_ALLOC_MIN_SIZE = 4096"

definition VM_OFS_ALIGN_BYTES :: nat where
  "VM_OFS_ALIGN_BYTES = 8"

definition VM_ALLOC_ALIGN :: "nat \<Rightarrow> nat \<Rightarrow> nat" where
  "VM_ALLOC_ALIGN x s = align_up s x"

definition ALLOC_FAILED :: nat where
  "ALLOC_FAILED = 2 ^ 64 - 1"

definition vmallocator_reset :: "vmallocator \<Rightarrow> vmallocator" where
  "vmallocator_reset v = v\<lparr>wlocpos := 0\<rparr>"

definition vmallocator_wlocpos :: "vmallocator \<Rightarrow> nat" where
  "vmallocator_wlocpos v = wlocpos v"

definition vmallocator_wlocset :: "vmallocator \<Rightarrow> nat \<Rightarrow> vmallocator" where
  "vmallocator_wlocset v ofs = v\<lparr>wlocpos := ofs\<rparr>"

definition vmallocator_avail :: "vmallocator \<Rightarrow> nat" where
  "vmallocator_avail v = sub64 (va_capacity v) (wlocpos v)"

definition resize_buf :: "kernel \<Rightarrow> vmallocator \<Rightarrow> nat \<Rightarrow> int \<times> vmallocator" where
  "resize_buf k v new_size =
     (if k_mremap k (va_capacity v) new_size then (0, v\<lparr>va_capacity := new_size\<rparr>) else (-1, v))"

definition resize_file :: "kernel \<Rightarrow> vmallocator \<Rightarrow> nat \<Rightarrow> int \<times> vmallocator" where
  "resize_file k v new_size =
     (if k_ftruncate k new_size then resize_buf k v new_size else (-1, v))"

definition call_resize_func :: "kernel \<Rightarrow> vmallocator \<Rightarrow> nat \<Rightarrow> int \<times> vmallocator" where
  "call_resize_func k v new_size =
     (if va_resize_func v = Some Resize_file then resize_file k v new_size
      else resize_buf k v new_size)"

definition vmallocator_check_resize :: "kernel \<Rightarrow> vmallocator \<Rightarrow> nat \<Rightarrow> int \<times> vmallocator" where
  "vmallocator_check_resize k v s =
     (let wavail = vmallocator_avail v
      in if wavail < s then
           (let new_capacity = va_capacity v
            in if new_capacity = 0 then (-1, v)
               else call_resize_func k v (next_p2_64 (sub64 (add64 new_capacity s) wavail)))
         else (0, v))"

definition vmallocator_alloc :: "kernel \<Rightarrow> vmallocator \<Rightarrow> nat \<Rightarrow> nat \<times> vmallocator" where
  "vmallocator_alloc k v s =
     (let (res, v1) = vmallocator_check_resize k v s
      in if res < 0 then (ALLOC_FAILED, v1)
         else (wlocpos v1, v1\<lparr>wlocpos := add64 (wlocpos v1) s\<rparr>))"

definition vmallocator_alloc_aligned :: "kernel \<Rightarrow> vmallocator \<Rightarrow> nat \<Rightarrow> nat \<times> vmallocator" where
  "vmallocator_alloc_aligned k v s =
     (let v0 = v\<lparr>wlocpos := VM_ALLOC_ALIGN (wlocpos v) VM_OFS_ALIGN_BYTES\<rparr>;
          (res, v1) = vmallocator_check_resize k v0 s
      in if res < 0 then (ALLOC_FAILED, v1)
         else (wlocpos v1, v1\<lparr>wlocpos := add64 (wlocpos v1) s\<rparr>))"

definition vmallocator_free :: "vmallocator \<Rightarrow> vmallocator" where
  "vmallocator_free v =
     (if \<not> va_mem v then v
      else
        (let v = (if 0 \<le> va_fd v then v\<lparr>va_fd := -1\<rparr> else v)
         in v\<lparr>va_mem := False, va_capacity := 0, wlocpos := 0\<rparr>))"

definition vmallocator_init :: "kernel \<Rightarrow> vmallocator \<Rightarrow> int \<times> vmallocator" where
  "vmallocator_init k v =
     (if va_mem v then (0, vmallocator_reset v)
      else
        (let v = v\<lparr>va_fd := -1, va_capacity := VM_ALLOC_MIN_SIZE\<rparr>
         in if k_mmap k VM_ALLOC_MIN_SIZE
            then (0, v\<lparr>va_mem := True, wlocpos := 0, va_resize_func := Some Resize_buf\<rparr>)
            else (-1, v)))"

text \<open>\<open>fd\<close> is the descriptor \<^verbatim>\<open>open\<close> returned and \<open>st\<close> the file size \<^verbatim>\<open>fstat\<close> reported, if it did;
  \<open>wr\<close> stands for \<^verbatim>\<open>O_RDWR\<close> or \<^verbatim>\<open>O_WRONLY\<close> in the flags and \<open>tr\<close> for \<^verbatim>\<open>O_TRUNC\<close>.\<close>

definition vmallocator_open ::
    "kernel \<Rightarrow> vmallocator \<Rightarrow> int \<Rightarrow> nat option \<Rightarrow> bool \<Rightarrow> bool \<Rightarrow> int \<times> vmallocator" where
  "vmallocator_open k v fd st wr tr =
     (let v = (if va_mem v then vmallocator_free v else v)
      in if fd < 0 then (-1, v)
         else
           (case st of
              None \<Rightarrow> (-1, v)
            | Some st_size \<Rightarrow>
                (let v = v\<lparr>wlocpos := st_size, va_capacity := st_size\<rparr>;
                     v = (if wr then
                            (let v = (if tr then v\<lparr>wlocpos := 0, va_capacity := 0\<rparr> else v)
                             in v\<lparr>va_capacity :=
                                   (if VM_ALLOC_MIN_SIZE > va_capacity v then VM_ALLOC_MIN_SIZE
                                    else VM_ALLOC_ALIGN (va_capacity v) VM_ALLOC_MIN_SIZE)\<rparr>)
                          else v)
                 in if wr \<and> \<not> k_ftruncate k (va_capacity v) then (-1, v)
                    else if va_capacity v = 0 then
                      (0, v\<lparr>va_mem := False, va_fd := fd, va_resize_func := Some Resize_file\<rparr>)
                    else if k_mmap k (va_capacity v) then
                      (0, v\<lparr>va_mem := True, va_fd := fd, va_resize_func := Some Resize_file\<rparr>)
                    else (-1, v))))"

text \<open>Besides the result, the length the backing file is left with, when it is cut.\<close>

definition vmallocator_close :: "kernel \<Rightarrow> vmallocator \<Rightarrow> int \<times> nat option \<times> vmallocator" where
  "vmallocator_close k v =
     (let cut = 0 \<le> va_fd v \<and> va_capacity v \<noteq> wlocpos v;
          res = (if cut \<and> \<not> k_ftruncate k (wlocpos v) then -1 else 0)
      in (res, if cut \<and> res = 0 then Some (wlocpos v) else None, vmallocator_free v))"

section \<open>Invariant and contract\<close>

definition va_ok :: "vmallocator \<Rightarrow> bool" where
  "va_ok v \<longleftrightarrow> va_mem v \<and> 0 < va_capacity v \<and> 8 dvd va_capacity v \<and> wlocpos v \<le> va_capacity v \<and>
     va_capacity v \<le> 2 ^ 62"

lemma align8: "x \<le> 2 ^ 61 \<Longrightarrow> x \<le> align_up 8 x \<and> align_up 8 x < x + 8 \<and> 8 dvd align_up 8 x"
  using align_up_ge[of 8 x] align_up_lt[of 8 x] align_up_dvd[of 8 x] by simp

lemma align8_le:
  assumes "x \<le> c" "8 dvd c" "c \<le> 2 ^ 62"
  shows "align_up 8 x \<le> c"
proof -
  obtain q r where qr: "c = 8 * q" "align_up 8 x = 8 * r"
    using assms(2) align_up_dvd[of 8 x] by (auto elim!: dvdE)
  have "align_up 8 x < x + 8"
    using assms by (intro align_up_lt) simp_all
  then have "r < q + 1"
    using assms(1) qr by linarith
  then show ?thesis
    using qr by simp
qed

lemma pow_dvd8: "8 < (2 * 2 ^ i :: nat) \<Longrightarrow> 8 dvd (2 * 2 ^ i :: nat)"
proof -
  assume "8 < (2 * 2 ^ i :: nat)"
  then have "2 ^ 3 < (2 :: nat) ^ Suc i"
    by simp
  then have "3 < Suc i"
    by (simp only: power_strict_increasing_iff one_less_numeral_iff semiring_norm)
  then have "(2 :: nat) ^ 3 dvd 2 ^ Suc i"
    by (intro le_imp_power_dvd) simp
  then show ?thesis
    by simp
qed

lemma check_resize_cases:
  assumes ok: "va_ok v" and s: "wlocpos v + s \<le> 2 ^ 61"
    and r: "vmallocator_check_resize k v s = (res, v')"
  shows "res = -1 \<and> v' = v \<and> \<not> grants k \<or>
    res = 0 \<and> va_ok v' \<and> wlocpos v' = wlocpos v \<and> wlocpos v + s \<le> va_capacity v' \<and>
      va_capacity v \<le> va_capacity v'"
proof -
  have cap: "0 < va_capacity v" "8 dvd va_capacity v" "wlocpos v \<le> va_capacity v"
      "va_capacity v \<le> 2 ^ 62" "va_mem v"
    using ok by (simp_all add: va_ok_def)
  have av: "vmallocator_avail v = va_capacity v - wlocpos v"
    using cap by (simp add: vmallocator_avail_def ribs_arith)
  show ?thesis
  proof (cases "va_capacity v - wlocpos v < s")
    case False
    then show ?thesis
      using r ok cap av by (auto simp: vmallocator_check_resize_def Let_def)
  next
    case True
    define n where "n = next_p2_64 (wlocpos v + s)"
    have big: "8 < wlocpos v + s"
      using True cap(1-3) by (auto dest: dvd_imp_le)
    have n: "wlocpos v + s \<le> n" "n < 2 * (wlocpos v + s)" "8 dvd n"
      using next_p2_64_bounds[of "wlocpos v + s"] next_p2_64_eq[of "wlocpos v + s"]
        pow_dvd8[of "ilog2 (wlocpos v + s - 1)"] big s by (simp_all add: n_def)
    have "sub64 (add64 (va_capacity v) s) (va_capacity v - wlocpos v) = wlocpos v + s"
      using cap s by (simp add: ribs_arith)
    then have "vmallocator_check_resize k v s = call_resize_func k v n"
      using True cap(1) av by (simp add: vmallocator_check_resize_def n_def Let_def)
    then have "res = -1 \<and> v' = v \<and> \<not> grants k \<or> res = 0 \<and> v' = v\<lparr>va_capacity := n\<rparr>"
      using r by (auto simp: call_resize_func_def resize_file_def resize_buf_def grants_def split: if_splits)
    then show ?thesis
      using n s cap True by (auto simp: va_ok_def)
  qed
qed

lemma check_resize_loc: "vmallocator_check_resize k v s = (res, v') \<Longrightarrow> wlocpos v' = wlocpos v"
  by (auto simp: vmallocator_check_resize_def Let_def call_resize_func_def resize_file_def
      resize_buf_def split: if_splits)

text \<open>What an allocation function of alignment \<open>al\<close> promises.\<close>

locale segment_alloc =
  fixes alloc :: "kernel \<Rightarrow> vmallocator \<Rightarrow> nat \<Rightarrow> nat \<times> vmallocator"
    and al :: nat
  assumes al_le: "0 < al" "al \<le> 8"
    and alloc_some: "va_ok v \<Longrightarrow> wlocpos v + s + 8 \<le> 2 ^ 61 \<Longrightarrow> alloc k v s = (ofs, v') \<Longrightarrow>
      ofs \<noteq> ALLOC_FAILED \<Longrightarrow> va_ok v' \<and> wlocpos v \<le> ofs \<and> ofs < wlocpos v + al \<and> al dvd ofs \<and>
        wlocpos v' = ofs + s \<and> va_capacity v \<le> va_capacity v'"
    and alloc_fail: "va_ok v \<Longrightarrow> wlocpos v + s + 8 \<le> 2 ^ 61 \<Longrightarrow> alloc k v s = (ALLOC_FAILED, v') \<Longrightarrow>
      va_ok v' \<and> va_capacity v' = va_capacity v \<and> wlocpos v \<le> wlocpos v' \<and> wlocpos v' < wlocpos v + al"
    and alloc_grants: "va_ok v \<Longrightarrow> wlocpos v + s + 8 \<le> 2 ^ 61 \<Longrightarrow> grants k \<Longrightarrow>
      fst (alloc k v s) \<noteq> ALLOC_FAILED"
begin

lemma new_extent:
  assumes "va_ok v" "wlocpos v + s + 8 \<le> 2 ^ 61" "grants k"
  obtains ofs v' where "alloc k v s = (ofs, v')" "ofs \<noteq> ALLOC_FAILED" "va_ok v'"
    "wlocpos v \<le> ofs" "ofs < wlocpos v + al" "wlocpos v' = ofs + s" "ofs + s \<le> va_capacity v'"
proof -
  obtain ofs v' where r: "alloc k v s = (ofs, v')"
    by fastforce
  then have "ofs \<noteq> ALLOC_FAILED"
    using alloc_grants[OF assms] by simp
  then show ?thesis
    using that alloc_some[OF assms(1,2) r] r by (auto simp: va_ok_def)
qed

lemma always_ok:
  assumes "va_ok v" "wlocpos v + s + 8 \<le> 2 ^ 61"
  shows "va_ok (snd (alloc k v s))" "wlocpos v \<le> wlocpos (snd (alloc k v s))"
    "va_capacity v \<le> va_capacity (snd (alloc k v s))"
proof -
  obtain ofs v' where r: "alloc k v s = (ofs, v')"
    by fastforce
  show "va_ok (snd (alloc k v s))" "wlocpos v \<le> wlocpos (snd (alloc k v s))"
    "va_capacity v \<le> va_capacity (snd (alloc k v s))"
    using alloc_some[OF assms r] alloc_fail[OF assms, of k v'] r by (cases "ofs = ALLOC_FAILED"; auto)+
qed

end

interpretation plain: segment_alloc vmallocator_alloc 1
proof unfold_locales
  fix k v s ofs v'
  assume a: "va_ok v" "wlocpos v + s + 8 \<le> 2 ^ 61"
  obtain res v1 where r: "vmallocator_check_resize k v s = (res, v1)"
    by fastforce
  have s: "wlocpos v + s \<le> 2 ^ 61"
    using a(2) by simp
  note c = check_resize_cases[OF a(1) s r]
  show "va_ok v' \<and> wlocpos v \<le> ofs \<and> ofs < wlocpos v + 1 \<and> 1 dvd ofs \<and> wlocpos v' = ofs + s \<and>
      va_capacity v \<le> va_capacity v'"
    if "vmallocator_alloc k v s = (ofs, v')" "ofs \<noteq> ALLOC_FAILED"
    using that c s by (auto simp: vmallocator_alloc_def r va_ok_def ribs_arith split: if_splits)
  show "va_ok v' \<and> va_capacity v' = va_capacity v \<and> wlocpos v \<le> wlocpos v' \<and> wlocpos v' < wlocpos v + 1"
    if "vmallocator_alloc k v s = (ALLOC_FAILED, v')"
    using that c a s by (auto simp: vmallocator_alloc_def r ALLOC_FAILED_def split: if_splits)
  show "fst (vmallocator_alloc k v s) \<noteq> ALLOC_FAILED" if "grants k"
    using that c s by (auto simp: vmallocator_alloc_def r ALLOC_FAILED_def)
qed simp_all

interpretation aligned: segment_alloc vmallocator_alloc_aligned 8
proof unfold_locales
  fix k v s ofs v'
  assume a: "va_ok v" "wlocpos v + s + 8 \<le> 2 ^ 61"
  define v0 where "v0 = v\<lparr>wlocpos := align_up 8 (wlocpos v)\<rparr>"
  have w: "wlocpos v \<le> wlocpos v0" "wlocpos v0 < wlocpos v + 8" "8 dvd wlocpos v0"
    using align8[of "wlocpos v"] a(2) by (simp_all add: v0_def)
  have ok0: "va_ok v0" "va_capacity v0 = va_capacity v"
    using a(1) align8_le[of "wlocpos v" "va_capacity v"] by (simp_all add: va_ok_def v0_def)
  obtain res v1 where r: "vmallocator_check_resize k v0 s = (res, v1)"
    by fastforce
  have s: "wlocpos v0 + s \<le> 2 ^ 61"
    using a(2) w by simp
  note c = check_resize_cases[OF ok0(1) s r]
  have d: "vmallocator_alloc_aligned k v s =
      (if res < 0 then (ALLOC_FAILED, v1) else (wlocpos v1, v1\<lparr>wlocpos := add64 (wlocpos v1) s\<rparr>))"
    using r by (simp add: vmallocator_alloc_aligned_def VM_ALLOC_ALIGN_def VM_OFS_ALIGN_BYTES_def v0_def)
  show "va_ok v' \<and> wlocpos v \<le> ofs \<and> ofs < wlocpos v + 8 \<and> 8 dvd ofs \<and> wlocpos v' = ofs + s \<and>
      va_capacity v \<le> va_capacity v'"
    if "vmallocator_alloc_aligned k v s = (ofs, v')" "ofs \<noteq> ALLOC_FAILED"
    using that c s w ok0(2) by (auto simp: d va_ok_def ribs_arith split: if_splits)
  show "va_ok v' \<and> va_capacity v' = va_capacity v \<and> wlocpos v \<le> wlocpos v' \<and> wlocpos v' < wlocpos v + 8"
    if "vmallocator_alloc_aligned k v s = (ALLOC_FAILED, v')"
    using that c s w ok0 by (auto simp: d ALLOC_FAILED_def split: if_splits)
  show "fst (vmallocator_alloc_aligned k v s) \<noteq> ALLOC_FAILED" if "grants k"
    using that c s by (auto simp: d ALLOC_FAILED_def)
qed simp_all

section \<open>A run of allocations\<close>

datatype request = Plain nat | Aligned nat

fun req_size :: "request \<Rightarrow> nat" where
  "req_size (Plain s) = s"
| "req_size (Aligned s) = s"

fun serve :: "kernel \<Rightarrow> vmallocator \<Rightarrow> request \<Rightarrow> nat \<times> vmallocator" where
  "serve k v (Plain s) = vmallocator_alloc k v s"
| "serve k v (Aligned s) = vmallocator_alloc_aligned k v s"

text \<open>The extents, offset and size, that a sequence of requests obtains; a refused request
  obtains none.\<close>

fun extents :: "kernel \<Rightarrow> vmallocator \<Rightarrow> request list \<Rightarrow> (nat \<times> nat) list \<times> vmallocator" where
  "extents k v [] = ([], v)"
| "extents k v (r # rs) =
     (let (ofs, v1) = serve k v r;
          (es, v2) = extents k v1 rs
      in (if ofs = ALLOC_FAILED then es else (ofs, req_size r) # es, v2))"

lemma serve_ok:
  assumes "va_ok v" "wlocpos v + req_size r + 8 \<le> 2 ^ 61" "serve k v r = (ofs, v')"
  shows "va_ok v'" "wlocpos v \<le> wlocpos v'" "wlocpos v' \<le> wlocpos v + req_size r + 8"
    "ofs \<noteq> ALLOC_FAILED \<Longrightarrow> wlocpos v \<le> ofs \<and> ofs + req_size r = wlocpos v'"
proof -
  have f: "va_ok v' \<and> wlocpos v \<le> wlocpos v' \<and> wlocpos v' \<le> wlocpos v + req_size r + 8 \<and>
      (ofs \<noteq> ALLOC_FAILED \<longrightarrow> wlocpos v \<le> ofs \<and> ofs + req_size r = wlocpos v')"
  proof (cases r)
    case (Plain s)
    then show ?thesis
      using plain.alloc_some[OF assms(1), of s k ofs v'] plain.alloc_fail[OF assms(1), of s k v'] assms(2,3)
      by (cases "ofs = ALLOC_FAILED") auto
  next
    case (Aligned s)
    then show ?thesis
      using aligned.alloc_some[OF assms(1), of s k ofs v'] aligned.alloc_fail[OF assms(1), of s k v'] assms(2,3)
      by (cases "ofs = ALLOC_FAILED") auto
  qed
  then show "va_ok v'" "wlocpos v \<le> wlocpos v'" "wlocpos v' \<le> wlocpos v + req_size r + 8"
    "ofs \<noteq> ALLOC_FAILED \<Longrightarrow> wlocpos v \<le> ofs \<and> ofs + req_size r = wlocpos v'"
    by blast+
qed

lemma extents_ok:
  assumes "va_ok v" "wlocpos v + (\<Sum>r\<leftarrow>rs. req_size r + 8) \<le> 2 ^ 61" "extents k v rs = (es, v')"
  shows "va_ok v' \<and> wlocpos v \<le> wlocpos v' \<and> wlocpos v' \<le> va_capacity v' \<and>
    (\<forall>(o1, n1) \<in> set es. wlocpos v \<le> o1 \<and> o1 + n1 \<le> wlocpos v') \<and>
    sorted_wrt (\<lambda>(o1, n1) (o2, n2). o1 + n1 \<le> o2) es"
  using assms
proof (induction rs arbitrary: v es)
  case Nil
  then show ?case
    by (simp add: va_ok_def)
next
  case (Cons r rs)
  obtain ofs v1 where s: "serve k v r = (ofs, v1)"
    by fastforce
  obtain es1 where e: "extents k v1 rs = (es1, v')"
      "es = (if ofs = ALLOC_FAILED then es1 else (ofs, req_size r) # es1)"
    using Cons.prems(3) s by (auto simp: Let_def split: prod.splits)
  have b: "wlocpos v + req_size r + 8 \<le> 2 ^ 61"
    using Cons.prems(2) by simp
  note f = serve_ok[OF Cons.prems(1) b s]
  have "wlocpos v1 + (\<Sum>r\<leftarrow>rs. req_size r + 8) \<le> 2 ^ 61"
    using f(3) Cons.prems(2) by simp
  note ih = Cons.IH[OF f(1) this e(1)]
  have "wlocpos v1 \<le> o1 \<and> o1 + n1 \<le> wlocpos v'" if "(o1, n1) \<in> set es1" for o1 n1
    using ih that by auto
  then show ?case
    using ih f(2,4) e(2) by (cases "ofs = ALLOC_FAILED") fastforce+
qed

end
