(* ===== verification/Hashtable.thy ===== *)
theory Hashtable
  imports Open_Addressing Vmallocator
begin

text \<open>
  \<^verbatim>\<open>src/hashtable.c\<close> and \<^verbatim>\<open>src/_hashtable.c\<close>: the hash table kept in one growable segment, so
  that it can live in a file.  All references are offsets into the segment.  The
  header's fields are fields of the record; \<open>ht_ents\<close> is the segment read as bucket
  entries, \<open>ht_recs\<close> the segment read as key/value records, each addressed by byte offset.
  An operation whose C code would run forever or write outside the segment has the
  result \<open>None\<close>.
\<close>

section \<open>State\<close>

text \<open>\<^verbatim>\<open>union hashtable_internal_rec\<close>: its two words and the bytes behind them.  The words are
  the key and value size of a live record, the next reference and the total size of a
  free one.\<close>

record hrec =
  r_w0 :: nat
  r_w1 :: nat
  r_data :: "nat \<Rightarrow> byte"

record hashtable =
  ht_data :: vmallocator
  ht_mask :: nat
  ht_size :: nat
  ht_free_list :: nat
  ht_slots :: "nat list"
  ht_ents :: "nat \<Rightarrow> ht_entry"
  ht_recs :: "nat \<Rightarrow> hrec"

definition HASHTABLE_INITIAL_SIZE_BITS :: nat where
  "HASHTABLE_INITIAL_SIZE_BITS = 5"

definition HASHTABLE_INITIAL_SIZE :: nat where
  "HASHTABLE_INITIAL_SIZE = 2 ^ HASHTABLE_INITIAL_SIZE_BITS"

definition HT_ENTRY_SIZE :: nat where
  "HT_ENTRY_SIZE = 8"

definition HT_HEADER_SIZE :: nat where
  "HT_HEADER_SIZE = 140"

definition HASHTABLE_REC_SIZE :: nat where
  "HASHTABLE_REC_SIZE = 8"

section \<open>Buckets\<close>

definition hashtable_bucket :: "hashtable \<Rightarrow> nat \<Rightarrow> nat" where
  "hashtable_bucket ht bucket =
     (if bucket < HASHTABLE_INITIAL_SIZE then ht_slots ht ! 0 + HT_ENTRY_SIZE * bucket
      else
        (let il2 = ilog2 bucket;
             bucket = bucket - 2 ^ il2
         in ht_slots ht ! (il2 - HASHTABLE_INITIAL_SIZE_BITS + 1) + HT_ENTRY_SIZE * bucket))"

definition ht_get :: "hashtable \<Rightarrow> nat \<Rightarrow> ht_entry" where
  "ht_get ht b = ht_ents ht (hashtable_bucket ht b)"

definition ht_put :: "hashtable \<Rightarrow> nat \<Rightarrow> ht_entry \<Rightarrow> hashtable" where
  "ht_put ht b e = ht\<lparr>ht_ents := (ht_ents ht)(hashtable_bucket ht b := e)\<rparr>"

definition zero_entries :: "(nat \<Rightarrow> ht_entry) \<Rightarrow> nat \<Rightarrow> nat \<Rightarrow> nat \<Rightarrow> ht_entry" where
  "zero_entries f ofs s =
     (\<lambda>a. if ofs \<le> a \<and> a < ofs + s then \<lparr>e_hashcode = 0, e_rec = 0\<rparr> else f a)"

text \<open>\<open>vmallocator_alloczero_aligned\<close> on the table's segment, truncated to the \<^verbatim>\<open>uint32_t\<close> the
  callers keep.\<close>

definition ht_alloc_vector :: "kernel \<Rightarrow> hashtable \<Rightarrow> nat \<Rightarrow> (nat \<times> hashtable) option" where
  "ht_alloc_vector k ht s =
     (let (ofs, v) = vmallocator_alloc_aligned k (ht_data ht) s
      in if ofs = ALLOC_FAILED then None
         else Some (u32 ofs, ht\<lparr>ht_data := v, ht_ents := zero_entries (ht_ents ht) ofs s\<rparr>))"

section \<open>Initialisation\<close>

function hashtable_init_slots ::
    "kernel \<Rightarrow> nat \<Rightarrow> nat \<Rightarrow> nat \<Rightarrow> hashtable \<Rightarrow> hashtable option" where
  "hashtable_init_slots k s num_slots capacity ht =
     (if s < num_slots then
        (case ht_alloc_vector k ht (capacity * HT_ENTRY_SIZE) of
           None \<Rightarrow> None
         | Some (ofs, ht) \<Rightarrow>
             hashtable_init_slots k (s + 1) num_slots (u32 (capacity * 2))
               (ht\<lparr>ht_slots := (ht_slots ht)[s := ofs]\<rparr>))
      else Some ht)"
  by pat_completeness auto
termination
  by (relation "measure (\<lambda>(k, s, num_slots, capacity, ht). num_slots - s)") auto

declare hashtable_init_slots.simps [simp del]

definition hashtable_init_fresh :: "kernel \<Rightarrow> hashtable \<Rightarrow> nat \<Rightarrow> (int \<times> hashtable) option" where
  "hashtable_init_fresh k ht initial_size =
     (let sz = HT_HEADER_SIZE + HASHTABLE_INITIAL_SIZE * HT_ENTRY_SIZE;
          (ofs, v) = vmallocator_alloc k (ht_data ht) sz
      in if ofs = ALLOC_FAILED then None
         else
           (let ht = ht\<lparr>ht_data := v, ht_ents := zero_entries (ht_ents ht) ofs sz,
                        ht_free_list := 0, ht_slots := (replicate 32 0)[0 := HT_HEADER_SIZE],
                        ht_size := 0, ht_mask := HASHTABLE_INITIAL_SIZE - 1\<rparr>
            in if initial_size > HASHTABLE_INITIAL_SIZE then
                 (let initial_size = u32 (next_p2 initial_size * 2);
                      ht = ht\<lparr>ht_mask := u32 (initial_size + (2 ^ 32 - 1))\<rparr>;
                      num_slots = ilog2 initial_size - HASHTABLE_INITIAL_SIZE_BITS + 1
                  in case hashtable_init_slots k 1 num_slots HASHTABLE_INITIAL_SIZE ht of
                       None \<Rightarrow> None
                     | Some ht \<Rightarrow> Some (0, ht))
               else Some (0, ht)))"

definition hashtable_init :: "kernel \<Rightarrow> hashtable \<Rightarrow> nat \<Rightarrow> (int \<times> hashtable) option" where
  "hashtable_init k ht initial_size =
     (let (res, v) = vmallocator_init k (ht_data ht); ht = ht\<lparr>ht_data := v\<rparr>
      in if res < 0 then Some (-1, ht) else hashtable_init_fresh k ht initial_size)"

section \<open>Growing\<close>

definition hashtable_move_buckets_range ::
    "hashtable \<Rightarrow> nat \<Rightarrow> nat \<Rightarrow> nat \<Rightarrow> hashtable option" where
  "hashtable_move_buckets_range ht new_mask begin_b end_b =
     oa_move_range ht_get ht_put new_mask begin_b end_b ht"

definition hashtable_grow :: "kernel \<Rightarrow> hashtable \<Rightarrow> hashtable option" where
  "hashtable_grow k ht =
     (let capacity = u32 (ht_mask ht + 1)
      in case ht_alloc_vector k ht (capacity * HT_ENTRY_SIZE) of
           None \<Rightarrow> None
         | Some (ofs, ht) \<Rightarrow>
             (let il2 = ilog2 capacity;
                  ht = ht\<lparr>ht_slots := (ht_slots ht)[il2 - HASHTABLE_INITIAL_SIZE_BITS + 1 := ofs]\<rparr>;
                  new_mask = u32 (u32 (capacity * 2) + (2 ^ 32 - 1))
              in case oa_first_free ht_get ht 0 of
                   None \<Rightarrow> None
                 | Some b \<Rightarrow>
                     (case hashtable_move_buckets_range ht new_mask b capacity of
                        None \<Rightarrow> None
                      | Some ht \<Rightarrow>
                          (case hashtable_move_buckets_range ht new_mask 0 b of
                             None \<Rightarrow> None
                           | Some ht \<Rightarrow> Some (ht\<lparr>ht_mask := new_mask\<rparr>)))))"

definition hashtable_check_resize :: "kernel \<Rightarrow> hashtable \<Rightarrow> hashtable option" where
  "hashtable_check_resize k ht =
     (if ht_size ht > ht_mask ht div 2 then hashtable_grow k ht else Some ht)"

section \<open>Records\<close>

definition ht_set_rec :: "hashtable \<Rightarrow> nat \<Rightarrow> hrec \<Rightarrow> hashtable" where
  "ht_set_rec ht ofs r = ht\<lparr>ht_recs := (ht_recs ht)(ofs := r)\<rparr>"

text \<open>\<open>prev\<close> is the record whose next reference leads to \<open>rec_ofs\<close>, or \<open>None\<close> for the list head.\<close>

partial_function (option) hashtable_freelist_loop ::
    "hashtable \<Rightarrow> nat \<Rightarrow> nat option \<Rightarrow> nat \<Rightarrow> (nat \<times> hashtable) option" where
  "hashtable_freelist_loop ht sz prev rec_ofs =
     (if 0 < rec_ofs then
        (if r_w1 (ht_recs ht rec_ofs) = sz then
           Some (rec_ofs,
             (case prev of
                None \<Rightarrow> ht\<lparr>ht_free_list := r_w0 (ht_recs ht rec_ofs)\<rparr>
              | Some p \<Rightarrow> ht_set_rec ht p ((ht_recs ht p)\<lparr>r_w0 := r_w0 (ht_recs ht rec_ofs)\<rparr>)))
         else hashtable_freelist_loop ht sz (Some rec_ofs) (r_w0 (ht_recs ht rec_ofs)))
      else Some (0, ht))"

definition hashtable_alloc_from_freelist ::
    "hashtable \<Rightarrow> nat \<Rightarrow> nat \<Rightarrow> (nat \<times> hashtable) option" where
  "hashtable_alloc_from_freelist ht key_size val_size =
     hashtable_freelist_loop ht (u32 (u32 key_size + u32 val_size)) None (ht_free_list ht)"

definition hashtable_alloc_rec ::
    "kernel \<Rightarrow> hashtable \<Rightarrow> nat \<Rightarrow> nat \<Rightarrow> nat \<Rightarrow> (nat \<times> hashtable) option" where
  "hashtable_alloc_rec k ht b key_len val_len =
     (case hashtable_alloc_from_freelist ht key_len val_len of
        None \<Rightarrow> None
      | Some (ofs, ht) \<Rightarrow>
          if ofs = 0 then
            (let ht = ht_put ht b ((ht_get ht b)\<lparr>e_rec := u32 (wlocpos (ht_data ht))\<rparr>);
                 (ofs, v) = vmallocator_alloc k (ht_data ht) (HASHTABLE_REC_SIZE + key_len + val_len)
             in if ofs = ALLOC_FAILED then None else Some (u32 ofs, ht\<lparr>ht_data := v\<rparr>))
          else Some (ofs, ht_put ht b ((ht_get ht b)\<lparr>e_rec := ofs\<rparr>)))"

definition rec_key_eq :: "hashtable \<Rightarrow> byte list \<Rightarrow> nat \<Rightarrow> bool" where
  "rec_key_eq ht key ofs \<longleftrightarrow>
     r_w0 (ht_recs ht ofs) = length key \<and> mem_read (r_data (ht_recs ht ofs)) 0 (length key) = key"

text \<open>\<open>img\<close> is the table image the file holds; truncation leaves an image of zeros.\<close>

definition hashtable_open ::
    "kernel \<Rightarrow> hashtable \<Rightarrow> hashtable \<Rightarrow> nat \<Rightarrow> int \<Rightarrow> nat option \<Rightarrow> bool \<Rightarrow> bool \<Rightarrow>
     (int \<times> hashtable) option" where
  "hashtable_open k img ht initial_size fd st wr tr =
     (let (res, v) = vmallocator_open k (ht_data ht) fd st wr tr
      in if res < 0 then Some (-1, ht\<lparr>ht_data := v\<rparr>)
         else
           (let ht = img\<lparr>ht_data := v\<rparr>;
                ht = (if tr then ht\<lparr>ht_mask := 0, ht_size := 0, ht_free_list := 0\<rparr> else ht)
            in if ht_mask ht = 0 then hashtable_init_fresh k ht initial_size else Some (0, ht)))"

definition hashtable_create ::
    "kernel \<Rightarrow> hashtable \<Rightarrow> hashtable \<Rightarrow> nat \<Rightarrow> int \<Rightarrow> nat option \<Rightarrow> (int \<times> hashtable) option" where
  "hashtable_create k img ht initial_size fd st = hashtable_open k img ht initial_size fd st True True"

section \<open>Operations\<close>

definition ht_new_rec ::
    "kernel \<Rightarrow> hashtable \<Rightarrow> nat \<Rightarrow> nat \<Rightarrow> byte list \<Rightarrow> nat \<Rightarrow> byte list \<Rightarrow> (nat \<times> hashtable) option" where
  "ht_new_rec k ht b hc key val_len val =
     (let ht = ht_put ht b ((ht_get ht b)\<lparr>e_hashcode := hc\<rparr>)
      in case hashtable_alloc_rec k ht b (length key) val_len of
           None \<Rightarrow> None
         | Some (ofs, ht) \<Rightarrow>
             (let r = ht_recs ht ofs;
                  data = mem_copy (mem_copy (r_data r) 0 key) (length key) val;
                  r = r\<lparr>r_w0 := u32 (length key), r_w1 := u32 val_len, r_data := data\<rparr>
              in Some (ofs, (ht_set_rec ht ofs r)\<lparr>ht_size := u32 (ht_size ht + 1)\<rparr>)))"

definition hashtable_insert ::
    "kernel \<Rightarrow> hashtable \<Rightarrow> byte list \<Rightarrow> byte list \<Rightarrow> (nat \<times> hashtable) option" where
  "hashtable_insert k ht key val =
     (case hashtable_check_resize k ht of
        None \<Rightarrow> None
      | Some ht \<Rightarrow>
          (let hc = hashcode key
           in case probe (\<lambda>b. e_rec (ht_get ht b) = 0) (ht_mask ht) (hc AND ht_mask ht) of
                None \<Rightarrow> None
              | Some b \<Rightarrow> ht_new_rec k ht b hc key (length val) val))"

definition hashtable_insert_alloc ::
    "kernel \<Rightarrow> hashtable \<Rightarrow> byte list \<Rightarrow> nat \<Rightarrow> (nat \<times> hashtable) option" where
  "hashtable_insert_alloc k ht key val_len =
     (case hashtable_check_resize k ht of
        None \<Rightarrow> None
      | Some ht \<Rightarrow>
          (let hc = hashcode key
           in case probe (\<lambda>b. e_rec (ht_get ht b) = 0) (ht_mask ht) (hc AND ht_mask ht) of
                None \<Rightarrow> None
              | Some b \<Rightarrow> ht_new_rec k ht b hc key val_len []))"

definition ht_search :: "hashtable \<Rightarrow> byte list \<Rightarrow> nat option" where
  "ht_search ht key =
     (let hc = hashcode key
      in probe (\<lambda>b. e_rec (ht_get ht b) = 0 \<or>
                   e_hashcode (ht_get ht b) = hc \<and> rec_key_eq ht key (e_rec (ht_get ht b)))
           (ht_mask ht) (hc AND ht_mask ht))"

partial_function (option) hashtable_lookup_insert ::
    "kernel \<Rightarrow> hashtable \<Rightarrow> byte list \<Rightarrow> byte list \<Rightarrow> (nat \<times> hashtable) option" where
  "hashtable_lookup_insert k ht key val =
     (case ht_search ht key of
        None \<Rightarrow> None
      | Some b \<Rightarrow>
          if e_rec (ht_get ht b) = 0 then
            (if ht_size ht > ht_mask ht div 2 then
               Option.bind (hashtable_grow k ht) (\<lambda>ht. hashtable_lookup_insert k ht key val)
             else ht_new_rec k ht b (hashcode key) key (length val) val)
          else Some (e_rec (ht_get ht b), ht))"

definition hashtable_lookup :: "hashtable \<Rightarrow> byte list \<Rightarrow> nat option" where
  "hashtable_lookup ht key =
     (case ht_search ht key of
        None \<Rightarrow> None
      | Some b \<Rightarrow> Some (e_rec (ht_get ht b)))"

definition hashtable_fix_chain_down :: "hashtable \<Rightarrow> nat \<Rightarrow> nat \<Rightarrow> hashtable option" where
  "hashtable_fix_chain_down ht msk bucket = oa_fix_chain_down ht_get ht_put msk bucket ht"

definition hashtable_remove :: "hashtable \<Rightarrow> byte list \<Rightarrow> (nat \<times> hashtable) option" where
  "hashtable_remove ht key =
     (case ht_search ht key of
        None \<Rightarrow> None
      | Some b \<Rightarrow>
          (let ofs = e_rec (ht_get ht b)
           in if ofs = 0 then Some (0, ht)
              else
                (let r = ht_recs ht ofs;
                     r = r\<lparr>r_w1 := u32 (r_w0 r + r_w1 r)\<rparr>;
                     r = r\<lparr>r_w0 := ht_free_list ht\<rparr>;
                     ht = (ht_set_rec ht ofs r)\<lparr>ht_free_list := ofs\<rparr>;
                     ht = ht_put ht b ((ht_get ht b)\<lparr>e_rec := 0\<rparr>);
                     ht = ht\<lparr>ht_size := u32 (ht_size ht + (2 ^ 32 - 1))\<rparr>
                 in case hashtable_fix_chain_down ht (ht_mask ht) (nxt (ht_mask ht) b) of
                      None \<Rightarrow> None
                    | Some ht \<Rightarrow> Some (ofs, ht))))"

text \<open>The callback's verdicts are the function \<open>func\<close>; the records it was called with are returned
  with the result.\<close>

fun ht_foreach_vect :: "hashtable \<Rightarrow> (nat \<Rightarrow> int) \<Rightarrow> nat \<Rightarrow> nat \<Rightarrow> bool \<times> nat list" where
  "ht_foreach_vect ht func hte 0 = (True, [])"
| "ht_foreach_vect ht func hte (Suc n) =
     (let r = e_rec (ht_ents ht hte)
      in if 0 < r then
           (if func r < 0 then (False, [r])
            else (let (ok, rs) = ht_foreach_vect ht func (hte + HT_ENTRY_SIZE) n in (ok, r # rs)))
         else ht_foreach_vect ht func (hte + HT_ENTRY_SIZE) n)"

function ht_foreach_slots ::
    "hashtable \<Rightarrow> (nat \<Rightarrow> int) \<Rightarrow> nat \<Rightarrow> nat \<Rightarrow> nat \<Rightarrow> int \<times> nat list" where
  "ht_foreach_slots ht func s num_slots vect_size =
     (if s < num_slots then
        (let (ok, rs) = ht_foreach_vect ht func (ht_slots ht ! s) vect_size
         in if \<not> ok then (-1, rs)
            else
              (let (res, rs') = ht_foreach_slots ht func (s + 1) num_slots
                                  (if s \<noteq> 0 then u32 (vect_size * 2) else vect_size)
               in (res, rs @ rs')))
      else (0, []))"
  by pat_completeness auto
termination
  by (relation "measure (\<lambda>(ht, func, s, num_slots, vect_size). num_slots - s)") auto

declare ht_foreach_slots.simps [simp del]

definition hashtable_foreach :: "hashtable \<Rightarrow> (nat \<Rightarrow> int) \<Rightarrow> int \<times> nat list" where
  "hashtable_foreach ht func =
     (let capacity = u32 (ht_mask ht + 1);
          num_slots = ilog2 capacity - HASHTABLE_INITIAL_SIZE_BITS + 1
      in ht_foreach_slots ht func 0 num_slots HASHTABLE_INITIAL_SIZE)"

definition hashtable_get_key_size :: "hashtable \<Rightarrow> nat \<Rightarrow> nat" where
  "hashtable_get_key_size ht ofs = r_w0 (ht_recs ht ofs)"

definition hashtable_get_key :: "hashtable \<Rightarrow> nat \<Rightarrow> byte list" where
  "hashtable_get_key ht ofs = mem_read (r_data (ht_recs ht ofs)) 0 (hashtable_get_key_size ht ofs)"

definition hashtable_get_val_size :: "hashtable \<Rightarrow> nat \<Rightarrow> nat" where
  "hashtable_get_val_size ht ofs = r_w1 (ht_recs ht ofs)"

definition hashtable_get_val :: "hashtable \<Rightarrow> nat \<Rightarrow> byte list" where
  "hashtable_get_val ht ofs =
     mem_read (r_data (ht_recs ht ofs)) (hashtable_get_key_size ht ofs) (hashtable_get_val_size ht ofs)"

definition hashtable_is_initialized :: "hashtable \<Rightarrow> bool" where
  "hashtable_is_initialized ht \<longleftrightarrow> wlocpos (ht_data ht) > 0"

definition hashtable_get_size :: "hashtable \<Rightarrow> nat" where
  "hashtable_get_size ht = (if hashtable_is_initialized ht then ht_size ht else 0)"

definition hashtable_lookup_str :: "hashtable \<Rightarrow> byte list \<Rightarrow> byte list option \<Rightarrow> byte list option option" where
  "hashtable_lookup_str ht key default_val =
     map_option (\<lambda>ofs. if ofs \<noteq> 0 then Some (hashtable_get_val ht ofs) else default_val) (hashtable_lookup ht key)"

definition hashtable_free :: "hashtable \<Rightarrow> hashtable" where
  "hashtable_free ht = ht\<lparr>ht_data := vmallocator_free (ht_data ht)\<rparr>"

definition hashtable_close :: "kernel \<Rightarrow> hashtable \<Rightarrow> int \<times> nat option \<times> hashtable" where
  "hashtable_close k ht =
     (case vmallocator_close k (ht_data ht) of (res, len, v) \<Rightarrow> (res, len, ht\<lparr>ht_data := v\<rparr>))"

definition hashtable_get_size_bytes :: "hashtable \<Rightarrow> nat" where
  "hashtable_get_size_bytes ht = vmallocator_wlocpos (ht_data ht)"

definition hashtable_get_rec :: "hashtable \<Rightarrow> nat \<Rightarrow> byte list \<times> byte list" where
  "hashtable_get_rec ht ofs = (hashtable_get_key ht ofs, hashtable_get_val ht ofs)"

section \<open>Bucket addresses\<close>

text \<open>Bucket \<open>b\<close> is element \<open>vidx b\<close> of vector \<open>vslot b\<close>; the vectors follow one another in the
  segment.\<close>

definition vslot :: "nat \<Rightarrow> nat" where
  "vslot b = (if b < HASHTABLE_INITIAL_SIZE then 0 else ilog2 b - HASHTABLE_INITIAL_SIZE_BITS + 1)"

definition vidx :: "nat \<Rightarrow> nat" where
  "vidx b = (if b < HASHTABLE_INITIAL_SIZE then b else b - 2 ^ ilog2 b)"

definition vsize :: "nat \<Rightarrow> nat" where
  "vsize s = (if s = 0 then 32 else 2 ^ (s + 4))"

definition ht_valid :: "hashtable \<Rightarrow> nat \<Rightarrow> bool" where
  "ht_valid ht b \<longleftrightarrow> (\<forall>s<vslot b. ht_slots ht ! s + HT_ENTRY_SIZE * vsize s \<le> ht_slots ht ! Suc s)"

definition ht_frame :: "hashtable \<Rightarrow> hashtable" where
  "ht_frame ht = ht\<lparr>ht_ents := (\<lambda>_. \<lparr>e_hashcode = 0, e_rec = 0\<rparr>)\<rparr>"

lemma hashtable_bucket_eq: "hashtable_bucket ht b = ht_slots ht ! vslot b + HT_ENTRY_SIZE * vidx b"
  by (simp add: hashtable_bucket_def vslot_def vidx_def Let_def)

lemma ilog2_ge5: "32 \<le> b \<Longrightarrow> 5 \<le> ilog2 b"
proof -
  assume "32 \<le> b"
  then have "2 ^ 5 < (2 :: nat) ^ Suc (ilog2 b)"
    using ilog2_lt[of b] by simp
  then have "5 < Suc (ilog2 b)"
    by (simp only: power_strict_increasing_iff one_less_numeral_iff semiring_norm)
  then show ?thesis
    by simp
qed

lemma bits_simps [simp]: "HASHTABLE_INITIAL_SIZE = 32" "HASHTABLE_INITIAL_SIZE_BITS = 5"
  "HT_ENTRY_SIZE = 8"
  by (simp_all add: HASHTABLE_INITIAL_SIZE_def HASHTABLE_INITIAL_SIZE_BITS_def HT_ENTRY_SIZE_def)

lemma vidx_lt: "vidx b < vsize (vslot b)"
proof (cases "b < 32")
  case False
  have "(2 :: nat) ^ ilog2 b = 2 ^ (5 + (ilog2 b - 5))"
    using ilog2_ge5[of b] False by simp
  then have "(2 :: nat) ^ ilog2 b = 32 * 2 ^ (ilog2 b - 5)"
    by (simp only: power_add) simp
  then show ?thesis
    using ilog2_lt[of b] False by (auto simp: vidx_def vsize_def vslot_def power_add)
qed (simp add: vidx_def vsize_def vslot_def)

lemma vslot_vidx_inj: "vslot i = vslot j \<Longrightarrow> vidx i = vidx j \<Longrightarrow> i = j"
proof -
  assume a: "vslot i = vslot j" "vidx i = vidx j"
  show ?thesis
  proof (cases "i < 32 \<or> j < 32")
    case True
    then show ?thesis
      using a ilog2_ge5[of i] ilog2_ge5[of j] by (auto simp: vslot_def vidx_def split: if_splits)
  next
    case False
    then have "ilog2 i = ilog2 j"
      using a(1) ilog2_ge5[of i] ilog2_ge5[of j] by (auto simp: vslot_def)
    then show ?thesis
      using a(2) False ilog2_le[of i] ilog2_le[of j] by (simp add: vidx_def)
  qed
qed

lemma slots_order:
  assumes "ht_valid ht b" "s < t" "t \<le> vslot b"
  shows "ht_slots ht ! s + 8 * vsize s \<le> ht_slots ht ! t"
  using assms(2,3)
proof (induction t)
  case (Suc t)
  have "ht_slots ht ! t + 8 * vsize t \<le> ht_slots ht ! Suc t"
    using assms(1) Suc.prems by (simp add: ht_valid_def)
  then show ?case
    using Suc by (cases "s = t") auto
qed simp

lemma bucket_lt:
  assumes "ht_valid ht j" "vslot i < vslot j"
  shows "hashtable_bucket ht i < hashtable_bucket ht j"
  using slots_order[OF assms order_refl] vidx_lt[of i] by (simp add: hashtable_bucket_eq)

lemma hashtable_bucket_inj:
  assumes "ht_valid ht i" "ht_valid ht j" "hashtable_bucket ht i = hashtable_bucket ht j"
  shows "i = j"
proof -
  have "vslot i = vslot j"
    using bucket_lt[OF assms(1), of j] bucket_lt[OF assms(2), of i] assms(3)
    by (metis less_irrefl linorder_neqE_nat)
  moreover from this have "vidx i = vidx j"
    using assms(3) by (simp add: hashtable_bucket_eq)
  ultimately show ?thesis
    by (rule vslot_vidx_inj)
qed

lemma hashtable_bucket_put [simp]: "hashtable_bucket (ht_put ht i x) j = hashtable_bucket ht j"
  by (simp add: ht_put_def hashtable_bucket_def)

interpretation htb: bucket_array ht_get ht_put ht_valid ht_frame
proof unfold_locales
  fix ht i j x
  show "ht_get (ht_put ht i x) j = (if j = i then x else ht_get ht j)" if "ht_valid ht i" "ht_valid ht j"
    using hashtable_bucket_inj[OF that(2,1)] by (simp add: ht_get_def) (simp add: ht_put_def)
  show "ht_valid (ht_put ht i x) j \<longleftrightarrow> ht_valid ht j"
    by (simp add: ht_valid_def ht_put_def)
  show "ht_frame (ht_put ht i x) = ht_frame ht"
    by (simp add: ht_frame_def ht_put_def)
qed

lemma vslot_mono: "i \<le> j \<Longrightarrow> vslot i \<le> vslot j"
proof -
  assume ij: "i \<le> j"
  show ?thesis
  proof (cases "i < 32")
    case False
    have "2 ^ ilog2 i < (2 :: nat) ^ Suc (ilog2 j)"
      using ilog2_le[of i] ilog2_lt[of j] ij False by simp
    then have "ilog2 i < Suc (ilog2 j)"
      by (simp only: power_strict_increasing_iff one_less_numeral_iff semiring_norm)
    then show ?thesis
      using False ij by (simp add: vslot_def)
  qed (simp add: vslot_def)
qed

lemma ht_valid_mono: "ht_valid ht j \<Longrightarrow> i \<le> j \<Longrightarrow> ht_valid ht i"
  using vslot_mono[of i j] by (auto simp: ht_valid_def)

lemma vslot_pow: "5 \<le> n \<Longrightarrow> vslot (2 ^ n) = n - 4"
  using power_increasing[of 5 n "2 :: nat"] by (simp add: vslot_def ilog2_pow)

lemma vslot_pred_pow:
  assumes "5 \<le> n"
  shows "vslot (2 ^ n - 1) = n - 5"
proof (cases "n = 5")
  case False
  have p: "(2 :: nat) ^ n = 2 * 2 ^ (n - 1)" and q: "(32 :: nat) \<le> 2 ^ (n - 1)"
    using assms False power_increasing[of 5 "n - 1" "2 :: nat"]
    by (simp_all flip: power_Suc)
  have "ilog2 (2 ^ n - 1) = n - 1"
    unfolding p by (rule ilog2_unique) (use q in linarith)+
  moreover have "\<not> 2 ^ n - 1 < (32 :: nat)"
    using p q by linarith
  ultimately show ?thesis
    using False assms by (simp add: vslot_def)
qed (simp add: vslot_def)

section \<open>The invariant\<close>

fun free_chain :: "(nat \<Rightarrow> hrec) \<Rightarrow> nat \<Rightarrow> nat list \<Rightarrow> bool" where
  "free_chain R r [] \<longleftrightarrow> r = 0"
| "free_chain R r (x # xs) \<longleftrightarrow> r = x \<and> x \<noteq> 0 \<and> free_chain R (r_w0 (R x)) xs"

definition ht_bag :: "hashtable \<Rightarrow> (nat \<times> nat) multiset" where
  "ht_bag ht = bag (ht_get ht) (ht_mask ht)"

definition ht_layout :: "hashtable \<Rightarrow> nat \<Rightarrow> bool" where
  "ht_layout ht n \<longleftrightarrow>
     5 \<le> n \<and> n \<le> 31 \<and> ht_mask ht = 2 ^ n - 1 \<and> length (ht_slots ht) = 32 \<and>
     ht_valid ht (ht_mask ht) \<and> ht_slots ht ! (n - 5) + 8 * vsize (n - 5) \<le> wlocpos (ht_data ht) \<and>
     va_ok (ht_data ht) \<and> wlocpos (ht_data ht) < 2 ^ 32"

text \<open>Live records are distinct, lie below the write position, carry the hash code of their key
  and have distinct keys; the free list is a finite chain of other records.\<close>

definition recs_ok :: "(nat \<times> nat) multiset \<Rightarrow> (nat \<Rightarrow> byte list) \<Rightarrow> nat \<Rightarrow> nat list \<Rightarrow> bool" where
  "recs_ok B key wl fs \<longleftrightarrow>
     (\<forall>r. count (image_mset snd B) r \<le> 1) \<and>
     (\<forall>h r. (h, r) \<in># B \<longrightarrow> r < wl \<and> h = hashcode (key r)) \<and>
     inj_on key (snd ` set_mset B) \<and>
     distinct fs \<and> (\<forall>r\<in>set fs. r < wl \<and> r \<notin> snd ` set_mset B)"

definition ht_ok :: "hashtable \<Rightarrow> bool" where
  "ht_ok ht \<longleftrightarrow>
     (\<exists>n. ht_layout ht n \<and> probe_ok (ht_get ht) (ht_mask ht) \<and> ht_size ht = size (ht_bag ht) \<and>
        2 * ht_size ht \<le> ht_mask ht + 1) \<and>
     (\<exists>fs. recs_ok (ht_bag ht) (hashtable_get_key ht) (wlocpos (ht_data ht)) fs \<and>
        free_chain (ht_recs ht) (ht_free_list ht) fs)"

text \<open>The mapping a table stands for: the record holding a key, found in bucket order.\<close>

definition ht_live :: "hashtable \<Rightarrow> nat list" where
  "ht_live ht = filter (\<lambda>r. r \<noteq> 0) (map (\<lambda>b. e_rec (ht_get ht b)) [0..<Suc (ht_mask ht)])"

definition ht_map :: "hashtable \<Rightarrow> byte list \<Rightarrow> nat option" where
  "ht_map ht key = find (\<lambda>r. hashtable_get_key ht r = key) (ht_live ht)"

lemma set_ht_live: "set (ht_live ht) = snd ` set_mset (ht_bag ht)"
proof -
  have "r \<in> set (ht_live ht) \<longleftrightarrow> (\<exists>h. (h, r) \<in># ht_bag ht)" for r
    unfolding ht_bag_def in_bag by (auto simp: ht_live_def occ_def less_Suc_eq_le simp del: upt_Suc)
  then show ?thesis
    by force
qed

lemma ht_map_Some:
  assumes "ht_ok ht"
  shows "ht_map ht key = Some r \<longleftrightarrow> r \<in> set (ht_live ht) \<and> hashtable_get_key ht r = key"
proof
  assume "ht_map ht key = Some r"
  then show "r \<in> set (ht_live ht) \<and> hashtable_get_key ht r = key"
    by (auto simp: ht_map_def find_Some_iff)
next
  assume a: "r \<in> set (ht_live ht) \<and> hashtable_get_key ht r = key"
  then obtain r' where r': "ht_map ht key = Some r'"
    by (cases "ht_map ht key") (auto simp: ht_map_def find_None_iff)
  then have "r' \<in> set (ht_live ht)" "hashtable_get_key ht r' = key"
    by (auto simp: ht_map_def find_Some_iff)
  moreover have "inj_on (hashtable_get_key ht) (set (ht_live ht))"
    using assms by (auto simp: ht_ok_def recs_ok_def set_ht_live)
  ultimately show "ht_map ht key = Some r"
    using a r' by (auto dest: inj_onD)
qed

lemma ht_map_None: "ht_map ht key = None \<longleftrightarrow> (\<forall>r\<in>set (ht_live ht). hashtable_get_key ht r \<noteq> key)"
  by (auto simp: ht_map_def find_None_iff)

lemma rec_key_eq_iff: "rec_key_eq ht key r \<longleftrightarrow> hashtable_get_key ht r = key"
  by (auto simp: rec_key_eq_def hashtable_get_key_def hashtable_get_key_size_def)

lemma ht_search_ok:
  assumes ok: "ht_ok ht"
  obtains b where "ht_search ht key = Some b" "b \<le> ht_mask ht"
    "\<forall>r. ht_map ht key = Some r \<longrightarrow> occ (ht_get ht) b \<and> e_rec (ht_get ht b) = r"
    "ht_map ht key = None \<longrightarrow> \<not> occ (ht_get ht) b \<and>
       (\<forall>j\<le>ht_mask ht. cyc_between (hashcode key AND ht_mask ht) j b \<and> j \<noteq> b \<longrightarrow> occ (ht_get ht) j)"
proof -
  obtain n where n: "ht_layout ht n" and pok: "probe_ok (ht_get ht) (ht_mask ht)"
      and sz: "size (ht_bag ht) \<le> ht_mask ht"
    using ok by (force simp: ht_ok_def ht_layout_def)
  have m: "ht_mask ht = 2 ^ n - 1"
    using n by (simp add: ht_layout_def)
  have hash: "h = hashcode key" if "(h, r) \<in># bag (ht_get ht) (ht_mask ht)" "rec_key_eq ht key r" for h r
    using ok that unfolding ht_ok_def recs_ok_def rec_key_eq_iff ht_bag_def by blast
  obtain b where b: "ht_search ht key = Some b" "b \<le> ht_mask ht"
      "occ (ht_get ht) b \<longrightarrow> e_hashcode (ht_get ht b) = hashcode key \<and> rec_key_eq ht key (e_rec (ht_get ht b))"
      "\<not> occ (ht_get ht) b \<longrightarrow> (\<forall>h r. (h, r) \<in># bag (ht_get ht) (ht_mask ht) \<longrightarrow> \<not> rec_key_eq ht key r) \<and>
       (\<forall>j\<le>ht_mask ht. cyc_between (hashcode key AND ht_mask ht) j b \<and> j \<noteq> b \<longrightarrow> occ (ht_get ht) j)"
    unfolding ht_search_def Let_def
    by (rule probe_search[OF m pok sz[unfolded ht_bag_def] hash])
  have live: "e_rec (ht_get ht b) \<in> set (ht_live ht)" if "occ (ht_get ht) b"
    using that b(2) by (auto simp: ht_live_def occ_def less_Suc_eq_le simp del: upt_Suc)
  have "occ (ht_get ht) b \<Longrightarrow> ht_map ht key = Some (e_rec (ht_get ht b))"
    using b(3) live ht_map_Some[OF ok] by (simp add: rec_key_eq_iff)
  moreover have "\<not> occ (ht_get ht) b \<Longrightarrow> ht_map ht key = None"
    using b(4) by (force simp: ht_map_None set_ht_live ht_bag_def rec_key_eq_iff)
  ultimately show ?thesis
    using that[OF b(1,2)] b(4) by fastforce
qed

section \<open>Growing keeps the table\<close>

lemma vslot_upper: "5 \<le> n \<Longrightarrow> 2 ^ n \<le> b \<Longrightarrow> b < 2 * 2 ^ n \<Longrightarrow> vslot b = n - 4 \<and> vidx b = b - 2 ^ n"
  using ilog2_unique[of n b] power_increasing[of 5 n "2 :: nat"] by (simp add: vslot_def vidx_def)

lemma bucket_below_top:
  assumes "ht_layout ht n" "b < 2 ^ n"
  shows "hashtable_bucket ht b + 8 \<le> wlocpos (ht_data ht)" "vslot b \<le> n - 5"
proof -
  have n: "5 \<le> n" "ht_mask ht = 2 ^ n - 1" "ht_valid ht (2 ^ n - 1)"
      "ht_slots ht ! (n - 5) + 8 * vsize (n - 5) \<le> wlocpos (ht_data ht)"
    using assms(1) by (auto simp: ht_layout_def)
  show le: "vslot b \<le> n - 5"
    using vslot_mono[of b "2 ^ n - 1"] vslot_pred_pow[OF n(1)] assms(2) by simp
  have "ht_slots ht ! vslot b + 8 * vsize (vslot b) \<le> wlocpos (ht_data ht)"
    using slots_order[OF n(3), of "vslot b" "n - 5"] vslot_pred_pow[OF n(1)] le n(4)
    by (cases "vslot b = n - 5") auto
  then show "hashtable_bucket ht b + 8 \<le> wlocpos (ht_data ht)"
    using vidx_lt[of b] by (simp add: hashtable_bucket_eq)
qed

lemma add_vector:
  assumes lay: "ht_layout ht n" and ofs: "wlocpos (ht_data ht) \<le> ofs" and n: "n < 31"
    and ht1: "ht1 = ht\<lparr>ht_data := v, ht_ents := zero_entries (ht_ents ht) ofs (2 ^ n * 8),
      ht_slots := (ht_slots ht)[n - 4 := ofs]\<rparr>"
  shows "ht_valid ht1 (2 * 2 ^ n - 1)" "\<And>b. b < 2 ^ n \<Longrightarrow> ht_get ht1 b = ht_get ht b"
    "\<And>b. 2 ^ n \<le> b \<Longrightarrow> b \<le> 2 * 2 ^ n - 1 \<Longrightarrow> \<not> occ (ht_get ht1) b"
proof -
  have l: "5 \<le> n" "length (ht_slots ht) = 32" "ht_mask ht = 2 ^ n - 1" "ht_valid ht (2 ^ n - 1)"
      "ht_slots ht ! (n - 5) + 8 * vsize (n - 5) \<le> wlocpos (ht_data ht)"
    using lay by (auto simp: ht_layout_def)
  have sl: "ht_slots ht1 ! s = (if s = n - 4 then ofs else ht_slots ht ! s)" if "s < 32" for s
    using l(1,2) n that by (simp add: ht1 nth_list_update)
  have "vslot (2 * 2 ^ n - 1) = n - 4"
    using vslot_pred_pow[of "Suc n"] l(1) by simp
  moreover have "ht_slots ht1 ! s + 8 * vsize s \<le> ht_slots ht1 ! Suc s" if "s < n - 4" for s
  proof (cases "s = n - 5")
    case True
    moreover have "Suc (n - 5) = n - 4"
      using l(1) by simp
    ultimately show ?thesis
      using sl[of s] sl[of "Suc s"] n l(1,5) ofs by simp
  next
    case False
    then have "s < vslot (2 ^ n - 1)" "Suc s \<noteq> n - 4"
      using that vslot_pred_pow[OF l(1)] l(1) by auto
    then show ?thesis
      using l(4) sl[of s] sl[of "Suc s"] n that False by (simp add: ht_valid_def)
  qed
  ultimately show "ht_valid ht1 (2 * 2 ^ n - 1)"
    by (simp add: ht_valid_def)
  show "ht_get ht1 b = ht_get ht b" if "b < 2 ^ n" for b
  proof -
    have "vslot b \<le> n - 5" "hashtable_bucket ht b < ofs"
      using bucket_below_top[OF lay that] ofs by simp_all
    moreover from this have "vslot b \<noteq> n - 4" "vslot b < 32"
      using l(1) n by auto
    then have "hashtable_bucket ht1 b = hashtable_bucket ht b"
      using sl[of "vslot b"] by (simp add: hashtable_bucket_eq)
    ultimately show ?thesis
      by (simp add: ht_get_def) (simp add: ht1 zero_entries_def)
  qed
  show "\<not> occ (ht_get ht1) b" if "2 ^ n \<le> b" "b \<le> 2 * 2 ^ n - 1" for b
  proof -
    have "b < 2 * 2 ^ n"
      using that(2) zero_less_power[of "2 :: nat" n] by linarith
    then have "hashtable_bucket ht1 b = ofs + 8 * (b - 2 ^ n)" "b - 2 ^ n < 2 ^ n"
      using vslot_upper[OF l(1) that(1)] sl[of "n - 4"] n that by (simp_all add: hashtable_bucket_eq)
    then show ?thesis
      by (simp add: occ_def ht_get_def) (simp add: ht1 zero_entries_def)
  qed
qed

lemma ht_frameD:
  assumes "ht_frame a = ht_frame b"
  shows "ht_data a = ht_data b" "ht_mask a = ht_mask b" "ht_size a = ht_size b"
    "ht_free_list a = ht_free_list b" "ht_slots a = ht_slots b" "ht_recs a = ht_recs b"
proof -
  have "f (ht_frame a) = f (ht_frame b)" for f :: "hashtable \<Rightarrow> 'x"
    using assms by simp
  from this[of ht_data] this[of ht_mask] this[of ht_size] this[of ht_free_list] this[of ht_slots]
    this[of ht_recs]
  show "ht_data a = ht_data b" "ht_mask a = ht_mask b" "ht_size a = ht_size b"
    "ht_free_list a = ht_free_list b" "ht_slots a = ht_slots b" "ht_recs a = ht_recs b"
    by (simp_all add: ht_frame_def)
qed

lemma ht_get_key_cong: "ht_recs a = ht_recs b \<Longrightarrow> hashtable_get_key a = hashtable_get_key b"
  by (simp add: fun_eq_iff hashtable_get_key_def hashtable_get_key_size_def)

lemma recs_ok_mono: "recs_ok B key w fs \<Longrightarrow> w \<le> w' \<Longrightarrow> recs_ok B key w' fs"
  unfolding recs_ok_def by (meson order_less_le_trans)

lemma ht_alloc_vector_ok:
  assumes va: "va_ok (ht_data ht)" and k: "grants k"
    and room: "wlocpos (ht_data ht) + 8 * 2 ^ n + 8 \<le> 2 ^ 32"
  obtains ofs v where "ht_alloc_vector k ht (2 ^ n * 8) =
      Some (ofs, ht\<lparr>ht_data := v, ht_ents := zero_entries (ht_ents ht) ofs (2 ^ n * 8)\<rparr>)"
    "va_ok v" "wlocpos (ht_data ht) \<le> ofs" "ofs < wlocpos (ht_data ht) + 8" "wlocpos v = ofs + 2 ^ n * 8"
proof -
  have "wlocpos (ht_data ht) + 2 ^ n * 8 + 8 \<le> 2 ^ 61"
    using room by simp
  from va this k obtain ofs v where a: "vmallocator_alloc_aligned k (ht_data ht) (2 ^ n * 8) = (ofs, v)"
      "ofs \<noteq> ALLOC_FAILED" "va_ok v" "wlocpos (ht_data ht) \<le> ofs" "ofs < wlocpos (ht_data ht) + 8"
      "wlocpos v = ofs + 2 ^ n * 8"
    by (rule aligned.new_extent)
  then show ?thesis
    using that[OF _ a(3-6)] room by (simp add: ht_alloc_vector_def u32_small)
qed

lemma pow_lt_29: "8 * 2 ^ n + 8 \<le> (2 :: nat) ^ 32 \<Longrightarrow> n < 29"
proof (rule ccontr)
  assume a: "8 * 2 ^ n + 8 \<le> (2 :: nat) ^ 32" "\<not> n < 29"
  then have "(2 :: nat) ^ 29 \<le> 2 ^ n"
    by (intro power_increasing) simp_all
  then show False
    using a(1) by simp
qed

lemma grow_masks:
  assumes "n < 29"
  shows "u32 (2 ^ n) = 2 ^ n" "u32 (u32 (2 ^ n * 2) + (2 ^ 32 - 1)) = 2 * 2 ^ n - 1"
proof -
  have p: "2 * 2 ^ n < (2 :: nat) ^ 31"
    using assms power_strict_increasing[of "Suc n" 31 "2 :: nat"] by simp
  then show "u32 (2 ^ n) = 2 ^ n"
    by (simp add: u32_small)
  have "u32 (2 ^ n * 2) + (2 ^ 32 - 1) = (2 * 2 ^ n - 1) + 2 ^ 32"
    using p by (simp add: u32_small)
  moreover have "(2 * 2 ^ n - 1) mod 2 ^ 32 = (2 * 2 ^ n - 1 :: nat)"
    using p by simp
  ultimately show "u32 (u32 (2 ^ n * 2) + (2 ^ 32 - 1)) = 2 * 2 ^ n - 1"
    unfolding u32_def[of "_ + _"] by (simp only: mod_add_self2)
qed

lemma probe_ok_cong: "(\<And>i. i \<le> m \<Longrightarrow> T i = T' i) \<Longrightarrow> probe_ok T m \<longleftrightarrow> probe_ok T' m"
  unfolding probe_ok_def occ_def home_def by simp

text \<open>The redistribution that follows the allocation of the new vector.\<close>

lemma redistribute_ok:
  assumes lay: "ht_layout ht n" and pok: "probe_ok (ht_get ht) (ht_mask ht)"
    and sz: "size (ht_bag ht) \<le> ht_mask ht" and n: "n < 31" and ofs: "wlocpos (ht_data ht) \<le> ofs"
    and ht1: "ht1 = ht\<lparr>ht_data := v, ht_ents := zero_entries (ht_ents ht) ofs (2 ^ n * 8),
      ht_slots := (ht_slots ht)[n - 4 := ofs]\<rparr>"
  obtains b s1 s2 where "oa_first_free ht_get ht1 0 = Some b"
    "oa_move_range ht_get ht_put (2 * 2 ^ n - 1) b (2 ^ n) ht1 = Some s1"
    "oa_move_range ht_get ht_put (2 * 2 ^ n - 1) 0 b s1 = Some s2"
    "probe_ok (ht_get s2) (2 * 2 ^ n - 1)" "bag (ht_get s2) (2 * 2 ^ n - 1) = ht_bag ht"
    "ht_frame s2 = ht_frame ht1" "ht_valid s2 (2 * 2 ^ n - 1)"
proof -
  have m: "ht_mask ht = 2 ^ n - 1" "(0 :: nat) < 2 ^ n"
    using lay by (auto simp: ht_layout_def)
  note vec = add_vector[OF lay ofs n ht1]
  have valid1: "ht_valid ht1 i" if "i \<le> 2 * 2 ^ n - 1" for i
    using vec(1) that by (rule ht_valid_mono)
  have get1: "ht_get ht1 i = ht_get ht i" if "i \<le> 2 ^ n - 1" for i
    using vec(2)[of i] that m(2) by linarith
  obtain e where e: "e \<le> ht_mask ht" "\<not> occ (ht_get ht) e"
    using sz unfolding ht_bag_def by (rule ex_empty)
  obtain b where b: "oa_first_free ht_get ht1 0 = Some b" "b \<le> e" "\<not> occ (ht_get ht1) b"
    using first_free_ok[of 0 e ht_get ht1] get1[of e] e m(1) by (auto simp: occ_def)
  have bc: "b < 2 ^ n"
    using b(2) e(1) m by linarith
  have pok1: "probe_ok (ht_get ht1) (2 ^ n - 1)"
    using pok probe_ok_cong[of "2 ^ n - 1" "ht_get ht1" "ht_get ht", OF get1] m(1) by simp
  obtain s1 s2 where s: "oa_move_range ht_get ht_put (2 * 2 ^ n - 1) b (2 ^ n) ht1 = Some s1"
      "oa_move_range ht_get ht_put (2 * 2 ^ n - 1) 0 b s1 = Some s2"
      "probe_ok (ht_get s2) (2 * 2 ^ n - 1)"
      "bag (ht_get s2) (2 * 2 ^ n - 1) = bag (ht_get ht1) (2 * 2 ^ n - 1)" "ht_frame s2 = ht_frame ht1"
      "\<forall>i. ht_valid s2 i \<longleftrightarrow> ht_valid ht1 i"
    by (rule htb.double_ok[OF refl refl valid1 bc b(3) pok1 vec(3)])
  have "e_rec (ht_get ht1 i) = 0" if "2 ^ n - 1 < i" "i \<le> 2 * 2 ^ n - 1" for i
    using vec(3)[of i] that by (simp add: occ_def)
  then have "bag (ht_get ht1) (2 * 2 ^ n - 1) = bag (ht_get ht1) (2 ^ n - 1)"
    by (intro bag_double) simp_all
  also have "\<dots> = ht_bag ht"
    unfolding ht_bag_def m(1) by (rule bag_cong) (rule get1)
  finally show ?thesis
    using that[OF b(1) s(1-3)] s(4-6) vec(1) by simp
qed

lemma hashtable_grow_ok:
  assumes ok: "ht_ok ht" and k: "grants k"
    and room: "wlocpos (ht_data ht) + 8 * (ht_mask ht + 1) + 8 < 2 ^ 32"
  obtains ht' where "hashtable_grow k ht = Some ht'" "ht_ok ht'" "ht_bag ht' = ht_bag ht"
    "ht_recs ht' = ht_recs ht" "ht_mask ht' = 2 * ht_mask ht + 1" "ht_size ht' = ht_size ht"
    "wlocpos (ht_data ht') \<le> wlocpos (ht_data ht) + 8 * (ht_mask ht + 1) + 8"
proof -
  obtain n where lay: "ht_layout ht n" and pok: "probe_ok (ht_get ht) (ht_mask ht)"
      and sz: "ht_size ht = size (ht_bag ht)" "2 * ht_size ht \<le> ht_mask ht + 1"
    using ok unfolding ht_ok_def by blast
  have m: "ht_mask ht + 1 = 2 ^ n" "5 \<le> n" "n < 29" "ht_mask ht = 2 ^ n - 1"
    using lay room pow_lt_29[of n] by (auto simp: ht_layout_def)
  have n31: "n < 31" and room': "wlocpos (ht_data ht) + 8 * 2 ^ n + 8 \<le> 2 ^ 32"
    using m(3) room unfolding m(1) by linarith+
  have fits: "size (ht_bag ht) \<le> ht_mask ht"
    using sz m(1) power_increasing[OF m(2), of "2 :: nat"] by simp
  obtain ofs v where a: "ht_alloc_vector k ht (2 ^ n * 8) =
        Some (ofs, ht\<lparr>ht_data := v, ht_ents := zero_entries (ht_ents ht) ofs (2 ^ n * 8)\<rparr>)"
      "va_ok v" "wlocpos (ht_data ht) \<le> ofs" "ofs < wlocpos (ht_data ht) + 8"
      "wlocpos v = ofs + 2 ^ n * 8"
    using lay by (elim ht_alloc_vector_ok[OF _ k room', rotated]) (simp_all add: ht_layout_def)
  obtain b s1 s2 where s: "oa_first_free ht_get (ht\<lparr>ht_data := v,
        ht_ents := zero_entries (ht_ents ht) ofs (2 ^ n * 8), ht_slots := (ht_slots ht)[n - 4 := ofs]\<rparr>) 0 = Some b"
      "oa_move_range ht_get ht_put (2 * 2 ^ n - 1) b (2 ^ n) (ht\<lparr>ht_data := v,
        ht_ents := zero_entries (ht_ents ht) ofs (2 ^ n * 8), ht_slots := (ht_slots ht)[n - 4 := ofs]\<rparr>) = Some s1"
      "oa_move_range ht_get ht_put (2 * 2 ^ n - 1) 0 b s1 = Some s2"
      "probe_ok (ht_get s2) (2 * 2 ^ n - 1)" "bag (ht_get s2) (2 * 2 ^ n - 1) = ht_bag ht"
      "ht_frame s2 = ht_frame (ht\<lparr>ht_data := v, ht_ents := zero_entries (ht_ents ht) ofs (2 ^ n * 8),
        ht_slots := (ht_slots ht)[n - 4 := ofs]\<rparr>)" "ht_valid s2 (2 * 2 ^ n - 1)"
    by (rule redistribute_ok[OF lay pok fits n31 a(3) refl])
  define ht' where "ht' = s2\<lparr>ht_mask := 2 * 2 ^ n - 1\<rparr>"
  have idx: "Suc (n - 5) = n - 4"
    using m(2) by simp
  have grow: "hashtable_grow k ht = Some ht'"
    unfolding hashtable_grow_def Let_def m(1) grow_masks[OF m(3)] bits_simps a(1) ilog2_pow
    using s(1-3) by (simp add: idx hashtable_move_buckets_range_def ht'_def)
  note fr = ht_frameD[OF s(6)]
  have get': "ht_get ht' = ht_get s2"
    by (simp add: ht'_def ht_get_def hashtable_bucket_def fun_eq_iff)
  have bag': "ht_bag ht' = ht_bag ht"
    using s(5) by (simp add: ht_bag_def get') (simp add: ht'_def)
  have "ht_layout ht' (Suc n)"
    using lay m(2,3) s(7) fr a(2,4,5) idx room'
    by (auto simp: ht_layout_def ht'_def ht_valid_def vsize_def)
  moreover obtain fs where fs: "recs_ok (ht_bag ht) (hashtable_get_key ht) (wlocpos (ht_data ht)) fs"
      "free_chain (ht_recs ht) (ht_free_list ht) fs"
    using ok unfolding ht_ok_def by blast
  have "recs_ok (ht_bag ht') (hashtable_get_key ht') (wlocpos (ht_data ht')) fs"
    using recs_ok_mono[OF fs(1), of "wlocpos v"] a(3,5) fr ht_get_key_cong[of ht' ht] bag'
    by (simp add: ht'_def)
  ultimately have "ht_ok ht'"
    using s(4) fr sz fs(2) m(1) unfolding ht_ok_def bag' get' by (auto simp: ht'_def)
  moreover have "2 * 2 ^ n - 1 = 2 * ht_mask ht + 1"
    using m(1) by linarith
  ultimately show ?thesis
    using that[OF grow _ bag'] fr m(1) a(3-5) by (simp add: ht'_def)
qed

section \<open>Allocating a record\<close>

lemma free_chain_cong: "(\<And>x. x \<in> set xs \<Longrightarrow> R x = R' x) \<Longrightarrow> free_chain R r xs \<longleftrightarrow> free_chain R' r xs"
  by (induction xs arbitrary: r) auto

lemma free_chain_upd [simp]: "y \<notin> set xs \<Longrightarrow> free_chain (R(y := v)) r xs \<longleftrightarrow> free_chain R r xs"
  by (rule free_chain_cong) auto

lemma free_chain_nz: "free_chain R r xs \<Longrightarrow> 0 \<notin> set xs"
  by (induction xs arbitrary: r) auto

lemma free_chain_hd: "free_chain R r xs \<Longrightarrow> r = (if xs = [] then 0 else hd xs)"
  by (cases xs) auto

lemma free_chain_next:
  "free_chain R r (ys @ x # xs) \<Longrightarrow> r_w0 (R x) = (if xs = [] then 0 else hd xs)"
  by (induction ys arbitrary: r) (auto dest: free_chain_hd)

lemma free_chain_unlink:
  assumes "free_chain R r (ys @ x # xs)" "distinct (ys @ x # xs)" "ys \<noteq> []"
  shows "free_chain (R(last ys := (R (last ys))\<lparr>r_w0 := r_w0 (R x)\<rparr>)) r (ys @ xs)"
  using assms
proof (induction ys arbitrary: r)
  case (Cons y ys)
  let ?R = "R(last (y # ys) := (R (last (y # ys)))\<lparr>r_w0 := r_w0 (R x)\<rparr>)"
  show ?case
  proof (cases "ys = []")
    case True
    then show ?thesis
      using Cons.prems by (auto simp del: fun_upd_apply simp: fun_upd_same)
  next
    case False
    then have "y \<noteq> last ys"
      using Cons.prems(2) by auto
    then show ?thesis
      using Cons False by simp
  qed
qed simp

lemma hashtable_upd_id [simp]:
  "ht\<lparr>ht_free_list := ht_free_list ht, ht_recs := R\<rparr> = ht\<lparr>ht_recs := R\<rparr>"
  "ht\<lparr>ht_free_list := fl, ht_recs := ht_recs ht\<rparr> = ht\<lparr>ht_free_list := fl\<rparr>"
  by (cases ht, simp)+

lemma freelist_loop_ok:
  assumes "free_chain (ht_recs ht) (ht_free_list ht) (ys @ xs)" "distinct (ys @ xs)"
    "prev = (if ys = [] then None else Some (last ys))" "rec_ofs = (if xs = [] then 0 else hd xs)"
  shows "\<exists>r fl R fs'. hashtable_freelist_loop ht sz prev rec_ofs =
      Some (r, ht\<lparr>ht_free_list := fl, ht_recs := R\<rparr>) \<and>
      free_chain R fl fs' \<and> distinct fs' \<and> set fs' = set (ys @ xs) - {r} \<and>
      (r = 0 \<or> r \<in> set xs) \<and> (\<forall>x. x \<notin> set (ys @ xs) \<longrightarrow> R x = ht_recs ht x)"
  using assms
proof (induction xs arbitrary: ys prev rec_ofs)
  case Nil
  have z: "0 \<notin> set ys"
    using free_chain_nz[OF Nil.prems(1)] by simp
  then have "hashtable_freelist_loop ht sz prev rec_ofs =
      Some (0, ht\<lparr>ht_free_list := ht_free_list ht, ht_recs := ht_recs ht\<rparr>)"
    using Nil.prems(4) by (simp add: hashtable_freelist_loop.simps)
  then show ?case
    using Nil.prems z by (intro exI[of _ 0] exI[of _ "ht_free_list ht"] exI[of _ "ht_recs ht"] exI[of _ ys]) auto
next
  case (Cons x xs)
  have x: "rec_ofs = x" "0 < x"
    using Cons.prems(4) free_chain_nz[OF Cons.prems(1)] by auto
  note nx = free_chain_next[OF Cons.prems(1)]
  show ?case
  proof (cases "r_w1 (ht_recs ht x) = sz")
    case False
    have "hashtable_freelist_loop ht sz prev rec_ofs =
        hashtable_freelist_loop ht sz (Some x) (r_w0 (ht_recs ht x))"
      using x False by (simp add: hashtable_freelist_loop.simps[of ht sz prev])
    moreover have "\<exists>r fl R fs'. hashtable_freelist_loop ht sz (Some x) (r_w0 (ht_recs ht x)) =
        Some (r, ht\<lparr>ht_free_list := fl, ht_recs := R\<rparr>) \<and>
        free_chain R fl fs' \<and> distinct fs' \<and> set fs' = set ((ys @ [x]) @ xs) - {r} \<and>
        (r = 0 \<or> r \<in> set xs) \<and> (\<forall>y. y \<notin> set ((ys @ [x]) @ xs) \<longrightarrow> R y = ht_recs ht y)"
      using Cons.prems(1,2) nx by (intro Cons.IH) simp_all
    moreover have "set ((ys @ [x]) @ xs) = set (ys @ x # xs)" "set xs \<subseteq> set (x # xs)"
      by auto
    ultimately show ?thesis
      unfolding subset_iff by metis
  next
    case True
    define fl R where "fl = (if ys = [] then r_w0 (ht_recs ht x) else ht_free_list ht)"
      and "R = (if ys = [] then ht_recs ht
        else (ht_recs ht)(last ys := (ht_recs ht (last ys))\<lparr>r_w0 := r_w0 (ht_recs ht x)\<rparr>))"
    have "hashtable_freelist_loop ht sz prev rec_ofs = Some (x, ht\<lparr>ht_free_list := fl, ht_recs := R\<rparr>)"
      using x True Cons.prems(3)
      by (simp add: hashtable_freelist_loop.simps[of ht sz _ x] ht_set_rec_def fl_def R_def)
    moreover have "free_chain R fl (ys @ xs)"
      using Cons.prems(1,2) free_chain_unlink[OF Cons.prems(1,2)] by (auto simp: fl_def R_def)
    moreover have "R y = ht_recs ht y" if "y \<notin> set (ys @ x # xs)" for y
      using that by (auto simp: R_def)
    ultimately show ?thesis
      using Cons.prems(2) by (intro exI[of _ x] exI[of _ fl] exI[of _ R] exI[of _ "ys @ xs"]) auto
  qed
qed

lemma alloc_from_freelist_ok:
  assumes "free_chain (ht_recs ht) (ht_free_list ht) fs" "distinct fs"
  obtains r fl R fs' where "hashtable_alloc_from_freelist ht kl vl =
      Some (r, ht\<lparr>ht_free_list := fl, ht_recs := R\<rparr>)"
    "free_chain R fl fs'" "distinct fs'" "set fs' = set fs - {r}" "r = 0 \<or> r \<in> set fs"
    "\<forall>x. x \<notin> set fs \<longrightarrow> R x = ht_recs ht x"
  using freelist_loop_ok[of ht "[]" fs None "ht_free_list ht" "u32 (u32 kl + u32 vl)"] assms
    free_chain_hd[OF assms(1)]
  unfolding hashtable_alloc_from_freelist_def by auto

lemma ht_put_frame [simp]:
  "ht_put (ht\<lparr>ht_free_list := fl, ht_recs := R\<rparr>) b x = (ht_put ht b x)\<lparr>ht_free_list := fl, ht_recs := R\<rparr>"
  "ht_data (ht_put ht b x) = ht_data ht" "ht_mask (ht_put ht b x) = ht_mask ht"
  "ht_size (ht_put ht b x) = ht_size ht" "ht_free_list (ht_put ht b x) = ht_free_list ht"
  "ht_slots (ht_put ht b x) = ht_slots ht" "ht_recs (ht_put ht b x) = ht_recs ht"
  by (simp_all add: ht_put_def hashtable_bucket_def)

lemma ht_get_frame [simp]:
  "ht_get (ht\<lparr>ht_free_list := fl\<rparr>) = ht_get ht" "ht_get (ht\<lparr>ht_recs := R\<rparr>) = ht_get ht"
  "ht_get (ht\<lparr>ht_data := v\<rparr>) = ht_get ht" "ht_get (ht\<lparr>ht_size := n\<rparr>) = ht_get ht"
  by (simp_all add: ht_get_def hashtable_bucket_def fun_eq_iff)

lemma alloc_rec_ok:
  assumes chain: "free_chain (ht_recs ht) (ht_free_list ht) fs" "distinct fs"
    "\<forall>r\<in>set fs. r < wlocpos (ht_data ht)"
    and va: "va_ok (ht_data ht)" "0 < wlocpos (ht_data ht)" and k: "grants k"
    and room: "wlocpos (ht_data ht) + kl + vl + 16 < 2 ^ 32"
  obtains ofs v fl R fs' where
    "hashtable_alloc_rec k ht b kl vl = Some (ofs, (ht_put ht b ((ht_get ht b)\<lparr>e_rec := ofs\<rparr>))
      \<lparr>ht_data := v, ht_free_list := fl, ht_recs := R\<rparr>)"
    "0 < ofs" "ofs < wlocpos v" "ofs \<in> set fs \<or> ofs = wlocpos (ht_data ht)" "ofs \<notin> set fs'"
    "set fs' \<subseteq> set fs" "distinct fs'" "free_chain R fl fs'" "\<forall>x. x \<notin> set fs \<longrightarrow> R x = ht_recs ht x"
    "va_ok v" "wlocpos (ht_data ht) \<le> wlocpos v" "wlocpos v \<le> wlocpos (ht_data ht) + kl + vl + 8"
proof -
  obtain r fl R fs' where f: "hashtable_alloc_from_freelist ht kl vl =
        Some (r, ht\<lparr>ht_free_list := fl, ht_recs := R\<rparr>)"
      "free_chain R fl fs'" "distinct fs'" "set fs' = set fs - {r}" "r = 0 \<or> r \<in> set fs"
      "\<forall>x. x \<notin> set fs \<longrightarrow> R x = ht_recs ht x"
    by (rule alloc_from_freelist_ok[OF chain(1,2)])
  show ?thesis
  proof (cases "r = 0")
    case False
    then have r: "r \<in> set fs" "0 < r"
      using f(5) by auto
    have eq: "hashtable_alloc_rec k ht b kl vl = Some (r, (ht_put ht b ((ht_get ht b)\<lparr>e_rec := r\<rparr>))
      \<lparr>ht_data := ht_data ht, ht_free_list := fl, ht_recs := R\<rparr>)"
      using f(1) False by (cases "ht_put ht b ((ht_get ht b)\<lparr>e_rec := r\<rparr>)")
        (simp add: hashtable_alloc_rec_def, metis ht_put_frame(2) hashtable.select_convs(1))
    show ?thesis
      by (rule that[OF eq r(2) _ _ _ _ f(3,2,6)]) (use r chain(3) f(4) va in auto)
  next
    case True
    have "wlocpos (ht_data ht) + (8 + kl + vl) + 8 \<le> 2 ^ 61"
      using room by simp
    then obtain ofs v where a: "vmallocator_alloc k (ht_data ht) (8 + kl + vl) = (ofs, v)"
        "ofs \<noteq> ALLOC_FAILED" "va_ok v" "wlocpos (ht_data ht) \<le> ofs" "ofs < wlocpos (ht_data ht) + 1"
        "wlocpos v = ofs + (8 + kl + vl)"
      using va(1) k by (metis plain.new_extent)
    have ofs: "ofs = wlocpos (ht_data ht)" "u32 ofs = ofs"
      using a(4,5) room by (auto intro: u32_small)
    have eq: "hashtable_alloc_rec k ht b kl vl = Some (ofs, (ht_put ht b ((ht_get ht b)\<lparr>e_rec := ofs\<rparr>))
      \<lparr>ht_data := v, ht_free_list := fl, ht_recs := R\<rparr>)"
      using f(1) True a(1,2) ofs
      by (simp add: hashtable_alloc_rec_def HASHTABLE_REC_SIZE_def Let_def)
    have z: "ofs \<notin> set fs'"
      using chain(3) f(4) ofs(1) by auto
    show ?thesis
      by (rule that[OF eq _ _ _ z _ f(3,2,6) a(3)]) (use ofs(1) va(2) a(6) f(4) in auto)
  qed
qed

end
