(* ===== verification/Hashtable_Ops.thy ===== *)
theory Hashtable_Ops
  imports Hashtable
begin

text \<open>
  The operations of \<^verbatim>\<open>src/hashtable.c\<close> against the mapping the table stands for: inserting,
  looking up, removing and visiting records, and initialising a table.
\<close>

section \<open>Inserting\<close>

lemma recs_ok_add:
  assumes ok: "recs_ok B f wl fs" and new: "r \<notin> snd ` set_mset B" "r < wl'" "wl \<le> wl'"
    and key: "f' r = k" "k \<notin> f ` snd ` set_mset B" "\<And>x. x \<in> snd ` set_mset B \<Longrightarrow> f' x = f x"
    and fs: "distinct fs'" "set fs' \<subseteq> set fs" "r \<notin> set fs'"
  shows "recs_ok (add_mset (hashcode k, r) B) f' wl' fs'"
proof -
  have mem: "x \<in> snd ` set_mset B" if "(h, x) \<in># B" for h x
    using that by force
  have "count (image_mset snd B) r = 0"
    using new(1) by (simp add: count_eq_zero_iff)
  then have "count (image_mset snd (add_mset (hashcode k, r) B)) x \<le> 1" for x
    using ok by (auto simp: recs_ok_def)
  moreover have "x < wl' \<and> h = hashcode (f' x)" if "(h, x) \<in># add_mset (hashcode k, r) B" for h x
  proof (cases "(h, x) = (hashcode k, r)")
    case False
    then have "(h, x) \<in># B"
      using that by auto
    then have "x < wl" "h = hashcode (f x)" "f' x = f x"
      using ok key(3)[OF mem] by (auto simp: recs_ok_def)
    then show ?thesis
      using new(3) by simp
  qed (use new(2) key(1) in simp)
  moreover have "inj_on f' (snd ` set_mset (add_mset (hashcode k, r) B))"
  proof -
    have "f' ` snd ` set_mset B = f ` snd ` set_mset B"
      using key(3) by (rule image_cong[OF refl])
    moreover have "inj_on f' (snd ` set_mset B)"
      using ok key(3) by (auto simp: recs_ok_def inj_on_def)
    ultimately show ?thesis
      using key(1,2) by (simp add: inj_on_insert) blast
  qed
  moreover have "x < wl' \<and> x \<notin> snd ` set_mset (add_mset (hashcode k, r) B)" if "x \<in> set fs'" for x
  proof -
    have "x \<in> set fs" "x \<noteq> r"
      using that fs(2,3) by auto
    then have "x < wl" "x \<notin> snd ` set_mset B"
      using ok unfolding recs_ok_def by blast+
    then show ?thesis
      using new(3) \<open>x \<noteq> r\<close> by simp
  qed
  ultimately show ?thesis
    using fs(1) unfolding recs_ok_def by blast
qed

lemma ht_map_insert:
  assumes "ht_ok ht" "ht_ok ht'" "set (ht_live ht') = insert r (set (ht_live ht))"
    "hashtable_get_key ht' r = key" "\<And>x. x \<in> set (ht_live ht) \<Longrightarrow> hashtable_get_key ht' x = hashtable_get_key ht x"
    "ht_map ht key = None"
  shows "ht_map ht' = (ht_map ht)(key \<mapsto> r)"
proof (rule ext)
  fix k'
  have "ht_map ht' k' = Some x \<longleftrightarrow> ((ht_map ht)(key \<mapsto> r)) k' = Some x" for x
    using assms(3-6) ht_map_Some[OF assms(1), of k' x] ht_map_Some[OF assms(2), of k' x]
    by (auto simp: ht_map_None)
  then show "ht_map ht' k' = ((ht_map ht)(key \<mapsto> r)) k'"
    by (metis not_None_eq)
qed

lemma ht_okE:
  assumes "ht_ok ht"
  obtains n fs where "ht_layout ht n" "probe_ok (ht_get ht) (ht_mask ht)" "ht_size ht = size (ht_bag ht)"
    "2 * ht_size ht \<le> ht_mask ht + 1" "ht_mask ht + 1 = 2 ^ n"
    "recs_ok (ht_bag ht) (hashtable_get_key ht) (wlocpos (ht_data ht)) fs"
    "free_chain (ht_recs ht) (ht_free_list ht) fs"
proof -
  obtain n fs where n: "ht_layout ht n" "probe_ok (ht_get ht) (ht_mask ht)" "ht_size ht = size (ht_bag ht)"
    "2 * ht_size ht \<le> ht_mask ht + 1"
    "recs_ok (ht_bag ht) (hashtable_get_key ht) (wlocpos (ht_data ht)) fs"
    "free_chain (ht_recs ht) (ht_free_list ht) fs"
    using assms unfolding ht_ok_def by blast
  moreover have "ht_mask ht + 1 = 2 ^ n"
    using n(1) by (simp add: ht_layout_def)
  ultimately show ?thesis
    using that by blast
qed

text \<open>The entry and the record are in place: what remains of an insertion is bookkeeping.\<close>

lemma insert_finish:
  assumes ok: "ht_ok ht" and sz: "ht_size ht \<le> ht_mask ht div 2"
    and b: "b \<le> ht_mask ht" "\<not> occ (ht_get ht) b"
    and path: "\<forall>j\<le>ht_mask ht. cyc_between (hashcode key AND ht_mask ht) j b \<and> j \<noteq> b \<longrightarrow> occ (ht_get ht) j"
    and new: "ht_map ht key = None" and r: "0 < r" "r < wlocpos v" "r \<notin> set (ht_live ht)"
    and chain: "recs_ok (ht_bag ht) (hashtable_get_key ht) (wlocpos (ht_data ht)) fs"
      "free_chain R fl fs'" "distinct fs'" "set fs' \<subseteq> set fs" "r \<notin> set fs'"
      "\<forall>x. x \<notin> set fs \<longrightarrow> R x = ht_recs ht x"
    and v: "va_ok v" "wlocpos (ht_data ht) \<le> wlocpos v" "wlocpos v < 2 ^ 32"
    and x: "r_w0 x = length key" "mem_read (r_data x) 0 (length key) = key"
    and ht': "ht' = (ht_put ht b \<lparr>e_hashcode = hashcode key, e_rec = r\<rparr>)
      \<lparr>ht_data := v, ht_free_list := fl, ht_recs := R(r := x), ht_size := ht_size ht + 1\<rparr>"
  shows "ht_ok ht'" "ht_map ht' = (ht_map ht)(key \<mapsto> r)" "ht_recs ht' r = x"
    "\<And>y. y \<in> set (ht_live ht) \<Longrightarrow> ht_recs ht' y = ht_recs ht y"
proof -
  obtain n where n: "ht_layout ht n" "probe_ok (ht_get ht) (ht_mask ht)" "ht_size ht = size (ht_bag ht)"
      "ht_mask ht + 1 = 2 ^ n"
    using ok by (rule ht_okE)
  let ?e = "\<lparr>e_hashcode = hashcode key, e_rec = r\<rparr>"
  have val: "ht_valid ht i" if "i \<le> ht_mask ht" for i
    using n(1) that by (auto simp: ht_layout_def intro: ht_valid_mono)
  have get': "ht_get ht' i = ((ht_get ht)(b := ?e)) i" if "i \<le> ht_mask ht" for i
    using htb.get_put_upd[of "ht_mask ht", OF val b(1) that] by (simp add: ht')
  have m': "ht_mask ht' = ht_mask ht"
    by (simp add: ht')
  have "ht_bag ht' = bag ((ht_get ht)(b := ?e)) (ht_mask ht)"
    unfolding ht_bag_def m' by (rule bag_cong) (rule get')
  then have bag': "ht_bag ht' = add_mset (hashcode key, r) (ht_bag ht)"
    using bag_fill[OF b, of ?e] r(1) by (simp add: ebag_def ht_bag_def)
  have live': "set (ht_live ht') = insert r (set (ht_live ht))"
    by (simp add: set_ht_live bag')
  show old: "ht_recs ht' y = ht_recs ht y" if "y \<in> set (ht_live ht)" for y
  proof -
    have "y \<noteq> r" "y \<notin> set fs"
      using that r(3) chain(1) unfolding recs_ok_def set_ht_live by blast+
    then show ?thesis
      using chain(6) by (simp add: ht')
  qed
  then have key: "hashtable_get_key ht' y = hashtable_get_key ht y" if "y \<in> set (ht_live ht)" for y
    using that by (simp add: hashtable_get_key_def hashtable_get_key_size_def)
  show rx: "ht_recs ht' r = x"
    by (simp add: ht')
  then have key': "hashtable_get_key ht' r = key"
    using x by (simp add: hashtable_get_key_def hashtable_get_key_size_def)
  have "probe_ok (ht_get ht') (ht_mask ht')"
    unfolding m'
    using iffD2[OF probe_ok_cong[of "ht_mask ht" "ht_get ht'" "(ht_get ht)(b := ?e)", OF get']]
      probe_ok_fill[OF n(2) b, of ?e] r(1) path by simp
  moreover have "ht_layout ht' n"
    using n(1) v by (auto simp: ht_layout_def ht' ht_valid_def)
  moreover have "recs_ok (ht_bag ht') (hashtable_get_key ht') (wlocpos (ht_data ht')) fs'"
    unfolding bag' using new key key' r v(2) chain(3-5)
    by (intro recs_ok_add[OF chain(1)]) (auto simp: ht' ht_map_None set_ht_live[symmetric])
  moreover have "free_chain (ht_recs ht') (ht_free_list ht') fs'"
    using chain(2,5) by (simp add: ht')
  moreover have "ht_size ht' = size (ht_bag ht')" "2 * ht_size ht' \<le> ht_mask ht' + 1"
  proof -
    have s: "ht_size ht' = ht_size ht + 1"
      by (simp add: ht')
    show "ht_size ht' = size (ht_bag ht')"
      using s n(3) bag' by simp
    obtain q where "(2 :: nat) ^ n = 2 * q"
      using n(1) by (cases n) (auto simp: ht_layout_def)
    then have "ht_mask ht + 1 = 2 * q"
      using n(4) by simp
    then have "ht_mask ht div 2 < q" "ht_mask ht + 1 = 2 * q"
      by presburger+
    then show "2 * ht_size ht' \<le> ht_mask ht' + 1"
      using s m' sz by linarith
  qed
  ultimately show "ht_ok ht'"
    unfolding ht_ok_def by blast
  then show "ht_map ht' = (ht_map ht)(key \<mapsto> r)"
    using ht_map_insert[OF ok _ live' key' key new] by blast
qed

lemma wlocpos_pos: "ht_layout ht n \<Longrightarrow> 0 < wlocpos (ht_data ht)"
proof -
  assume "ht_layout ht n"
  moreover have "0 < vsize (n - 5)"
    by (simp add: vsize_def)
  ultimately show ?thesis
    unfolding ht_layout_def by linarith
qed

lemma ht_entry_upd: "x\<lparr>e_hashcode := h, e_rec := r\<rparr> = \<lparr>e_hashcode = h, e_rec = r\<rparr>" for x :: ht_entry
  by (cases x) simp

lemma ht_put_put: "ht_put (ht_put ht b x) b y = ht_put ht b y"
  by (simp add: ht_put_def hashtable_bucket_def)

lemma ht_get_put_same: "ht_get (ht_put ht b x) b = x"
  by (simp add: ht_get_def) (simp add: ht_put_def)

lemma mem_read_copy_prefix: "mem_read (mem_copy (mem_copy f 0 xs) (length xs) ys) 0 (length xs) = xs"
  by (subst mem_read_copy_disj) simp_all

lemma new_rec_ok:
  assumes ok: "ht_ok ht" and sz: "ht_size ht \<le> ht_mask ht div 2"
    and b: "b \<le> ht_mask ht" "\<not> occ (ht_get ht) b"
    and path: "\<forall>j\<le>ht_mask ht. cyc_between (hashcode key AND ht_mask ht) j b \<and> j \<noteq> b \<longrightarrow> occ (ht_get ht) j"
    and new: "ht_map ht key = None" and k: "grants k"
    and room: "wlocpos (ht_data ht) + length key + vl + 16 < 2 ^ 32"
  obtains r ht' where "ht_new_rec k ht b (hashcode key) key vl val = Some (r, ht')" "0 < r" "ht_ok ht'"
    "ht_map ht' = (ht_map ht)(key \<mapsto> r)" "hashtable_get_val_size ht' r = vl"
    "length val = vl \<longrightarrow> hashtable_get_val ht' r = val" "ht_size ht' = ht_size ht + 1"
    "\<forall>y\<in>set (ht_live ht). ht_recs ht' y = ht_recs ht y"
proof -
  obtain n fs where n: "ht_layout ht n" "ht_size ht = size (ht_bag ht)" "2 * ht_size ht \<le> ht_mask ht + 1"
      "ht_mask ht + 1 = 2 ^ n"
      and fs: "recs_ok (ht_bag ht) (hashtable_get_key ht) (wlocpos (ht_data ht)) fs"
      "free_chain (ht_recs ht) (ht_free_list ht) fs"
    using ok by (rule ht_okE)
  let ?ht1 = "ht_put ht b ((ht_get ht b)\<lparr>e_hashcode := hashcode key\<rparr>)"
  have c: "free_chain (ht_recs ?ht1) (ht_free_list ?ht1) fs" "distinct fs"
      "\<forall>r\<in>set fs. r < wlocpos (ht_data ?ht1)" "va_ok (ht_data ?ht1)" "0 < wlocpos (ht_data ?ht1)"
      "wlocpos (ht_data ?ht1) + length key + vl + 16 < 2 ^ 32"
    using fs n(1) wlocpos_pos room by (auto simp: recs_ok_def ht_layout_def)
  obtain r v fl R fs' where a:
    "hashtable_alloc_rec k ?ht1 b (length key) vl = Some (r, (ht_put ?ht1 b ((ht_get ?ht1 b)\<lparr>e_rec := r\<rparr>))
      \<lparr>ht_data := v, ht_free_list := fl, ht_recs := R\<rparr>)"
    "0 < r" "r < wlocpos v" "r \<in> set fs \<or> r = wlocpos (ht_data ?ht1)" "r \<notin> set fs'"
    "set fs' \<subseteq> set fs" "distinct fs'" "free_chain R fl fs'" "\<forall>x. x \<notin> set fs \<longrightarrow> R x = ht_recs ?ht1 x"
    "va_ok v" "wlocpos (ht_data ?ht1) \<le> wlocpos v" "wlocpos v \<le> wlocpos (ht_data ?ht1) + length key + vl + 8"
    by (rule alloc_rec_ok[OF c(1-5) k c(6)])
  define x where "x = (R r)\<lparr>r_w0 := length key, r_w1 := vl,
      r_data := mem_copy (mem_copy (r_data (R r)) 0 key) (length key) val\<rparr>"
  define ht' where "ht' = (ht_put ht b \<lparr>e_hashcode = hashcode key, e_rec = r\<rparr>)
      \<lparr>ht_data := v, ht_free_list := fl, ht_recs := R(r := x), ht_size := ht_size ht + 1\<rparr>"
  have small: "u32 (Suc (ht_size ht)) = Suc (ht_size ht)" "u32 (length key) = length key" "u32 vl = vl"
  proof -
    have "(2 :: nat) ^ n \<le> 2 ^ 31"
      using n(1) by (intro power_increasing) (auto simp: ht_layout_def)
    then show "u32 (Suc (ht_size ht)) = Suc (ht_size ht)"
      using n(3) unfolding n(4) by (intro u32_small) simp
    show "u32 (length key) = length key" "u32 vl = vl"
      using room by (auto intro: u32_small)
  qed
  have call: "ht_new_rec k ht b (hashcode key) key vl val = Some (r, ht')"
    unfolding ht_new_rec_def Let_def a(1)
    by (simp add: ht_put_put ht_get_put_same ht_set_rec_def small ht_entry_upd ht'_def x_def)
  have fin: "r \<notin> set (ht_live ht)" "wlocpos v < 2 ^ 32" "r_w0 x = length key"
      "mem_read (r_data x) 0 (length key) = key"
  proof -
    have "y < wlocpos (ht_data ht)" "y \<notin> set fs" if "y \<in> set (ht_live ht)" for y
      using fs(1) that unfolding recs_ok_def set_ht_live by force+
    then show "r \<notin> set (ht_live ht)"
      using a(4) by auto
  qed (use a(12) room in \<open>simp_all add: x_def mem_read_copy_prefix\<close>)
  note f = insert_finish[OF ok sz b path new a(2,3) fin(1) fs(1) a(8,7,6,5) _ a(10) _ fin(2-4) ht'_def]
  have e: "\<forall>x. x \<notin> set fs \<longrightarrow> R x = ht_recs ht x" "wlocpos (ht_data ht) \<le> wlocpos v"
    using a(9,11) by simp_all
  have "hashtable_get_val_size ht' r = vl" "length val = vl \<longrightarrow> hashtable_get_val ht' r = val"
    using f(3)[OF e] by (auto simp: hashtable_get_val_size_def hashtable_get_val_def
        hashtable_get_key_size_def x_def)
  then show ?thesis
    using that[OF call a(2) f(1)[OF e] f(2)[OF e]] f(4)[OF e] by (simp add: ht'_def)
qed

section \<open>Resizing before an insertion\<close>

text \<open>Room for one growth step and \<open>n\<close> bytes of key and value below the 4 GB an offset can
  address.\<close>

definition ht_room :: "hashtable \<Rightarrow> nat \<Rightarrow> bool" where
  "ht_room ht n \<longleftrightarrow> wlocpos (ht_data ht) + 8 * (ht_mask ht + 1) + n + 32 < 2 ^ 32"

lemma ht_map_cong:
  assumes "ht_ok a" "ht_ok b" "set (ht_live a) = set (ht_live b)"
    "\<And>x. x \<in> set (ht_live b) \<Longrightarrow> hashtable_get_key a x = hashtable_get_key b x"
  shows "ht_map a = ht_map b"
proof (rule ext)
  fix k
  have "ht_map a k = Some x \<longleftrightarrow> ht_map b k = Some x" for x
    using assms ht_map_Some[of a k x] ht_map_Some[of b k x] by auto
  then show "ht_map a k = ht_map b k"
    by (metis not_None_eq)
qed

lemma grow_keeps_map:
  assumes "ht_ok ht" "ht_ok ht'" "ht_bag ht' = ht_bag ht" "ht_recs ht' = ht_recs ht"
  shows "ht_map ht' = ht_map ht" "set (ht_live ht') = set (ht_live ht)"
proof -
  show "set (ht_live ht') = set (ht_live ht)"
    using assms(3) by (simp add: set_ht_live)
  then show "ht_map ht' = ht_map ht"
    using assms ht_get_key_cong[OF assms(4)] by (intro ht_map_cong) simp_all
qed

lemma check_resize_ok:
  assumes ok: "ht_ok ht" and k: "grants k" and room: "ht_room ht n"
  obtains ht' where "hashtable_check_resize k ht = Some ht'" "ht_ok ht'" "ht_map ht' = ht_map ht"
    "ht_recs ht' = ht_recs ht" "ht_size ht' = ht_size ht" "ht_size ht' \<le> ht_mask ht' div 2"
    "wlocpos (ht_data ht') + n + 16 < 2 ^ 32" "set (ht_live ht') = set (ht_live ht)"
proof (cases "ht_size ht > ht_mask ht div 2")
  case False
  then show ?thesis
    using that[of ht] ok room by (simp add: hashtable_check_resize_def ht_room_def)
next
  case True
  have "wlocpos (ht_data ht) + 8 * (ht_mask ht + 1) + 8 < 2 ^ 32"
    using room by (simp add: ht_room_def)
  then obtain ht' where g: "hashtable_grow k ht = Some ht'" "ht_ok ht'" "ht_bag ht' = ht_bag ht"
    "ht_recs ht' = ht_recs ht" "ht_mask ht' = 2 * ht_mask ht + 1" "ht_size ht' = ht_size ht"
    "wlocpos (ht_data ht') \<le> wlocpos (ht_data ht) + 8 * (ht_mask ht + 1) + 8"
    by (rule hashtable_grow_ok[OF ok k])
  note m = grow_keeps_map[OF ok g(2,3,4)]
  obtain n where "ht_layout ht n" "2 * ht_size ht \<le> ht_mask ht + 1"
    using ok by (rule ht_okE)
  moreover from this have "31 \<le> ht_mask ht"
    using power_increasing[of 5 n "2 :: nat"] by (auto simp: ht_layout_def)
  ultimately have "ht_size ht' \<le> ht_mask ht' div 2"
    using g(5,6) by simp
  then show ?thesis
    using that[of ht'] True g m room by (simp add: hashtable_check_resize_def ht_room_def)
qed

lemma probe_free:
  assumes ok: "ht_ok ht"
  obtains b where "probe (\<lambda>b. e_rec (ht_get ht b) = 0) (ht_mask ht) (hc AND ht_mask ht) = Some b"
    "b \<le> ht_mask ht" "\<not> occ (ht_get ht) b"
    "\<forall>j\<le>ht_mask ht. cyc_between (hc AND ht_mask ht) j b \<and> j \<noteq> b \<longrightarrow> occ (ht_get ht) j"
proof -
  obtain n where n: "ht_layout ht n" "probe_ok (ht_get ht) (ht_mask ht)" "ht_size ht = size (ht_bag ht)"
      "2 * ht_size ht \<le> ht_mask ht + 1" "ht_mask ht + 1 = 2 ^ n"
    using ok by (rule ht_okE)
  have m: "ht_mask ht = 2 ^ n - 1" "size (bag (ht_get ht) (ht_mask ht)) \<le> ht_mask ht"
    using n power_increasing[of 5 n "2 :: nat"] by (auto simp: ht_layout_def ht_bag_def)
  obtain b where b:
    "probe (\<lambda>i. e_rec (ht_get ht i) = 0 \<or> e_hashcode (ht_get ht i) = hc \<and> False) (ht_mask ht) (hc AND ht_mask ht) = Some b"
    "b \<le> ht_mask ht"
    "occ (ht_get ht) b \<longrightarrow> e_hashcode (ht_get ht b) = hc \<and> False"
    "\<not> occ (ht_get ht) b \<longrightarrow> (\<forall>h r. (h, r) \<in># bag (ht_get ht) (ht_mask ht) \<longrightarrow> \<not> False) \<and>
       (\<forall>j\<le>ht_mask ht. cyc_between (hc AND ht_mask ht) j b \<and> j \<noteq> b \<longrightarrow> occ (ht_get ht) j)"
    by (rule probe_search[where P = "\<lambda>_. False", OF m(1) n(2) m(2)]) simp_all
  then show ?thesis
    using that by simp
qed

section \<open>Initialisation\<close>

lemma init_slots_ok:
  assumes k: "grants k"
  shows "1 \<le> s \<Longrightarrow> s \<le> ns \<Longrightarrow> ns \<le> 24 \<Longrightarrow> ht_layout (ht\<lparr>ht_mask := 2 ^ (s + 4) - 1\<rparr>) (s + 4) \<Longrightarrow>
    (\<forall>b<2 ^ (s + 4). \<not> occ (ht_get ht) b) \<Longrightarrow> wlocpos (ht_data ht) \<le> 172 + 8 * 2 ^ (s + 4) + 8 * s \<Longrightarrow>
    \<exists>ht'. hashtable_init_slots k s ns (2 ^ (s + 4)) ht = Some ht' \<and>
      ht_layout (ht'\<lparr>ht_mask := 2 ^ (ns + 4) - 1\<rparr>) (ns + 4) \<and>
      (\<forall>b<2 ^ (ns + 4). \<not> occ (ht_get ht') b) \<and> ht_mask ht' = ht_mask ht \<and> ht_size ht' = ht_size ht \<and>
      ht_free_list ht' = ht_free_list ht \<and> wlocpos (ht_data ht') \<le> 172 + 8 * 2 ^ (ns + 4) + 8 * ns"
proof (induction "ns - s" arbitrary: s ht)
  case 0
  then show ?case
    by (simp add: hashtable_init_slots.simps)
next
  case (Suc d)
  let ?n = "s + 4"
  let ?ht = "ht\<lparr>ht_mask := 2 ^ ?n - 1\<rparr>"
  have s: "s < ns" "s \<le> 23"
    using Suc.hyps(2) Suc.prems(3) by simp_all
  have p: "(2 :: nat) ^ ?n \<le> 2 ^ 27"
    using s by (intro power_increasing) simp_all
  have room: "wlocpos (ht_data ht) + 8 * 2 ^ ?n + 8 \<le> 2 ^ 32" and va: "va_ok (ht_data ht)"
    using Suc.prems(4,6) p s by (simp_all add: ht_layout_def)
  obtain ofs v where a: "ht_alloc_vector k ht (2 ^ ?n * 8) =
      Some (ofs, ht\<lparr>ht_data := v, ht_ents := zero_entries (ht_ents ht) ofs (2 ^ ?n * 8)\<rparr>)"
      "va_ok v" "wlocpos (ht_data ht) \<le> ofs" "ofs < wlocpos (ht_data ht) + 8" "wlocpos v = ofs + 2 ^ ?n * 8"
    by (rule ht_alloc_vector_ok[OF va k room])
  define ht1 where "ht1 = ht\<lparr>ht_data := v, ht_ents := zero_entries (ht_ents ht) ofs (2 ^ ?n * 8),
      ht_slots := (ht_slots ht)[s := ofs]\<rparr>"
  have st: "hashtable_init_slots k s ns (2 ^ ?n) ht = hashtable_init_slots k (Suc s) ns (2 ^ (Suc s + 4)) ht1"
  proof -
    have "2 ^ ?n * 2 = (2 :: nat) ^ (Suc s + 4)"
      by (simp add: power_add)
    then show ?thesis
      using s a(1) p by (subst hashtable_init_slots.simps) (simp add: ht1_def u32_small del: power_add)
  qed
  have n31: "?n < 31"
    using s by simp
  have e: "ht1\<lparr>ht_mask := 2 ^ ?n - 1\<rparr> = ?ht\<lparr>ht_data := v, ht_ents := zero_entries (ht_ents ?ht) ofs (2 ^ ?n * 8),
      ht_slots := (ht_slots ?ht)[?n - 4 := ofs]\<rparr>"
    by (simp add: ht1_def)
  have ofs: "wlocpos (ht_data ?ht) \<le> ofs"
    using a(3) by simp
  note vec = add_vector[OF Suc.prems(4) ofs n31 e]
  have g: "ht_get (x\<lparr>ht_mask := y\<rparr>) = ht_get x" for x y
    by (simp add: ht_get_def hashtable_bucket_def fun_eq_iff)
  have pw: "(2 :: nat) ^ (Suc s + 4) = 2 * 2 ^ ?n"
    by (simp add: power_add)
  have "\<not> occ (ht_get ht1) b" if "b < 2 ^ (Suc s + 4)" for b
  proof (cases "b < 2 ^ ?n")
    case True
    then show ?thesis
      using vec(2)[OF True] Suc.prems(5) by (simp add: g occ_def)
  next
    case False
    have "b \<le> 2 * 2 ^ ?n - 1"
      using that unfolding pw by linarith
    then show ?thesis
      using vec(3)[of b] False by (simp add: g)
  qed
  moreover have "ht_layout (ht1\<lparr>ht_mask := 2 ^ (Suc s + 4) - 1\<rparr>) (Suc s + 4)"
  proof -
    have "ht_valid (ht1\<lparr>ht_mask := x\<rparr>) (2 ^ (Suc s + 4) - 1)" for x
      unfolding pw using vec(1) by (simp add: ht_valid_def)
    moreover have "length (ht_slots ht1) = 32" "ht_slots ht1 ! s = ofs" "vsize s = 2 ^ ?n"
      using Suc.prems(1,4) s by (simp_all add: ht_layout_def ht1_def vsize_def)
    ultimately show ?thesis
      using s a p Suc.prems(6) by (simp add: ht_layout_def) (simp add: ht1_def)
  qed
  moreover have "wlocpos (ht_data ht1) \<le> 172 + 8 * 2 ^ (Suc s + 4) + 8 * Suc s"
    unfolding pw using a Suc.prems(6) by (simp add: ht1_def)
  moreover have "d = ns - Suc s" "1 \<le> Suc s" "Suc s \<le> ns"
    using Suc.hyps(2) s by simp_all
  moreover have "ht_mask ht1 = ht_mask ht" "ht_size ht1 = ht_size ht" "ht_free_list ht1 = ht_free_list ht"
    by (simp_all add: ht1_def)
  ultimately show ?case
    using Suc.hyps(1)[of "Suc s" ht1] Suc.prems(3) st by metis
qed

lemma init_empty_ok:
  assumes lay: "ht_layout ht n" and emp: "\<forall>b<2 ^ n. \<not> occ (ht_get ht) b"
    and z: "ht_size ht = 0" "ht_free_list ht = 0"
  shows "ht_ok ht" "ht_map ht = Map.empty"
proof -
  have m: "ht_mask ht = 2 ^ n - 1" "(0 :: nat) < 2 ^ n"
    using lay by (auto simp: ht_layout_def)
  have no: "\<not> occ (ht_get ht) b" if "b \<le> ht_mask ht" for b
    using emp that m by (metis Suc_pred le_imp_less_Suc One_nat_def)
  then have b: "ht_bag ht = {#}"
  proof -
    have "{i. i \<le> ht_mask ht \<and> occ (ht_get ht) i} = {}"
      using no by blast
    then have "size (ht_bag ht) = 0"
      unfolding ht_bag_def size_bag by (simp only: card.empty)
    then show ?thesis
      by (simp only: size_eq_0_iff_empty)
  qed
  have "probe_ok (ht_get ht) (ht_mask ht)"
    using no by (simp add: probe_ok_def)
  moreover have "recs_ok {#} f w []" for f w
    by (simp add: recs_ok_def)
  ultimately show "ht_ok ht"
    unfolding ht_ok_def b using lay z by (intro conjI exI[of _ n] exI[of _ "[]"]) simp_all
  have "set (ht_live ht) = {}"
    using b by (simp add: set_ht_live)
  then show "ht_map ht = Map.empty"
    by (auto simp: fun_eq_iff ht_map_def)
qed

text \<open>The state after the first slot is in place.\<close>

lemma init_first:
  assumes k: "grants k" and h: "ht_data ht = VMALLOCATOR_INITIALIZER"
  obtains v where
    "hashtable_init k ht initial_size = (let ht = ht\<lparr>ht_data := v,
        ht_ents := zero_entries (ht_ents ht) 0 396, ht_free_list := 0,
        ht_slots := (replicate 32 0)[0 := 140], ht_size := 0, ht_mask := 31\<rparr>
      in if initial_size > 32 then
           (let initial_size = u32 (next_p2 initial_size * 2);
                ht = ht\<lparr>ht_mask := u32 (initial_size + (2 ^ 32 - 1))\<rparr>
            in case hashtable_init_slots k 1 (ilog2 initial_size - 5 + 1) 32 ht of
                 None \<Rightarrow> None | Some ht \<Rightarrow> Some (0, ht))
         else Some (0, ht))"
    "va_ok v" "wlocpos v = 396"
proof -
  define v0 where "v0 = \<lparr>va_mem = True, wlocpos = 0, va_capacity = 4096, va_resize_func = Some Resize_buf, va_fd = -1\<rparr>"
  have i: "vmallocator_init k (ht_data ht) = (0, v0)"
    using k h by (simp add: vmallocator_init_def VMALLOCATOR_INITIALIZER_def VM_ALLOC_MIN_SIZE_def
        grants_def v0_def Let_def)
  have ok: "va_ok v0" "wlocpos v0 + 396 + 8 \<le> 2 ^ 61"
    by (simp_all add: v0_def va_ok_def)
  obtain ofs v where a: "vmallocator_alloc k v0 396 = (ofs, v)" "ofs \<noteq> ALLOC_FAILED" "va_ok v"
      "wlocpos v0 \<le> ofs" "ofs < wlocpos v0 + 1" "wlocpos v = ofs + 396"
    using plain.new_extent[OF ok k] by metis
  have o0: "ofs = 0"
    using a(5) by (simp add: v0_def)
  show ?thesis
  proof (rule that)
    show "va_ok v" "wlocpos v = 396"
      using a(3,6) o0 by simp_all
  qed (use i a(1,2) o0 in \<open>simp add: hashtable_init_def hashtable_init_fresh_def HT_HEADER_SIZE_def Let_def\<close>)
qed

lemma first_slot_layout:
  assumes "va_ok v" "wlocpos v = 396"
    and "ht1 = ht\<lparr>ht_data := v, ht_ents := zero_entries (ht_ents ht) 0 396, ht_free_list := 0,
      ht_slots := (replicate 32 0)[0 := 140], ht_size := 0, ht_mask := 31\<rparr>"
  shows "ht_layout ht1 5" "\<forall>b<2 ^ 5. \<not> occ (ht_get ht1) b"
proof -
  show "ht_layout ht1 5"
    using assms by (simp add: ht_layout_def ht_valid_def vslot_def vsize_def)
  have "hashtable_bucket ht1 b = 140 + 8 * b" if "b < 32" for b
    using that by (simp add: hashtable_bucket_def assms(3))
  then show "\<forall>b<2 ^ 5. \<not> occ (ht_get ht1) b"
    by (simp add: occ_def ht_get_def) (simp add: assms(3) zero_entries_def)
qed

lemma init_slots_from_first:
  assumes k: "grants k" and lay: "ht_layout ht1 5" "\<forall>b<2 ^ 5. \<not> occ (ht_get ht1) b"
    and z: "ht_size ht1 = 0" "ht_free_list ht1 = 0" and w: "wlocpos (ht_data ht1) = 396"
    and j: "6 \<le> j" "j < 27"
  obtains ht' where "hashtable_init_slots k 1 (j - 3) 32 (ht1\<lparr>ht_mask := 2 * 2 ^ j - 1\<rparr>) = Some ht'"
    "ht_ok ht'" "ht_map ht' = Map.empty" "ht_mask ht' = 2 * 2 ^ j - 1"
proof -
  let ?ht2 = "ht1\<lparr>ht_mask := 2 * 2 ^ j - 1\<rparr>"
  have g: "ht_get (x\<lparr>ht_mask := y\<rparr>) = ht_get x" for x y
    by (simp add: ht_get_def hashtable_bucket_def fun_eq_iff)
  have "ht1\<lparr>ht_mask := 31\<rparr> = ht1"
    using lay(1) by (simp add: ht_layout_def)
  then have l: "ht_layout (?ht2\<lparr>ht_mask := 2 ^ (1 + 4) - 1\<rparr>) (1 + 4)" "\<forall>b<2 ^ (1 + 4). \<not> occ (ht_get ?ht2) b"
    "wlocpos (ht_data ?ht2) \<le> 172 + 8 * 2 ^ (1 + 4) + 8 * 1" "1 \<le> j - 3" "j - 3 \<le> 24"
    using lay w j by (simp_all add: g)
  obtain ht' where h': "hashtable_init_slots k 1 (j - 3) (2 ^ (1 + 4)) ?ht2 = Some ht'"
      "ht_layout (ht'\<lparr>ht_mask := 2 ^ (j - 3 + 4) - 1\<rparr>) (j - 3 + 4)"
      "\<forall>b<2 ^ (j - 3 + 4). \<not> occ (ht_get ht') b" "ht_mask ht' = ht_mask ?ht2" "ht_size ht' = ht_size ?ht2"
      "ht_free_list ht' = ht_free_list ?ht2"
    using init_slots_ok[OF k order_refl l(4,5,1,2,3)] by blast
  have e: "j - 3 + 4 = Suc j"
    using j by simp
  have "ht'\<lparr>ht_mask := 2 ^ Suc j - 1\<rparr> = ht'"
    using h'(4) by simp
  then have "ht_layout ht' (Suc j)"
    using h'(2) unfolding e by (simp only:)
  then show ?thesis
    using that[of ht'] init_empty_ok[of ht' "Suc j"] h' z unfolding e by simp
qed

lemma init_ok:
  assumes k: "grants k" and h: "ht_data ht = VMALLOCATOR_INITIALIZER" and sz: "initial_size \<le> 2 ^ 26"
  obtains ht' where "hashtable_init k ht initial_size = Some (0, ht')" "ht_ok ht'" "ht_map ht' = Map.empty"
    "initial_size \<le> ht_mask ht' + 1"
proof -
  obtain v where i: "hashtable_init k ht initial_size = (let ht = ht\<lparr>ht_data := v,
        ht_ents := zero_entries (ht_ents ht) 0 396, ht_free_list := 0,
        ht_slots := (replicate 32 0)[0 := 140], ht_size := 0, ht_mask := 31\<rparr>
      in if initial_size > 32 then
           (let initial_size = u32 (next_p2 initial_size * 2);
                ht = ht\<lparr>ht_mask := u32 (initial_size + (2 ^ 32 - 1))\<rparr>
            in case hashtable_init_slots k 1 (ilog2 initial_size - 5 + 1) 32 ht of
                 None \<Rightarrow> None | Some ht \<Rightarrow> Some (0, ht))
         else Some (0, ht))" and v: "va_ok v" "wlocpos v = 396"
    by (rule init_first[OF k h])
  define ht1 where "ht1 = ht\<lparr>ht_data := v, ht_ents := zero_entries (ht_ents ht) 0 396, ht_free_list := 0,
      ht_slots := (replicate 32 0)[0 := 140], ht_size := 0, ht_mask := 31\<rparr>"
  note lay = first_slot_layout[OF v ht1_def]
  show ?thesis
  proof (cases "initial_size > 32")
    case False
    then have "hashtable_init k ht initial_size = Some (0, ht1)"
      using i by (simp add: ht1_def)
    then show ?thesis
      using that[of ht1] init_empty_ok[OF lay] False by (simp add: ht1_def)
  next
    case True
    define j where "j = Suc (ilog2 (initial_size - 1))"
    have np: "next_p2 initial_size = 2 ^ j" "initial_size \<le> 2 ^ j" "(2 :: nat) ^ j < 2 ^ 27"
      using next_p2_eq[of initial_size] p2_above[of initial_size] True sz by (simp_all add: j_def)
    have j: "6 \<le> j" "j < 27"
      using ilog2_ge5[of "initial_size - 1"] True power_less_imp_less_exp[OF _ np(3)]
      by (simp_all add: j_def)
    have u: "u32 (next_p2 initial_size * 2) = 2 ^ Suc j" "u32 (2 ^ Suc j + (2 ^ 32 - 1)) = 2 * 2 ^ j - 1"
      using np(1) grow_masks[of "Suc j"] grow_masks(2)[of j] j by (simp_all add: mult.commute)
    obtain ht' where h': "hashtable_init_slots k 1 (j - 3) 32 (ht1\<lparr>ht_mask := 2 * 2 ^ j - 1\<rparr>) = Some ht'"
        "ht_ok ht'" "ht_map ht' = Map.empty" "ht_mask ht' = 2 * 2 ^ j - 1"
      using init_slots_from_first[OF k lay _ _ _ j] v by (auto simp: ht1_def)
    have e: "Suc j - 5 + 1 = j - 3"
      using j by simp
    have call: "hashtable_init k ht initial_size = Some (0, ht')"
      using i True h'(1) by (simp add: u[simplified] ilog2_pow[of "Suc j", simplified] e[simplified] Let_def ht1_def)
    show ?thesis
      by (rule that[OF call h'(2,3)]) (use h'(4) np(2) in simp)
  qed
qed

section \<open>Removing\<close>

lemma recs_ok_remove:
  assumes ok: "recs_ok (add_mset (h, r) B) f wl fs" and f': "\<And>x. x \<in> snd ` set_mset B \<Longrightarrow> f' x = f x"
  shows "recs_ok B f' wl (r # fs)" "r \<notin> snd ` set_mset B"
proof -
  have mem: "x \<in> snd ` set_mset B" if "(g, x) \<in># B" for g x
    using that by force
  have c: "count (image_mset snd (add_mset (h, r) B)) x \<le> 1" for x
    using ok unfolding recs_ok_def by blast
  from c[of r] have "count (image_mset snd B) r = 0"
    by simp
  then show r: "r \<notin> snd ` set_mset B"
    by (simp add: count_eq_zero_iff)
  have "count (image_mset snd B) x \<le> 1" for x
    using c[of x] by (simp split: if_splits)
  moreover have "x < wl \<and> g = hashcode (f' x)" if "(g, x) \<in># B" for g x
  proof -
    have "(g, x) \<in># add_mset (h, r) B"
      using that by simp
    then have "x < wl \<and> g = hashcode (f x)"
      using ok unfolding recs_ok_def by blast
    then show ?thesis
      using f'[OF mem[OF that]] by simp
  qed
  moreover have "inj_on f' (snd ` set_mset B)"
    using ok f' by (auto simp: recs_ok_def inj_on_def)
  moreover have "distinct (r # fs)" "\<forall>x\<in>set (r # fs). x < wl \<and> x \<notin> snd ` set_mset B"
    using ok r by (auto simp: recs_ok_def)
  ultimately show "recs_ok B f' wl (r # fs)"
    unfolding recs_ok_def by blast
qed

lemma ht_map_delete:
  assumes "ht_ok ht" "ht_ok ht'" "set (ht_live ht) = insert r (set (ht_live ht'))" "r \<notin> set (ht_live ht')"
    "hashtable_get_key ht r = key" "\<And>x. x \<in> set (ht_live ht') \<Longrightarrow> hashtable_get_key ht' x = hashtable_get_key ht x"
  shows "ht_map ht' = (ht_map ht)(key := None)"
proof (rule ext)
  fix k'
  have inj: "inj_on (hashtable_get_key ht) (set (ht_live ht))"
    using assms(1) by (auto simp: ht_ok_def recs_ok_def set_ht_live)
  have "hashtable_get_key ht x \<noteq> key" if "x \<in> set (ht_live ht')" for x
    using inj_onD[OF inj, of x r] that assms(3-5) by auto
  then have "ht_map ht' k' = Some x \<longleftrightarrow> ((ht_map ht)(key := None)) k' = Some x" for x
    using assms(3,5,6) ht_map_Some[OF assms(1), of k' x] ht_map_Some[OF assms(2), of k' x]
    by auto
  then show "ht_map ht' k' = ((ht_map ht)(key := None)) k'"
    by (metis not_None_eq)
qed

lemma remove_found:
  assumes ok: "ht_ok ht" and b: "b \<le> ht_mask ht" "occ (ht_get ht) b" "e_rec (ht_get ht b) = r"
    and key: "hashtable_get_key ht r = key"
    and s: "s = ht\<lparr>ht_recs := (ht_recs ht)(r := x), ht_free_list := r, ht_size := ht_size ht - 1\<rparr>"
    and x: "r_w0 x = ht_free_list ht"
  obtains ht' where
    "oa_fix_chain_down ht_get ht_put (ht_mask ht) (nxt (ht_mask ht) b)
       (ht_put s b ((ht_get s b)\<lparr>e_rec := 0\<rparr>)) = Some ht'"
    "ht_ok ht'" "ht_map ht' = (ht_map ht)(key := None)" "ht_size ht' + 1 = ht_size ht"
    "\<forall>y\<in>set (ht_live ht'). ht_recs ht' y = ht_recs ht y"
proof -
  obtain n fs where n: "ht_layout ht n" "probe_ok (ht_get ht) (ht_mask ht)" "ht_size ht = size (ht_bag ht)"
      "2 * ht_size ht \<le> ht_mask ht + 1" "ht_mask ht + 1 = 2 ^ n"
      and fs: "recs_ok (ht_bag ht) (hashtable_get_key ht) (wlocpos (ht_data ht)) fs"
      "free_chain (ht_recs ht) (ht_free_list ht) fs"
    using ok by (rule ht_okE)
  have get: "ht_get s = ht_get ht"
    by (simp add: s)
  have m: "ht_mask ht = 2 ^ n - 1" "size (bag (ht_get ht) (ht_mask ht)) \<le> ht_mask ht"
    using n power_increasing[of 5 n "2 :: nat"] by (auto simp: ht_layout_def ht_bag_def)
  have v: "ht_valid s i" if "i \<le> ht_mask ht" for i
  proof -
    have "ht_valid ht i"
      using n(1) that by (auto simp: ht_layout_def intro: ht_valid_mono)
    then show ?thesis
      by (simp add: ht_valid_def s)
  qed
  obtain ht' where h:
    "oa_fix_chain_down ht_get ht_put (ht_mask ht) (nxt (ht_mask ht) b)
       (ht_put s b ((ht_get s b)\<lparr>e_rec := 0\<rparr>)) = Some ht'"
    "probe_ok (ht_get ht') (ht_mask ht)"
    "bag (ht_get ht) (ht_mask ht) = add_mset (e_hashcode (ht_get ht b), r) (bag (ht_get ht') (ht_mask ht))"
    "ht_frame ht' = ht_frame s" "\<And>i. ht_valid ht' i \<longleftrightarrow> ht_valid s i"
    using htb.delete_ok[of "ht_mask ht" n s b] m v n(2) b unfolding get by metis
  note fr = ht_frameD[OF h(4)]
  have bag: "ht_bag ht = add_mset (e_hashcode (ht_get ht b), r) (ht_bag ht')"
    using h(3) fr by (simp add: ht_bag_def s)
  have keys: "hashtable_get_key ht' y = hashtable_get_key ht y \<and> ht_recs ht' y = ht_recs ht y"
    if "y \<in> snd ` set_mset (ht_bag ht')" for y
  proof -
    have "y \<noteq> r"
      using recs_ok_remove(2)[OF fs(1)[unfolded bag] refl] that by auto
    then show ?thesis
      using fr by (simp add: s hashtable_get_key_def hashtable_get_key_size_def)
  qed
  have rk: "recs_ok (ht_bag ht') (hashtable_get_key ht') (wlocpos (ht_data ht)) (r # fs)"
      "r \<notin> snd ` set_mset (ht_bag ht')"
    using recs_ok_remove[OF fs(1)[unfolded bag], of "hashtable_get_key ht'"] keys by blast+
  have "free_chain (ht_recs ht') (ht_free_list ht') (r # fs)"
    using fs(2) rk(1) x b(2,3) fr by (simp add: s recs_ok_def occ_def)
  moreover have "ht_layout ht' n"
    using n(1) fr h(5) by (auto simp: ht_layout_def ht_valid_def s)
  moreover have "ht_size ht' = size (ht_bag ht')" "ht_size ht' + 1 = ht_size ht"
    using n(3) bag fr by (simp_all add: s)
  ultimately have ok': "ht_ok ht'"
    unfolding ht_ok_def using rk(1) h(2) fr n(4) by (auto simp: s)
  have "ht_map ht' = (ht_map ht)(key := None)"
    by (rule ht_map_delete[OF ok ok' _ _ key]) (use rk(2) keys bag in \<open>simp_all add: set_ht_live\<close>)
  then show ?thesis
    using that[OF h(1) ok' _ \<open>ht_size ht' + 1 = ht_size ht\<close>] keys by (simp add: set_ht_live)
qed

section \<open>Visiting\<close>

text \<open>Calling \<open>f\<close> on each element until it answers with a negative value: the result and the
  elements \<open>f\<close> was called with.\<close>

fun visit :: "(nat \<Rightarrow> int) \<Rightarrow> nat list \<Rightarrow> int \<times> nat list" where
  "visit f [] = (0, [])"
| "visit f (r # rs) =
     (if f r < 0 then (-1, [r]) else (let (e, v) = visit f rs in (e, r # v)))"

lemma visit_res: "fst (visit f rs) = 0 \<or> fst (visit f rs) = -1"
  by (induction rs) (auto simp: Let_def split: prod.splits)

lemma visit_append:
  "visit f (xs @ ys) =
     (if fst (visit f xs) = 0 then (fst (visit f ys), snd (visit f xs) @ snd (visit f ys)) else visit f xs)"
  by (induction xs) (auto simp: Let_def split: prod.splits)

lemma foreach_vect_visit:
  "ht_foreach_vect ht f a n =
     (let (e, v) = visit f (filter (\<lambda>r. r \<noteq> 0) (map (\<lambda>i. e_rec (ht_ents ht (a + 8 * i))) [0..<n]))
      in (e = 0, v))"
proof (induction n arbitrary: a)
  case (Suc n)
  have "map (\<lambda>i. e_rec (ht_ents ht (a + 8 * i))) [0..<Suc n] =
      e_rec (ht_ents ht a) # map (\<lambda>i. e_rec (ht_ents ht ((a + 8) + 8 * i))) [0..<n]"
    by (simp add: upt_conv_Cons map_Suc_upt[symmetric] algebra_simps del: upt_Suc)
  then show ?case
    using Suc[of "a + 8"] by (auto simp: Let_def split: prod.splits simp del: upt_Suc)
qed simp

definition vbase :: "nat \<Rightarrow> nat" where
  "vbase s = (if s = 0 then 0 else 2 ^ (s + 4))"

lemma vbase_step: "vbase s + vsize s = vbase (Suc s)"
  by (simp add: vbase_def vsize_def power_add)

lemma bucket_of_vector:
  assumes "i < vsize s"
  shows "hashtable_bucket ht (vbase s + i) = ht_slots ht ! s + 8 * i"
proof (cases "s = 0")
  case True
  then show ?thesis
    using assms by (simp add: hashtable_bucket_eq vslot_def vidx_def vbase_def vsize_def)
next
  case False
  then have "vslot (2 ^ (s + 4) + i) = s + 4 - 4 \<and> vidx (2 ^ (s + 4) + i) = 2 ^ (s + 4) + i - 2 ^ (s + 4)"
    using assms by (intro vslot_upper) (simp_all add: vsize_def)
  then show ?thesis
    using False by (simp add: hashtable_bucket_eq vbase_def)
qed

lemma foreach_slots_visit:
  assumes "s \<le> ns" "ns \<le> 27"
  shows "ht_foreach_slots ht f s ns (vsize s) =
    visit f (filter (\<lambda>r. r \<noteq> 0) (map (\<lambda>b. e_rec (ht_get ht b)) [vbase s..<vbase ns]))"
  using assms
proof (induction "ns - s" arbitrary: s)
  case 0
  then show ?case
    by (simp add: ht_foreach_slots.simps)
next
  case (Suc d)
  let ?L = "\<lambda>a b. filter (\<lambda>r. r \<noteq> 0) (map (\<lambda>b. e_rec (ht_get ht b)) [a..<b])"
  have s: "s < ns" "d = ns - Suc s"
    using Suc.hyps(2) by simp_all
  have nx: "(if s \<noteq> 0 then u32 (vsize s * 2) else vsize s) = vsize (Suc s)"
  proof -
    have "(2 :: nat) ^ (s + 4) * 2 < 2 ^ 32"
      using s(1) Suc.prems(2) power_strict_increasing[of "s + 5" 32 "2 :: nat"] by (simp add: power_add)
    then show ?thesis
      by (auto simp: vsize_def u32_small power_add)
  qed
  have "map (\<lambda>i. e_rec (ht_ents ht (ht_slots ht ! s + 8 * i))) [0..<vsize s] =
      map (\<lambda>b. e_rec (ht_get ht b)) [vbase s..<vbase (Suc s)]"
    by (rule nth_equalityI) (simp_all add: ht_get_def bucket_of_vector flip: vbase_step)
  then have v: "ht_foreach_vect ht f (ht_slots ht ! s) (vsize s) =
      (let (e, v) = visit f (?L (vbase s) (vbase (Suc s))) in (e = 0, v))"
    by (simp add: foreach_vect_visit)
  have le: "vbase (Suc s) \<le> vbase ns"
    using s(1) power_increasing[of "Suc s + 4" "ns + 4" "2 :: nat"] by (simp add: vbase_def)
  have "[vbase s..<vbase ns] = [vbase s..<vbase (Suc s)] @ [vbase (Suc s)..<vbase ns]"
    using le vbase_step[of s] by (metis le_add1 le_add_diff_inverse upt_add_eq_append)
  then have split: "?L (vbase s) (vbase ns) = ?L (vbase s) (vbase (Suc s)) @ ?L (vbase (Suc s)) (vbase ns)"
    by simp
  have ih: "ht_foreach_slots ht f (Suc s) ns (vsize (Suc s)) = visit f (?L (vbase (Suc s)) (vbase ns))"
    using Suc.hyps(1)[OF s(2)] s(1) Suc.prems(2) by simp
  have "ht_foreach_slots ht f s ns (vsize s) =
      (let (ok, rs) = ht_foreach_vect ht f (ht_slots ht ! s) (vsize s)
       in if \<not> ok then (-1, rs)
          else (let (res, rs') = ht_foreach_slots ht f (Suc s) ns (vsize (Suc s)) in (res, rs @ rs')))"
    using s(1) by (subst ht_foreach_slots.simps) (simp only: nx if_True Suc_eq_plus1)
  then show ?case
    unfolding split visit_append
    using visit_res[of f "?L (vbase s) (vbase (Suc s))"]
    by (auto simp: v ih Let_def split: prod.splits)
qed

lemma mset_live: "mset (filter (\<lambda>r. r \<noteq> 0) (map (\<lambda>b. e_rec (T b)) [0..<Suc m])) = image_mset snd (bag T m)"
  by (induction m) (auto simp: bag_def ebag_def)

lemma mset_ht_live: "mset (ht_live ht) = image_mset snd (ht_bag ht)"
  unfolding ht_live_def ht_bag_def by (rule mset_live)

lemma foreach_visit:
  assumes "ht_layout ht n"
  shows "hashtable_foreach ht f = visit f (ht_live ht)"
proof -
  have n: "5 \<le> n" "n \<le> 31" "ht_mask ht + 1 = 2 ^ n"
    using assms by (auto simp: ht_layout_def)
  have "(2 :: nat) ^ n \<le> 2 ^ 31"
    using n by (intro power_increasing) simp_all
  then have u: "u32 (2 ^ n) = 2 ^ n"
    by (intro u32_small) simp
  have "vbase (n - 4) = 2 ^ n" "n - 5 + 1 = n - 4"
    using n by (simp_all add: vbase_def)
  then show ?thesis
    using foreach_slots_visit[of 0 "n - 4" ht f] n
    unfolding hashtable_foreach_def n(3) u Let_def ilog2_pow ht_live_def Suc_eq_plus1
    by (simp add: vsize_def vbase_def)
qed

section \<open>Properties\<close>

lemma u32_pred: "0 < n \<Longrightarrow> n < 2 ^ 32 \<Longrightarrow> u32 (n + (2 ^ 32 - 1)) = n - 1"
proof -
  assume n: "0 < n" "n < 2 ^ 32"
  have "n + (2 ^ 32 - 1) = (n - 1) + 2 ^ 32" "(n - 1) mod 2 ^ 32 = n - 1"
    using n by simp_all
  then show ?thesis
    unfolding u32_def by (simp only: mod_add_self2)
qed

lemma ht_put_size: "(ht_put h b e)\<lparr>ht_size := n\<rparr> = ht_put (h\<lparr>ht_size := n\<rparr>) b e"
  by (simp add: ht_put_def hashtable_bucket_def)

lemma ht_size_small: "ht_ok ht \<Longrightarrow> ht_size ht < 2 ^ 32"
proof -
  assume "ht_ok ht"
  then obtain n where n: "ht_layout ht n" "2 * ht_size ht \<le> ht_mask ht + 1" "ht_mask ht + 1 = 2 ^ n"
    by (rule ht_okE)
  have "(2 :: nat) ^ n \<le> 2 ^ 31"
    using n(1) by (intro power_increasing) (auto simp: ht_layout_def)
  then show ?thesis
    using n(2) unfolding n(3) by simp
qed

text \<open>An empty table: \<open>hashtable_init\<close> on a zeroed structure.\<close>

definition ht_null :: hashtable where
  "ht_null = \<lparr>ht_data = VMALLOCATOR_INITIALIZER, ht_mask = 0, ht_size = 0, ht_free_list = 0,
     ht_slots = [], ht_ents = (\<lambda>_. \<lparr>e_hashcode = 0, e_rec = 0\<rparr>),
     ht_recs = (\<lambda>_. \<lparr>r_w0 = 0, r_w1 = 0, r_data = (\<lambda>_. 0)\<rparr>)\<rparr>"

definition ht_fresh :: hashtable where
  "ht_fresh = snd (the (hashtable_init generous ht_null 0))"

lemma ht_fresh_ok: "ht_ok ht_fresh" "ht_map ht_fresh = Map.empty" "ht_room ht_fresh 1000"
proof -
  obtain v where i: "hashtable_init generous ht_null 0 = Some (0, ht_null\<lparr>ht_data := v,
        ht_ents := zero_entries (ht_ents ht_null) 0 396, ht_free_list := 0,
        ht_slots := (replicate 32 0)[0 := 140], ht_size := 0, ht_mask := 31\<rparr>)"
      and v: "va_ok v" "wlocpos v = 396"
    using init_first[OF grants_generous, of ht_null 0] by (simp add: ht_null_def Let_def) blast
  have eq: "ht_fresh = ht_null\<lparr>ht_data := v, ht_ents := zero_entries (ht_ents ht_null) 0 396,
      ht_free_list := 0, ht_slots := (replicate 32 0)[0 := 140], ht_size := 0, ht_mask := 31\<rparr>"
    by (simp add: ht_fresh_def i)
  note lay = first_slot_layout[OF v eq]
  show "ht_ok ht_fresh" "ht_map ht_fresh = Map.empty"
    using init_empty_ok[OF lay] by (simp_all add: eq)
  show "ht_room ht_fresh 1000"
    using v(2) by (simp add: ht_room_def eq)
qed



text \<open>C3. In a well-formed table the probing loop of \<open>hashtable_lookup\<close> always ends, and its
  result is the record the table maps the key to, or 0 when the key is absent.\<close>

theorem hashtable_lookup_correct:
  assumes "ht_ok ht"
  shows "hashtable_lookup ht key = Some (case ht_map ht key of None \<Rightarrow> 0 | Some r \<Rightarrow> r)"
proof -
  obtain b where b: "ht_search ht key = Some b" "b \<le> ht_mask ht"
    "\<forall>r. ht_map ht key = Some r \<longrightarrow> occ (ht_get ht) b \<and> e_rec (ht_get ht b) = r"
    "ht_map ht key = None \<longrightarrow> \<not> occ (ht_get ht) b \<and>
       (\<forall>j\<le>ht_mask ht. cyc_between (hashcode key AND ht_mask ht) j b \<and> j \<noteq> b \<longrightarrow> occ (ht_get ht) j)"
    using assms by (rule ht_search_ok)
  then show ?thesis
    by (cases "ht_map ht key") (auto simp: hashtable_lookup_def occ_def)
qed

theorem hashtable_lookup_correct_witness: "hashtable_lookup ht_fresh [1, 2] = Some 0"
  using hashtable_lookup_correct[OF ht_fresh_ok(1), of "[1, 2]"] ht_fresh_ok(2) by simp

text \<open>C2. Removing a key from a well-formed table always returns, with the reference of the record
  that held the key or 0.  The table stays well formed although the cluster behind the
  freed bucket has been compacted, exactly the key has gone from the mapping, and the
  surviving records keep their bytes.\<close>

theorem hashtable_remove_correct:
  assumes "ht_ok ht"
  shows "\<exists>ht'. hashtable_remove ht key = Some (case ht_map ht key of None \<Rightarrow> 0 | Some r \<Rightarrow> r, ht') \<and>
    ht_ok ht' \<and> ht_map ht' = (ht_map ht)(key := None) \<and>
    (\<forall>y\<in>set (ht_live ht'). hashtable_get_rec ht' y = hashtable_get_rec ht y)"
proof -
  obtain b where b: "ht_search ht key = Some b" "b \<le> ht_mask ht"
    "\<forall>r. ht_map ht key = Some r \<longrightarrow> occ (ht_get ht) b \<and> e_rec (ht_get ht b) = r"
    "ht_map ht key = None \<longrightarrow> \<not> occ (ht_get ht) b \<and>
       (\<forall>j\<le>ht_mask ht. cyc_between (hashcode key AND ht_mask ht) j b \<and> j \<noteq> b \<longrightarrow> occ (ht_get ht) j)"
    using assms by (rule ht_search_ok)
  show ?thesis
  proof (cases "ht_map ht key")
    case None
    then have "hashtable_remove ht key = Some (0, ht)"
      using b by (simp add: hashtable_remove_def occ_def)
    then show ?thesis
      using None assms by (auto simp: fun_upd_idem)
  next
    case (Some r)
    then have r: "occ (ht_get ht) b" "e_rec (ht_get ht b) = r" "hashtable_get_key ht r = key"
      using b(3) ht_map_Some[OF assms] by auto
    define x where "x = (ht_recs ht r)\<lparr>r_w1 := u32 (r_w0 (ht_recs ht r) + r_w1 (ht_recs ht r)), r_w0 := ht_free_list ht\<rparr>"
    define s where "s = ht\<lparr>ht_recs := (ht_recs ht)(r := x), ht_free_list := r, ht_size := ht_size ht - 1\<rparr>"
    have "r_w0 x = ht_free_list ht"
      by (simp add: x_def)
    from remove_found[OF assms b(2) r s_def this]
    obtain h' where h': "oa_fix_chain_down ht_get ht_put (ht_mask ht) (nxt (ht_mask ht) b)
         (ht_put s b ((ht_get s b)\<lparr>e_rec := 0\<rparr>)) = Some h'"
      "ht_ok h'" "ht_map h' = (ht_map ht)(key := None)" "ht_size h' + 1 = ht_size ht"
      "\<forall>y\<in>set (ht_live h'). ht_recs h' y = ht_recs ht y"
      by blast
    have "u32 (ht_size ht + (2 ^ 32 - 1)) = ht_size ht - 1"
      using ht_size_small[OF assms] h'(4) by (intro u32_pred) simp_all
    then have "hashtable_remove ht key = Some (r, h')"
      using b(1) r(1,2) h'(1)
      by (simp add: hashtable_remove_def occ_def Let_def hashtable_fix_chain_down_def ht_set_rec_def
          x_def s_def ht_put_size)
    then show ?thesis
      using h' Some by (auto simp: hashtable_get_rec_def hashtable_get_key_def hashtable_get_val_def
          hashtable_get_key_size_def hashtable_get_val_size_def)
  qed
qed

theorem hashtable_remove_correct_witness:
  "\<exists>ht'. hashtable_remove ht_fresh [7] = Some (0, ht') \<and> ht_ok ht' \<and> ht_map ht' = Map.empty"
  using hashtable_remove_correct[OF ht_fresh_ok(1), of "[7]"] ht_fresh_ok(2) by auto



text \<open>C5. Initialising a table for up to 67108864 records, on a zeroed structure, gives a
  well-formed empty table with at least as many buckets.\<close>

theorem hashtable_init_correct:
  assumes "grants k" "ht_data ht = VMALLOCATOR_INITIALIZER" "initial_size \<le> 2 ^ 26"
  shows "\<exists>ht'. hashtable_init k ht initial_size = Some (0, ht') \<and> ht_ok ht' \<and>
    ht_map ht' = Map.empty \<and> initial_size \<le> ht_mask ht' + 1"
  using init_ok[OF assms] by metis

theorem hashtable_init_correct_witness:
  "\<exists>ht'. hashtable_init generous ht_null 1000 = Some (0, ht') \<and> ht_ok ht' \<and> 1000 \<le> ht_mask ht' + 1"
  using hashtable_init_correct[OF grants_generous, of ht_null 1000] by (auto simp: ht_null_def)

text \<open>C6. \<open>hashtable_foreach\<close> calls the callback on the live records in bucket order, each exactly
  once, until the callback answers with a negative value: walking the vectors of the
  table reaches every bucket and no other memory.\<close>

theorem hashtable_foreach_visits:
  assumes "ht_ok ht"
  shows "hashtable_foreach ht func = visit func (ht_live ht) \<and> distinct (ht_live ht) \<and>
    length (ht_live ht) = ht_size ht \<and> set (ht_live ht) = ran (ht_map ht)"
proof -
  obtain n fs where n: "ht_layout ht n" "ht_size ht = size (ht_bag ht)"
      "recs_ok (ht_bag ht) (hashtable_get_key ht) (wlocpos (ht_data ht)) fs"
    using assms by (rule ht_okE)
  have "length (ht_live ht) = ht_size ht"
    unfolding n(2) by (metis mset_ht_live size_image_mset size_mset)
  moreover have "distinct (ht_live ht)"
    unfolding distinct_count_atmost_1
  proof
    fix a
    have "count (mset (ht_live ht)) a \<le> 1"
      using n(3) unfolding mset_ht_live recs_ok_def by blast
    moreover have "count (mset (ht_live ht)) a = 0 \<longleftrightarrow> a \<notin> set (ht_live ht)"
      by (simp add: count_eq_zero_iff)
    ultimately show "count (mset (ht_live ht)) a = (if a \<in> set (ht_live ht) then 1 else 0)"
      by (metis le_antisym less_one not_le)
  qed
  moreover have "set (ht_live ht) = ran (ht_map ht)"
    using ht_map_Some[OF assms] by (auto simp: ran_def)
  ultimately show ?thesis
    using foreach_visit[OF n(1)] by blast
qed

theorem hashtable_foreach_visits_witness: "hashtable_foreach ht_fresh (\<lambda>_. 0) = (0, [])"
proof -
  have "ht_live ht_fresh = []"
    using hashtable_foreach_visits[OF ht_fresh_ok(1)] ht_fresh_ok(2) by simp
  then show ?thesis
    using hashtable_foreach_visits[OF ht_fresh_ok(1), of "\<lambda>_. 0"] by simp
qed

end
