(* ===== verification/Mempool.thy ===== *)
theory Mempool
  imports Hash_Funcs
begin

text \<open>
  \<^verbatim>\<open>src/mempool.c\<close>: the process-wide pool of memory chunks whose sizes are the powers of two
  from 4 KiB to 2 GiB.  A chunk that is given back is pushed on the free list of its size,
  which is threaded through the chunks themselves, and is handed out again before the
  kernel is asked for memory.

  \<open>mp_next\<close> is the field \<^verbatim>\<open>next\<close> of \<^verbatim>\<open>struct memchunk\<close> by address.  \<open>mp_mapped\<close> lists the regions
  of the address space in use, those the process had before and the mappings obtained
  since: the answer of \<^verbatim>\<open>mmap\<close>, the parameter \<open>mm\<close>, depends on them, and
  \<open>mmap_fresh\<close> says that a new mapping overlaps none of them.  The locale \<open>chunk_pool\<close> is what the
  allocators of the library rely on.
\<close>

section \<open>State and operations\<close>

record memchunks =
  num_chunks :: nat
  num_free_chunks :: nat
  mc_head :: nat

record mempool =
  mp_chunks :: "memchunks list"
  mp_next :: "nat \<Rightarrow> nat"
  mp_mapped :: "(nat \<times> nat) list"

type_synonym mmap_fun = "(nat \<times> nat) list \<Rightarrow> nat \<Rightarrow> nat option"

definition MIN_CHUNK_SIZE_BITS :: nat where
  "MIN_CHUNK_SIZE_BITS = 12"

definition MIN_CHUNK_SIZE :: nat where
  "MIN_CHUNK_SIZE = 2 ^ MIN_CHUNK_SIZE_BITS"

definition MAX_CHUNK_SIZE :: nat where
  "MAX_CHUNK_SIZE = 2 ^ 31"

definition NUM_CHUNK_BUCKETS :: nat where
  "NUM_CHUNK_BUCKETS = 32 - MIN_CHUNK_SIZE_BITS"

definition mempool_initial :: "(nat \<times> nat) list \<Rightarrow> mempool" where
  "mempool_initial rs =
     \<lparr>mp_chunks = replicate NUM_CHUNK_BUCKETS \<lparr>num_chunks = 0, num_free_chunks = 0, mc_head = 0\<rparr>,
      mp_next = (\<lambda>_. 0), mp_mapped = rs\<rparr>"

definition mempool_alloc_validate_size :: "nat \<Rightarrow> int" where
  "mempool_alloc_validate_size s =
     (if s > MAX_CHUNK_SIZE then -1
      else if s < MIN_CHUNK_SIZE \<or> s \<noteq> next_p2 s then -1
      else 0)"

text \<open>The pointer, 0 for \<^verbatim>\<open>NULL\<close>, and the pool.\<close>

definition mempool_alloc_chunk :: "mmap_fun \<Rightarrow> mempool \<Rightarrow> nat \<Rightarrow> nat \<times> mempool" where
  "mempool_alloc_chunk mm p s =
     (if mempool_alloc_validate_size s < 0 then (0, p)
      else
        (let chunk_index = ilog2 s - MIN_CHUNK_SIZE_BITS;
             c = mp_chunks p ! chunk_index;
             mem = mc_head c
         in if mem = 0 then
              (let p = p\<lparr>mp_chunks := (mp_chunks p)[chunk_index := c\<lparr>num_chunks := num_chunks c + 1\<rparr>]\<rparr>
               in case mm (mp_mapped p) s of
                    None \<Rightarrow> (0, p)
                  | Some a \<Rightarrow> (a, p\<lparr>mp_mapped := (a, s) # mp_mapped p\<rparr>))
            else
              (mem, p\<lparr>mp_chunks := (mp_chunks p)[chunk_index :=
                        c\<lparr>mc_head := mp_next p (mc_head c),
                          num_free_chunks := num_free_chunks c - 1\<rparr>]\<rparr>)))"

definition mempool_free_chunk :: "mempool \<Rightarrow> nat \<Rightarrow> nat \<Rightarrow> int \<times> mempool" where
  "mempool_free_chunk p a s =
     (if mempool_alloc_validate_size s < 0 then (-1, p)
      else
        (let chunk_index = ilog2 s - MIN_CHUNK_SIZE_BITS;
             c = mp_chunks p ! chunk_index
         in (0, p\<lparr>mp_next := (mp_next p)(a := mc_head c),
                  mp_chunks := (mp_chunks p)[chunk_index :=
                    c\<lparr>mc_head := a, num_free_chunks := num_free_chunks c + 1\<rparr>]\<rparr>)))"

text \<open>The lines \<^verbatim>\<open>mempool_dump_stats\<close> logs: size, chunks and free chunks of every size in use.\<close>

definition mempool_dump_stats :: "mempool \<Rightarrow> (nat \<times> nat \<times> nat) list" where
  "mempool_dump_stats p =
     map (\<lambda>i. (MIN_CHUNK_SIZE * 2 ^ i, num_chunks (mp_chunks p ! i), num_free_chunks (mp_chunks p ! i)))
       (filter (\<lambda>i. 0 < num_chunks (mp_chunks p ! i)) [0..<NUM_CHUNK_BUCKETS])"

section \<open>Regions of memory\<close>

fun apart :: "nat \<times> nat \<Rightarrow> nat \<times> nat \<Rightarrow> bool" where
  "apart (a, s) (b, t) \<longleftrightarrow> a + s \<le> b \<or> b + t \<le> a"

definition regions_ok :: "(nat \<times> nat) multiset \<Rightarrow> bool" where
  "regions_ok M \<longleftrightarrow> (\<forall>r \<in># M. \<forall>q \<in># M - {#r#}. apart r q)"

lemma apart_sym: "apart r q \<longleftrightarrow> apart q r"
  by (cases r; cases q) auto

lemma regions_ok_empty [simp]: "regions_ok {#}"
  by (simp add: regions_ok_def)

lemma regions_ok_add:
  "regions_ok (add_mset r M) \<longleftrightarrow> regions_ok M \<and> (\<forall>q \<in># M. apart r q)"
proof (intro iffI conjI ballI)
  assume r: "regions_ok (add_mset r M)"
  show "regions_ok M"
    unfolding regions_ok_def
  proof (intro ballI)
    fix x q
    assume "x \<in># M" "q \<in># M - {#x#}"
    then have "x \<in># add_mset r M" "q \<in># add_mset r M - {#x#}"
      by (simp_all add: in_diff_count)
    then show "apart x q"
      using r unfolding regions_ok_def by blast
  qed
  show "apart r q" if "q \<in># M" for q
    using r that by (simp add: regions_ok_def)
next
  assume r: "regions_ok M \<and> (\<forall>q \<in># M. apart r q)"
  show "regions_ok (add_mset r M)"
    unfolding regions_ok_def
  proof (intro ballI)
    fix x q
    assume x: "x \<in># add_mset r M" "q \<in># add_mset r M - {#x#}"
    consider "x = r" | "x \<noteq> r" "q = r" | "x \<noteq> r" "q \<noteq> r"
      by blast
    then show "apart x q"
    proof cases
      case 1
      then show ?thesis using x r by simp
    next
      case 2
      then show ?thesis using x r apart_sym[of x r] by simp
    next
      case 3
      then have "x \<in># M" "q \<in># M - {#x#}"
        using x by (simp_all add: in_diff_count split: if_splits)
      then show ?thesis using r unfolding regions_ok_def by blast
    qed
  qed
qed

lemma regions_ok_sub: "regions_ok (M + N) \<Longrightarrow> regions_ok M"
  by (induction N) (auto simp: regions_ok_add)

lemma regions_ok_notin:
  assumes "regions_ok (add_mset (a, s) M)" "0 < s" "0 < t"
  shows "(a, t) \<notin># M"
  using assms by (force simp: regions_ok_add)

section \<open>Free lists\<close>

fun chain :: "(nat \<Rightarrow> nat) \<Rightarrow> nat \<Rightarrow> nat list \<Rightarrow> bool" where
  "chain nx h [] \<longleftrightarrow> h = 0"
| "chain nx h (x # xs) \<longleftrightarrow> h = x \<and> x \<noteq> 0 \<and> chain nx (nx x) xs"

lemma chain_upd [simp]: "a \<notin> set xs \<Longrightarrow> chain (nx(a := b)) h xs = chain nx h xs"
  by (induction xs arbitrary: h) auto

lemma chain_head: "chain nx h xs \<Longrightarrow> h = 0 \<longleftrightarrow> xs = []"
  by (cases xs) auto

abbreviation chunk_size :: "nat \<Rightarrow> nat" where
  "chunk_size i \<equiv> 2 ^ (12 + i)"

definition free_chunks :: "(nat \<Rightarrow> nat list) \<Rightarrow> (nat \<times> nat) multiset" where
  "free_chunks fl = (\<Sum>i<20. image_mset (\<lambda>a. (a, chunk_size i)) (mset (fl i)))"

definition pool_ok :: "mempool \<Rightarrow> (nat \<Rightarrow> nat list) \<Rightarrow> (nat \<times> nat) multiset \<Rightarrow> bool" where
  "pool_ok p fl live \<longleftrightarrow>
     length (mp_chunks p) = 20 \<and>
     (\<forall>i<20. chain (mp_next p) (mc_head (mp_chunks p ! i)) (fl i) \<and>
            num_free_chunks (mp_chunks p ! i) = length (fl i)) \<and>
     mset (mp_mapped p) = live + free_chunks fl \<and>
     regions_ok (mset (mp_mapped p)) \<and>
     (\<forall>(a, s) \<in> set (mp_mapped p). 0 < a \<and> 0 < s \<and> a + s < 2 ^ 64)"

definition mmap_fresh :: "mmap_fun \<Rightarrow> bool" where
  "mmap_fresh mm \<longleftrightarrow>
     (\<forall>rs s a. mm rs s = Some a \<longrightarrow> 0 < a \<and> a + s < 2 ^ 64 \<and> (\<forall>q \<in> set rs. apart (a, s) q))"

lemma free_chunks_upd:
  assumes "i < 20"
  shows "free_chunks (fl(i := x # fl i)) = add_mset (x, chunk_size i) (free_chunks fl)"
proof -
  let ?f = "\<lambda>fl i. image_mset (\<lambda>a. (a, chunk_size i)) (mset (fl i))"
  have "free_chunks fl' = ?f fl' i + (\<Sum>j\<in>{..<20} - {i}. ?f fl' j)" for fl'
    unfolding free_chunks_def using assms by (intro sum.remove) auto
  moreover have "(\<Sum>j\<in>{..<20} - {i}. ?f (fl(i := x # fl i)) j) = (\<Sum>j\<in>{..<20} - {i}. ?f fl j)"
    by (intro sum.cong) auto
  ultimately show ?thesis
    by simp
qed

lemma free_chunks_mem:
  "(a, s) \<in># free_chunks fl \<longleftrightarrow> (\<exists>i<20. s = chunk_size i \<and> a \<in> set (fl i))"
  by (auto simp: free_chunks_def set_mset_sum)

lemma next_p2_fixed:
  assumes "2 \<le> s" "s \<le> 2 ^ 31"
  shows "s = next_p2 s \<longleftrightarrow> (\<exists>k. s = 2 ^ k)"
proof
  show "\<exists>k. s = 2 ^ k" if "s = next_p2 s"
    using that next_p2_eq[OF assms] by (metis power_Suc)
next
  assume "\<exists>k. s = 2 ^ k"
  then obtain k where k: "s = 2 ^ k"
    by blast
  then obtain j where j: "k = Suc j"
    using assms(1) by (cases k) auto
  have "(2 :: nat) ^ j \<le> 2 ^ k - 1" "(2 :: nat) ^ k - 1 < 2 * 2 ^ j"
    using j by simp_all
  then have "ilog2 (s - 1) = j"
    unfolding k by (rule ilog2_unique)
  then show "s = next_p2 s"
    using next_p2_eq[OF assms] k j by simp
qed

lemma validate_size_iff: "\<not> mempool_alloc_validate_size s < 0 \<longleftrightarrow> (\<exists>i<20. s = chunk_size i)"
proof
  assume v: "\<not> mempool_alloc_validate_size s < 0"
  then have s: "2 ^ 12 \<le> s" "s \<le> 2 ^ 31" "s = next_p2 s"
    by (auto simp: mempool_alloc_validate_size_def MIN_CHUNK_SIZE_def MIN_CHUNK_SIZE_BITS_def
        MAX_CHUNK_SIZE_def split: if_splits)
  then obtain k where k: "s = 2 ^ k"
    using next_p2_fixed[of s] by auto
  have "(2 :: nat) ^ 12 \<le> 2 ^ k" "(2 :: nat) ^ k \<le> 2 ^ 31"
    using s k by simp_all
  then have "12 \<le> k" "k \<le> 31"
    using power_le_imp_le_exp[of "2 :: nat" 12 k] power_le_imp_le_exp[of "2 :: nat" k 31] by simp_all
  then show "\<exists>i<20. s = chunk_size i"
    using k by (intro exI[of _ "k - 12"]) auto
next
  assume "\<exists>i<20. s = chunk_size i"
  then obtain i where i: "i < 20" "s = 2 ^ (12 + i)"
    by blast
  have "(2 :: nat) ^ 12 \<le> 2 ^ (12 + i)" "(2 :: nat) ^ (12 + i) \<le> 2 ^ 31"
    using i(1) by (intro power_increasing; simp)+
  then have "4096 \<le> s" "s \<le> 2 ^ 31"
    using i by simp_all
  then show "\<not> mempool_alloc_validate_size s < 0"
    using next_p2_fixed[of s] i(2)
    by (auto simp: mempool_alloc_validate_size_def MIN_CHUNK_SIZE_def MIN_CHUNK_SIZE_BITS_def
        MAX_CHUNK_SIZE_def)
qed

lemma chunk_index: "ilog2 (chunk_size i) - MIN_CHUNK_SIZE_BITS = i"
  by (simp only: ilog2_pow MIN_CHUNK_SIZE_BITS_def diff_add_inverse)

section \<open>Conservation of chunks\<close>

lemma pool_ok_initial:
  assumes "regions_ok (mset rs)" "\<forall>(a, s) \<in> set rs. 0 < a \<and> 0 < s \<and> a + s < 2 ^ 64"
  shows "pool_ok (mempool_initial rs) (\<lambda>_. []) (mset rs)"
  using assms by (simp add: pool_ok_def mempool_initial_def NUM_CHUNK_BUCKETS_def
      MIN_CHUNK_SIZE_BITS_def free_chunks_def)

lemma pool_chunks_upd:
  assumes "pool_ok p fl live" "i < 20"
  shows "pool_ok (p\<lparr>mp_chunks := (mp_chunks p)[i := (mp_chunks p ! i)\<lparr>num_chunks := n\<rparr>]\<rparr>) fl live"
  using assms by (auto simp: pool_ok_def nth_list_update)

lemma pool_ok_regions: "pool_ok p fl live \<Longrightarrow> regions_ok (live + free_chunks fl)"
  unfolding pool_ok_def by metis

lemma pool_map:
  assumes "pool_ok p fl live" "mmap_fresh mm" "mm (mp_mapped p) s = Some a" "0 < s"
  shows "pool_ok (p\<lparr>mp_mapped := (a, s) # mp_mapped p\<rparr>) fl (add_mset (a, s) live)"
proof -
  have "0 < a" "a + s < 2 ^ 64" "\<forall>q \<in> set (mp_mapped p). apart (a, s) q"
    using assms(2,3) unfolding mmap_fresh_def by blast+
  then show ?thesis
    using assms(1,4) pool_ok_regions[OF assms(1)] unfolding pool_ok_def
    by (simp add: regions_ok_add flip: set_mset_mset)
qed

lemma pool_pop:
  assumes "pool_ok p fl live" "i < 20" "fl i = x # xs"
  shows "pool_ok (p\<lparr>mp_chunks := (mp_chunks p)[i :=
            (mp_chunks p ! i)\<lparr>mc_head := mp_next p x, num_free_chunks := num_free_chunks (mp_chunks p ! i) - 1\<rparr>]\<rparr>)
          (fl(i := xs)) (add_mset (x, chunk_size i) live)"
proof -
  have "fl = (fl(i := xs))(i := x # (fl(i := xs)) i)"
    using assms(3) by auto
  then have "free_chunks fl = add_mset (x, chunk_size i) (free_chunks (fl(i := xs)))"
    using free_chunks_upd[OF assms(2), of "fl(i := xs)" x] by simp
  moreover have "chain (mp_next p) (mp_next p x) xs" "num_free_chunks (mp_chunks p ! i) = Suc (length xs)"
    using assms by (auto simp: pool_ok_def)
  ultimately show ?thesis
    using assms(1,2) by (auto simp: pool_ok_def nth_list_update)
qed

lemma pool_ok_live:
  assumes "pool_ok p fl live" "(a, s) \<in># live"
  shows "0 < a" "0 < s" "a + s < 2 ^ 64"
proof -
  have "(a, s) \<in> set (mp_mapped p)"
    using assms unfolding pool_ok_def by (metis set_mset_mset union_iff)
  then show "0 < a" "0 < s" "a + s < 2 ^ 64"
    using assms(1) unfolding pool_ok_def by blast+
qed

lemma live_not_free:
  assumes "pool_ok p fl (add_mset (a, s) live)" "i < 20"
  shows "a \<notin> set (fl i)"
proof
  assume "a \<in> set (fl i)"
  then have "(a, chunk_size i) \<in># live + free_chunks fl"
    using assms(2) by (auto simp: free_chunks_mem)
  moreover have "regions_ok (add_mset (a, s) (live + free_chunks fl))" "0 < s"
    using pool_ok_live(2)[OF assms(1), of a s] pool_ok_regions[OF assms(1)] by simp_all
  ultimately show False
    using regions_ok_notin[of a s "live + free_chunks fl" "chunk_size i"] by simp
qed

lemma pool_push:
  assumes "pool_ok p fl (add_mset (a, chunk_size i) live)" "i < 20"
  shows "pool_ok (p\<lparr>mp_next := (mp_next p)(a := mc_head (mp_chunks p ! i)),
                  mp_chunks := (mp_chunks p)[i := (mp_chunks p ! i)\<lparr>mc_head := a,
                    num_free_chunks := num_free_chunks (mp_chunks p ! i) + 1\<rparr>]\<rparr>)
          (fl(i := a # fl i)) live"
proof -
  have "a \<notin> set (fl j)" if "j < 20" for j
    by (rule live_not_free[OF assms(1) that])
  moreover have "0 < a"
    using pool_ok_live(1)[OF assms(1), of a "chunk_size i"] by simp
  ultimately show ?thesis
    using assms free_chunks_upd[OF assms(2), of fl a] by (auto simp: pool_ok_def nth_list_update)
qed

lemma mempool_alloc_ok:
  assumes "pool_ok p fl live" "mmap_fresh mm" "mempool_alloc_chunk mm p s = (a, p')"
  shows "if a = 0 then pool_ok p' fl live
         else \<exists>i<20. s = chunk_size i \<and> (\<exists>fl'. pool_ok p' fl' (add_mset (a, s) live))"
proof (cases "mempool_alloc_validate_size s < 0")
  case True
  then show ?thesis
    using assms by (simp add: mempool_alloc_chunk_def)
next
  case False
  then obtain i where i: "i < 20" "s = chunk_size i"
    using validate_size_iff by blast
  let ?c = "mp_chunks p ! i"
  note def = mempool_alloc_chunk_def[of mm p s]
  have ch: "chain (mp_next p) (mc_head ?c) (fl i)"
    using assms(1) i(1) by (simp add: pool_ok_def)
  show ?thesis
  proof (cases "fl i")
    case Nil
    let ?p = "p\<lparr>mp_chunks := (mp_chunks p)[i := ?c\<lparr>num_chunks := num_chunks ?c + 1\<rparr>]\<rparr>"
    have p: "pool_ok ?p fl live"
      by (rule pool_chunks_upd[OF assms(1) i(1)])
    show ?thesis
    proof (cases "mm (mp_mapped p) s")
      case None
      then have "(a, p') = (0, ?p)"
        using assms(3) def False ch Nil unfolding i(2) chunk_index by (simp add: Let_def)
      then show ?thesis
        using p by simp
    next
      case (Some b)
      have "0 < b"
        using Some assms(2) unfolding mmap_fresh_def by blast
      moreover have "pool_ok (?p\<lparr>mp_mapped := (b, s) # mp_mapped ?p\<rparr>) fl (add_mset (b, s) live)"
        by (rule pool_map[OF p assms(2)]) (use Some i in simp_all)
      moreover have "(a, p') = (b, ?p\<lparr>mp_mapped := (b, s) # mp_mapped ?p\<rparr>)"
        using assms(3) def False ch Nil Some unfolding i(2) chunk_index by (auto simp: Let_def)
      ultimately show ?thesis
        using i by auto
    qed
  next
    case (Cons x xs)
    then have "(a, p') = (x, p\<lparr>mp_chunks := (mp_chunks p)[i :=
        ?c\<lparr>mc_head := mp_next p x, num_free_chunks := num_free_chunks ?c - 1\<rparr>]\<rparr>)" "x \<noteq> 0"
      using assms(3) def False ch unfolding i(2) chunk_index by (auto simp: Let_def)
    then show ?thesis
      using pool_pop[OF assms(1) i(1) Cons] i by auto
  qed
qed

lemma mempool_free_ok:
  assumes "pool_ok p fl (add_mset (a, chunk_size i) live)" "i < 20"
  shows "\<exists>p'. mempool_free_chunk p a (chunk_size i) = (0, p') \<and>
           pool_ok p' (fl(i := a # fl i)) live"
proof -
  have "\<not> mempool_alloc_validate_size (chunk_size i) < 0"
    using validate_size_iff assms(2) by blast
  then show ?thesis
    using pool_push[OF assms] unfolding mempool_free_chunk_def chunk_index by (simp add: Let_def)
qed

text \<open>A chunk that was given back is the next one of its size to be handed out, and the kernel
  is not asked.\<close>

lemma mempool_free_alloc:
  assumes "i < 20" "length (mp_chunks p) = 20" "a \<noteq> 0"
  shows "fst (mempool_alloc_chunk mm (snd (mempool_free_chunk p a (chunk_size i))) (chunk_size i)) = a"
proof -
  have "\<not> mempool_alloc_validate_size (chunk_size i) < 0"
    using validate_size_iff assms(1) by blast
  then show ?thesis
    using assms unfolding mempool_free_chunk_def mempool_alloc_chunk_def chunk_index
    by (simp add: Let_def)
qed

section \<open>The contract\<close>

definition pool_inv :: "mmap_fun \<Rightarrow> mempool \<Rightarrow> (nat \<times> nat) multiset \<Rightarrow> bool" where
  "pool_inv mm p live \<longleftrightarrow> mmap_fresh mm \<and> (\<exists>fl. pool_ok p fl live)"

definition chunk_sized :: "nat \<Rightarrow> bool" where
  "chunk_sized s \<longleftrightarrow> (\<exists>i<20. s = chunk_size i)"

locale chunk_pool =
  fixes alloc :: "'p \<Rightarrow> nat \<Rightarrow> nat \<times> 'p"
    and free :: "'p \<Rightarrow> nat \<Rightarrow> nat \<Rightarrow> int \<times> 'p"
    and inv :: "'p \<Rightarrow> (nat \<times> nat) multiset \<Rightarrow> bool"
  assumes alloc_null: "inv p L \<Longrightarrow> alloc p s = (0, p') \<Longrightarrow> inv p' L"
    and alloc_chunk: "inv p L \<Longrightarrow> alloc p s = (a, p') \<Longrightarrow> a \<noteq> 0 \<Longrightarrow> chunk_sized s \<and> inv p' (add_mset (a, s) L)"
    and free_chunk: "inv p (add_mset (a, s) L) \<Longrightarrow> chunk_sized s \<Longrightarrow> \<exists>p'. free p a s = (0, p') \<and> inv p' L"
    and inv_regions: "inv p L \<Longrightarrow> regions_ok L \<and> (\<forall>(a, s) \<in># L. 0 < a \<and> 0 < s \<and> a + s < 2 ^ 64)"
begin

lemma alloc_disjoint:
  assumes "inv p L" "alloc p s = (a, p')" "a \<noteq> 0" "q \<in># L"
  shows "apart (a, s) q"
proof -
  have "regions_ok (add_mset (a, s) L)"
    using alloc_chunk[OF assms(1-3)] inv_regions by blast
  then show ?thesis
    using assms(4) by (simp add: regions_ok_add)
qed

text \<open>Giving back a list of chunks, each with its own size.\<close>

lemma free_list:
  assumes "inv p (mset bs + L)" "\<And>a s. (a, s) \<in> set bs \<Longrightarrow> chunk_sized s"
  shows "inv (foldl (\<lambda>p (a, s). snd (free p a s)) p bs) L"
  using assms
proof (induction bs arbitrary: p)
  case (Cons b bs)
  obtain a s where b: "b = (a, s)"
    by force
  obtain p' where "free p a s = (0, p')" "inv p' (mset bs + L)"
    using free_chunk[of p a s "mset bs + L"] Cons(2,3) b by auto
  moreover have "inv (foldl (\<lambda>p (a, s). snd (free p a s)) p' bs) L"
    by (rule Cons(1)) (use calculation Cons(3) in auto)
  ultimately show ?case
    using b by simp
qed simp

end

lemma pool_inv_regions:
  assumes "pool_inv mm p L"
  shows "regions_ok L \<and> (\<forall>(a, s) \<in># L. 0 < a \<and> 0 < s \<and> a + s < 2 ^ 64)"
proof -
  obtain fl where p: "pool_ok p fl L"
    using assms unfolding pool_inv_def by blast
  show ?thesis
    using regions_ok_sub[OF pool_ok_regions[OF p]] pool_ok_live[OF p] by blast
qed

interpretation mp: chunk_pool "mempool_alloc_chunk mm" mempool_free_chunk "pool_inv mm" for mm
proof (unfold_locales, goal_cases)
  case (1 p L s p')
  then show ?case
    using mempool_alloc_ok[of p _ L mm s 0 p'] by (auto simp: pool_inv_def)
next
  case (2 p L s a p')
  then show ?case
    using mempool_alloc_ok[of p _ L mm s a p'] by (auto simp: pool_inv_def chunk_sized_def)
next
  case (3 p a s L)
  then show ?case
    using mempool_free_ok[of p _ a _ L] unfolding pool_inv_def chunk_sized_def by blast
next
  case (4 p L)
  then show ?case
    by (rule pool_inv_regions)
qed


section \<open>Runs of the pool\<close>

text \<open>Every state the pool can be in, with the chunks and regions in use: allocations that succeed or
  fail, and chunks given back with the size they were allocated with.\<close>

inductive pool_reach :: "mmap_fun \<Rightarrow> mempool \<Rightarrow> (nat \<times> nat) multiset \<Rightarrow> bool" for mm where
  reach_init: "regions_ok (mset rs) \<Longrightarrow> \<forall>(a, s) \<in> set rs. 0 < a \<and> 0 < s \<and> a + s < 2 ^ 64 \<Longrightarrow>
     pool_reach mm (mempool_initial rs) (mset rs)"
| reach_alloc: "pool_reach mm p live \<Longrightarrow> mempool_alloc_chunk mm p s = (a, p') \<Longrightarrow> a \<noteq> 0 \<Longrightarrow>
     pool_reach mm p' (add_mset (a, s) live)"
| reach_fail: "pool_reach mm p live \<Longrightarrow> mempool_alloc_chunk mm p s = (0, p') \<Longrightarrow> pool_reach mm p' live"
| reach_free: "pool_reach mm p (add_mset (a, s) live) \<Longrightarrow> chunk_sized s \<Longrightarrow>
     pool_reach mm (snd (mempool_free_chunk p a s)) live"

lemma pool_reach_inv: "pool_reach mm p live \<Longrightarrow> mmap_fresh mm \<Longrightarrow> pool_inv mm p live"
proof (induction rule: pool_reach.induct)
  case (reach_init rs)
  then show ?case
    using pool_ok_initial by (auto simp: pool_inv_def)
next
  case (reach_alloc p live s a p')
  then show ?case
    using mp.alloc_chunk by blast
next
  case (reach_fail p live s p')
  then show ?case
    using mp.alloc_null by blast
next
  case (reach_free p a s live)
  then obtain p' where "mempool_free_chunk p a s = (0, p')" "pool_inv mm p' live"
    using mp.free_chunk[of mm p a s live] by blast
  then show ?case
    by simp
qed

text \<open>C10. Conservation of chunks.  After any run of the pool the regions in use are pairwise disjoint,
  and every mapping ever obtained is either in use or on exactly one free list, once, whose
  length is the counter the statistics report.\<close>

theorem mempool_conservation:
  assumes "mmap_fresh mm" "pool_reach mm p live"
  shows "regions_ok live \<and>
    (\<exists>fl. mset (mp_mapped p) = live + free_chunks fl \<and> regions_ok (live + free_chunks fl) \<and>
       (\<forall>i<20. chain (mp_next p) (mc_head (mp_chunks p ! i)) (fl i) \<and>
              num_free_chunks (mp_chunks p ! i) = length (fl i)))"
proof -
  obtain fl where fl: "pool_ok p fl live"
    using pool_reach_inv[OF assms(2,1)] by (auto simp: pool_inv_def)
  then show ?thesis
    using pool_ok_regions[OF fl] regions_ok_sub[OF pool_ok_regions[OF fl]]
    by (auto simp: pool_ok_def)
qed

theorem mempool_conservation_witness:
  "\<exists>p. mempool_alloc_chunk (\<lambda>rs s. if rs = [] \<and> s < 2 ^ 40 then Some 4096 else None) (mempool_initial []) 8192 =
      (4096, p) \<and> regions_ok {#(4096, 8192)#} \<and>
     (\<exists>fl. mset (mp_mapped p) = {#(4096, 8192)#} + free_chunks fl)"
proof -
  let ?mm = "\<lambda>rs s. if rs = [] \<and> s < 2 ^ 40 then Some 4096 else None"
  have f: "mmap_fresh ?mm"
    by (simp add: mmap_fresh_def)
  have "\<not> mempool_alloc_validate_size 8192 < 0"
    unfolding validate_size_iff by (rule exI[of _ 1]) simp
  then obtain p where p: "mempool_alloc_chunk ?mm (mempool_initial []) 8192 = (4096, p)"
    using chunk_index[of 1]
    by (simp add: mempool_alloc_chunk_def mempool_initial_def NUM_CHUNK_BUCKETS_def MIN_CHUNK_SIZE_BITS_def Let_def)
  have "pool_reach ?mm (mempool_initial []) {#}"
    using reach_init[of "[]" ?mm] by simp
  then have "pool_reach ?mm p {#(4096, 8192)#}"
    by (rule reach_alloc[OF _ p]) simp
  then show ?thesis
    using mempool_conservation[OF f] p by blast
qed

text \<open>C11. A chunk given back is the next one of its size to be handed out, and the kernel is not asked.\<close>

theorem mempool_reuses_chunk:
  assumes "chunk_sized s" "length (mp_chunks p) = NUM_CHUNK_BUCKETS" "a \<noteq> 0"
    and "mempool_free_chunk p a s = (r, p1)" "mempool_alloc_chunk mm p1 s = (b, p2)"
  shows "r = 0 \<and> b = a \<and> mp_chunks p2 = mp_chunks p \<and> mp_mapped p2 = mp_mapped p"
proof -
  obtain i where i: "i < 20" "s = chunk_size i"
    using assms(1) by (auto simp: chunk_sized_def)
  have l: "length (mp_chunks p) = 20"
    using assms(2) by (simp add: NUM_CHUNK_BUCKETS_def MIN_CHUNK_SIZE_BITS_def)
  have v: "\<not> mempool_alloc_validate_size (chunk_size i) < 0"
    using validate_size_iff i(1) by blast
  show ?thesis
    using assms(3-5) i(1) l v unfolding i(2) mempool_free_chunk_def mempool_alloc_chunk_def chunk_index
    by (auto simp: Let_def)
qed

theorem mempool_reuses_chunk_witness:
  "\<exists>p1 p2. mempool_free_chunk (mempool_initial []) 4096 8192 = (0, p1) \<and>
     mempool_alloc_chunk (\<lambda>_ _. None) p1 8192 = (4096, p2)"
proof -
  have "chunk_sized 8192"
    unfolding chunk_sized_def by (rule exI[of _ 1]) simp
  then show ?thesis
    using mempool_reuses_chunk[of 8192 "mempool_initial []" 4096]
    by (metis length_replicate mempool.select_convs(1) mempool_initial_def prod.collapse zero_neq_numeral)
qed

end
