(* ===== verification/Dll.thy ===== *)
theory Dll
  imports Ribs_Prelude
begin

text \<open>
  \<^verbatim>\<open>include/list.h\<close>: the intrusive circular doubly linked list every pool and queue of the
  library is threaded on.  The two fields of \<^verbatim>\<open>struct list\<close> are two functions of the address
  of the node; the assignments of each operation are made one after the other, since the
  nodes an operation writes may coincide.  \<open>dll_at\<close> relates the store to the sequence of
  entries of a list, and each operation refines the operation on sequences.
\<close>

section \<open>Operations\<close>

record dll =
  nxt :: "nat \<Rightarrow> nat"
  prv :: "nat \<Rightarrow> nat"

definition set_next :: "nat \<Rightarrow> nat \<Rightarrow> dll \<Rightarrow> dll" where
  "set_next a b d = d\<lparr>nxt := (nxt d)(a := b)\<rparr>"

definition set_prev :: "nat \<Rightarrow> nat \<Rightarrow> dll \<Rightarrow> dll" where
  "set_prev a b d = d\<lparr>prv := (prv d)(a := b)\<rparr>"

definition list_init :: "dll \<Rightarrow> nat \<Rightarrow> dll" where
  "list_init d l = set_prev l l (set_next l l d)"

definition list_is_null :: "dll \<Rightarrow> nat \<Rightarrow> bool" where
  "list_is_null d l \<longleftrightarrow> nxt d l = 0"

definition list_set_null :: "dll \<Rightarrow> nat \<Rightarrow> dll" where
  "list_set_null d l = set_prev l 0 (set_next l 0 d)"

definition list_is_head :: "nat \<Rightarrow> nat \<Rightarrow> bool" where
  "list_is_head l it \<longleftrightarrow> it = l"

definition list_next :: "dll \<Rightarrow> nat \<Rightarrow> nat" where
  "list_next d it = nxt d it"

definition list_prev :: "dll \<Rightarrow> nat \<Rightarrow> nat" where
  "list_prev d it = prv d it"

definition list_insert_head :: "dll \<Rightarrow> nat \<Rightarrow> nat \<Rightarrow> dll" where
  "list_insert_head d l e =
     (let d = set_next e (nxt d l) d;
          d = set_prev e l d;
          d = set_prev (nxt d l) e d
      in set_next l e d)"

definition list_insert_tail :: "dll \<Rightarrow> nat \<Rightarrow> nat \<Rightarrow> dll" where
  "list_insert_tail d l e =
     (let d = set_next e l d;
          d = set_prev e (prv d l) d;
          d = set_next (prv d l) e d
      in set_prev l e d)"

definition list_empty :: "dll \<Rightarrow> nat \<Rightarrow> bool" where
  "list_empty d l \<longleftrightarrow> l = nxt d l"

definition list_head :: "dll \<Rightarrow> nat \<Rightarrow> nat" where
  "list_head d l = nxt d l"

definition list_tail :: "dll \<Rightarrow> nat \<Rightarrow> nat" where
  "list_tail d l = prv d l"

definition list_remove :: "dll \<Rightarrow> nat \<Rightarrow> dll" where
  "list_remove d e =
     (let d = set_prev (nxt d e) (prv d e) d
      in set_next (prv d e) (nxt d e) d)"

definition list_pop_head :: "dll \<Rightarrow> nat \<Rightarrow> nat \<times> dll" where
  "list_pop_head d l = (let e = list_head d l in (e, list_remove d e))"

definition list_pop_tail :: "dll \<Rightarrow> nat \<Rightarrow> nat \<times> dll" where
  "list_pop_tail d l = (let e = list_tail d l in (e, list_remove d e))"

definition list_make_first :: "dll \<Rightarrow> nat \<Rightarrow> nat \<Rightarrow> dll" where
  "list_make_first d l e = list_insert_head (list_remove d e) l e"

definition list_make_last :: "dll \<Rightarrow> nat \<Rightarrow> nat \<Rightarrow> dll" where
  "list_make_last d l e = list_insert_tail (list_remove d e) l e"

text \<open>\<^verbatim>\<open>LIST_FOR_EACH\<close>: the nodes met from \<open>it\<close> until the head comes round again; on a store that
  is not a list the loop may run forever.\<close>

partial_function (option) list_walk :: "(nat \<Rightarrow> nat) \<Rightarrow> nat \<Rightarrow> nat \<Rightarrow> nat list option" where
  "list_walk step l it =
     (if it = l then Some []
      else Option.bind (list_walk step l (step it)) (\<lambda>xs. Some (it # xs)))"

definition LIST_FOR_EACH :: "dll \<Rightarrow> nat \<Rightarrow> nat list option" where
  "LIST_FOR_EACH d l = list_walk (nxt d) l (nxt d l)"

definition LIST_FOR_EACH_REV :: "dll \<Rightarrow> nat \<Rightarrow> nat list option" where
  "LIST_FOR_EACH_REV d l = list_walk (prv d) l (prv d l)"

section \<open>The sequence a list holds\<close>

fun links :: "dll \<Rightarrow> nat list \<Rightarrow> bool" where
  "links d (a # b # r) \<longleftrightarrow> nxt d a = b \<and> prv d b = a \<and> links d (b # r)"
| "links d [a] \<longleftrightarrow> True"
| "links d [] \<longleftrightarrow> True"

definition dll_at :: "dll \<Rightarrow> nat \<Rightarrow> nat list \<Rightarrow> bool" where
  "dll_at d l xs \<longleftrightarrow> links d (l # xs @ [l]) \<and> distinct (l # xs) \<and> 0 \<notin> set (l # xs)"

lemma set_next_sel [simp]:
  "nxt (set_next a b d) = (nxt d)(a := b)" "prv (set_next a b d) = prv d"
  by (simp_all add: set_next_def)

lemma set_prev_sel [simp]:
  "prv (set_prev a b d) = (prv d)(a := b)" "nxt (set_prev a b d) = nxt d"
  by (simp_all add: set_prev_def)

lemma links_append:
  "links d (xs @ a # ys) \<longleftrightarrow> links d (xs @ [a]) \<and> links d (a # ys)"
proof (induction xs)
  case (Cons x xs)
  then show ?case
    by (cases xs) auto
qed simp

lemma links_cong:
  assumes "\<And>a. a \<in> set (butlast xs) \<Longrightarrow> nxt d' a = nxt d a"
    and "\<And>a. a \<in> set (tl xs) \<Longrightarrow> prv d' a = prv d a"
  shows "links d' xs = links d xs"
  using assms
proof (induction d xs rule: links.induct)
  case (1 d a b r)
  have "links d' (b # r) = links d (b # r)"
    by (rule 1(1)) (use 1(2,3) in \<open>auto split: if_splits dest: in_set_butlastD list.set_sel(2)\<close>)
  then show ?case
    using 1(2)[of a] 1(3)[of b] by auto
qed simp_all

text \<open>Splitting a list around an entry: the node before, the node after, and the two segments
  that lie apart from it.\<close>

lemma links_last:
  assumes "links d (xs @ [a, b])"
  shows "nxt d a = b" "prv d b = a"
  using assms links_append[of d xs a "[b]"] by simp_all

text \<open>The two shapes a ring takes: empty, and with a first entry.\<close>

lemma dll_at_Nil: "dll_at d l [] \<longleftrightarrow> nxt d l = l \<and> prv d l = l \<and> l \<noteq> 0"
  by (auto simp: dll_at_def)

lemma dll_at_next:
  "dll_at d l xs \<Longrightarrow> nxt d l = hd (xs @ [l])"
  by (cases xs) (auto simp: dll_at_def)

lemma dll_at_prev:
  "dll_at d l xs \<Longrightarrow> prv d l = last (l # xs)"
proof (cases xs rule: rev_cases)
  case (snoc ys y)
  assume "dll_at d l xs"
  then have "links d ((l # ys) @ [y, l])"
    by (simp add: dll_at_def snoc)
  then show ?thesis
    using links_last(2)[of d "l # ys" y l] snoc by simp
qed (simp add: dll_at_def)

lemma list_init_dll: "l \<noteq> 0 \<Longrightarrow> dll_at (list_init d l) l []"
  by (simp add: dll_at_def list_init_def)

lemma list_insert_head_dll:
  assumes "dll_at d l xs" "e \<notin> set (l # xs)" "e \<noteq> 0"
  shows "dll_at (list_insert_head d l e) l (e # xs)"
proof (cases xs)
  case Nil
  then show ?thesis
    using assms by (auto simp: dll_at_def list_insert_head_def Let_def)
next
  case (Cons x ys)
  let ?d = "list_insert_head d l e"
  have n: "nxt d l = x"
    using dll_at_next[OF assms(1)] Cons by simp
  have "links ?d (x # ys @ [l]) = links d (x # ys @ [l])"
    using assms Cons n
    by (intro links_cong)
      (auto simp: dll_at_def list_insert_head_def Let_def butlast_append split: if_splits)
  then show ?thesis
    using assms Cons n by (auto simp: dll_at_def list_insert_head_def Let_def)
qed

lemma list_insert_tail_dll:
  assumes "dll_at d l xs" "e \<notin> set (l # xs)" "e \<noteq> 0"
  shows "dll_at (list_insert_tail d l e) l (xs @ [e])"
proof (cases xs rule: rev_cases)
  case Nil
  then show ?thesis
    using assms by (auto simp: dll_at_def list_insert_tail_def Let_def)
next
  case (snoc ys y)
  let ?d = "list_insert_tail d l e"
  have p: "prv d l = y"
    using dll_at_prev[OF assms(1)] snoc by simp
  have old: "links d ((l # ys) @ [y])"
    using assms(1) links_append[of d "l # ys" y "[l]"] by (simp add: dll_at_def snoc)
  have "links ?d ((l # ys) @ [y]) = links d ((l # ys) @ [y])"
    using assms snoc p
    by (intro links_cong)
      (auto simp: dll_at_def list_insert_tail_def Let_def butlast_append split: if_splits)
  moreover have "links ?d [y, e, l]"
    using assms snoc p by (auto simp: dll_at_def list_insert_tail_def Let_def)
  ultimately show ?thesis
    using links_append[of ?d "l # ys" y "[e, l]"] assms snoc old by (auto simp: dll_at_def)
qed

lemma dll_at_split:
  assumes "dll_at d l (ps @ e # qs)"
  obtains a b as bs where "l # ps = as @ [a]" "qs @ [l] = b # bs"
    "links d (as @ [a])" "links d (b # bs)" "nxt d e = b" "prv d e = a"
proof -
  have 1: "links d (l # ps @ e # qs @ [l])"
    using assms by (simp add: dll_at_def)
  obtain as a where a: "l # ps = as @ [a]"
    by (metis append_butlast_last_id list.distinct(1))
  obtain b bs where b: "qs @ [l] = b # bs"
    by (metis append_is_Nil_conv neq_Nil_conv list.distinct(1))
  have "links d (as @ a # e # b # bs)"
    using 1 a b by (metis append.assoc append_Cons append_Nil)
  then have "links d (as @ [a])" "links d (a # e # b # bs)"
    using links_append[of d as a "e # b # bs"] by simp_all
  then show ?thesis
    using that[OF a b] by simp
qed

lemma list_remove_dll:
  assumes "dll_at d l (ps @ e # qs)"
  shows "dll_at (list_remove d e) l (ps @ qs)"
proof -
  obtain a b as bs where s: "l # ps = as @ [a]" "qs @ [l] = b # bs"
    "links d (as @ [a])" "links d (b # bs)" "nxt d e = b" "prv d e = a"
    by (rule dll_at_split[OF assms])
  let ?d = "list_remove d e"
  have d: "distinct (l # ps)" "distinct (qs @ [l])" "e \<notin> set (l # ps)" "e \<notin> set (qs @ [l])"
    "set ps \<inter> set (qs @ [l]) = {}" "set (l # ps) \<inter> set qs = {}" "0 \<notin> set (l # ps @ qs)"
    using assms by (auto simp: dll_at_def)
  have m: "set (butlast (b # bs)) = set qs" "set (tl (as @ [a])) = set ps"
    using s(1,2) by (metis butlast_snoc, metis list.sel(3))
  have e: "e \<noteq> b" "e \<noteq> a" "a \<notin> set as" "b \<notin> set bs" "b \<notin> set ps" "a \<notin> set qs"
    using d s(1,2) by (auto simp: disjoint_iff)
  have sel: "nxt ?d = (nxt d)(a := b)" "prv ?d = (prv d)(b := a)"
    using s(5,6) e by (simp_all add: list_remove_def Let_def)
  have "links ?d (as @ [a])"
    by (rule iffD2[OF links_cong s(3)]) (use e m(2) in \<open>auto simp: sel\<close>)
  moreover have "links ?d (b # bs)"
    by (rule iffD2[OF links_cong s(4)]) (use e m(1) in \<open>auto simp: sel\<close>)
  ultimately have "links ?d (as @ a # b # bs)"
    using links_append[of ?d as a "b # bs"] by (simp add: sel)
  moreover have "as @ a # b # bs = l # (ps @ qs) @ [l]"
    using s(1,2) by (metis append.assoc append_Cons append_Nil)
  ultimately show ?thesis
    using d by (auto simp: dll_at_def)
qed

lemma list_walk_links:
  assumes "distinct (l # xs)"
  shows "links d (x # xs @ [l]) \<Longrightarrow> list_walk (nxt d) l (nxt d x) = Some xs"
  using assms
proof (induction xs arbitrary: x)
  case Nil
  then show ?case
    by (simp add: list_walk.simps)
next
  case (Cons y ys)
  then show ?case
    by (simp add: list_walk.simps[of _ l y])
qed

lemma list_walk_links_rev:
  assumes "distinct (l # xs)"
  shows "links d (l # xs @ [x]) \<Longrightarrow> list_walk (prv d) l (prv d x) = Some (rev xs)"
  using assms
proof (induction xs arbitrary: x rule: rev_induct)
  case Nil
  then show ?case
    by (simp add: list_walk.simps)
next
  case (snoc y ys)
  have "links d (l # ys @ [y])" "prv d x = y"
    using snoc(2) links_append[of d "l # ys" y "[x]"] by simp_all
  then show ?case
    using snoc by (simp add: list_walk.simps[of _ l y])
qed

text \<open>A list that shares no node with the ones an operation writes is unchanged.\<close>

lemma dll_at_frame:
  assumes "dll_at d l xs"
    and "\<And>a. a \<in> set (l # xs) \<Longrightarrow> nxt d' a = nxt d a \<and> prv d' a = prv d a"
  shows "dll_at d' l xs"
proof -
  have "links d' (l # xs @ [l]) = links d (l # xs @ [l])"
    using assms(2) by (intro links_cong) (auto dest: in_set_butlastD)
  then show ?thesis
    using assms(1) by (simp add: dll_at_def)
qed

lemma dll_at_tail:
  assumes "dll_at d l xs" "xs \<noteq> []"
  shows "list_tail d l = last xs"
  using dll_at_prev[OF assms(1)] assms(2) by (simp add: list_tail_def)

lemma dll_at_empty: "dll_at d l xs \<Longrightarrow> list_empty d l \<longleftrightarrow> xs = []"
  by (cases xs) (auto simp: list_empty_def dll_at_def)

lemma dll_at_not_null: "dll_at d l xs \<Longrightarrow> \<not> list_is_null d l"
  by (cases xs) (auto simp: list_is_null_def dll_at_def)

lemma list_for_each_dll: "dll_at d l xs \<Longrightarrow> LIST_FOR_EACH d l = Some xs"
  by (simp add: LIST_FOR_EACH_def dll_at_def list_walk_links)

lemma list_for_each_rev_dll: "dll_at d l xs \<Longrightarrow> LIST_FOR_EACH_REV d l = Some (rev xs)"
  by (simp add: LIST_FOR_EACH_REV_def dll_at_def list_walk_links_rev)

lemma list_pop_head_dll:
  assumes "dll_at d l (x # xs)"
  shows "fst (list_pop_head d l) = x" "dll_at (snd (list_pop_head d l)) l xs"
  using assms dll_at_next[OF assms] list_remove_dll[of d l "[]" x xs]
  by (simp_all add: list_pop_head_def list_head_def Let_def)

lemma list_pop_tail_dll:
  assumes "dll_at d l (xs @ [x])"
  shows "fst (list_pop_tail d l) = x" "dll_at (snd (list_pop_tail d l)) l xs"
  using assms dll_at_prev[OF assms] list_remove_dll[of d l xs x "[]"]
  by (simp_all add: list_pop_tail_def list_tail_def Let_def)

lemma dll_at_entry:
  assumes "dll_at d l (ps @ e # qs)"
  shows "e \<noteq> 0" "e \<notin> set (l # ps @ qs)"
  using assms by (auto simp: dll_at_def)

lemma list_make_first_dll:
  assumes "dll_at d l (ps @ e # qs)"
  shows "dll_at (list_make_first d l e) l (e # ps @ qs)"
  unfolding list_make_first_def
  by (rule list_insert_head_dll[OF list_remove_dll[OF assms]]) (use dll_at_entry[OF assms] in simp_all)

lemma list_make_last_dll:
  assumes "dll_at d l (ps @ e # qs)"
  shows "dll_at (list_make_last d l e) l (ps @ qs @ [e])"
proof -
  have "dll_at (list_make_last d l e) l ((ps @ qs) @ [e])"
    unfolding list_make_last_def
    by (rule list_insert_tail_dll[OF list_remove_dll[OF assms]]) (use dll_at_entry[OF assms] in simp_all)
  then show ?thesis
    by simp
qed


section \<open>Lists as sequences\<close>

datatype dll_op = Insert_head nat | Insert_tail nat | Remove nat | Make_first nat | Make_last nat
  | Pop_head | Pop_tail

fun dll_exec :: "nat \<Rightarrow> dll_op \<Rightarrow> dll \<Rightarrow> dll" where
  "dll_exec l (Insert_head e) d = list_insert_head d l e"
| "dll_exec l (Insert_tail e) d = list_insert_tail d l e"
| "dll_exec l (Remove e) d = list_remove d e"
| "dll_exec l (Make_first e) d = list_make_first d l e"
| "dll_exec l (Make_last e) d = list_make_last d l e"
| "dll_exec l Pop_head d = snd (list_pop_head d l)"
| "dll_exec l Pop_tail d = snd (list_pop_tail d l)"

fun seq_exec :: "dll_op \<Rightarrow> nat list \<Rightarrow> nat list" where
  "seq_exec (Insert_head e) xs = e # xs"
| "seq_exec (Insert_tail e) xs = xs @ [e]"
| "seq_exec (Remove e) xs = remove1 e xs"
| "seq_exec (Make_first e) xs = e # remove1 e xs"
| "seq_exec (Make_last e) xs = remove1 e xs @ [e]"
| "seq_exec Pop_head xs = tl xs"
| "seq_exec Pop_tail xs = butlast xs"

fun dll_pre :: "nat \<Rightarrow> dll_op \<Rightarrow> nat list \<Rightarrow> bool" where
  "dll_pre l (Insert_head e) xs \<longleftrightarrow> e \<noteq> 0 \<and> e \<noteq> l \<and> e \<notin> set xs"
| "dll_pre l (Insert_tail e) xs \<longleftrightarrow> e \<noteq> 0 \<and> e \<noteq> l \<and> e \<notin> set xs"
| "dll_pre l (Remove e) xs \<longleftrightarrow> e \<in> set xs"
| "dll_pre l (Make_first e) xs \<longleftrightarrow> e \<in> set xs"
| "dll_pre l (Make_last e) xs \<longleftrightarrow> e \<in> set xs"
| "dll_pre l Pop_head xs \<longleftrightarrow> xs \<noteq> []"
| "dll_pre l Pop_tail xs \<longleftrightarrow> xs \<noteq> []"

lemma split_entry:
  assumes "dll_at d l xs" "e \<in> set xs"
  obtains ps qs where "xs = ps @ e # qs" "remove1 e xs = ps @ qs"
proof -
  obtain ps qs where s: "xs = ps @ e # qs" "e \<notin> set ps"
    using split_list_first[OF assms(2)] by blast
  then show thesis
    using that by (simp add: remove1_append)
qed

lemma dll_exec_sim:
  assumes "dll_at d l xs" "dll_pre l op xs"
  shows "dll_at (dll_exec l op d) l (seq_exec op xs)"
proof (cases op)
  case Pop_head
  then show ?thesis
    using assms list_pop_head_dll(2)[of d l "hd xs" "tl xs"] by simp
next
  case Pop_tail
  then show ?thesis
    using assms list_pop_tail_dll(2)[of d l "butlast xs" "last xs"] by simp
next
  case (Remove e)
  then obtain ps qs where "xs = ps @ e # qs" "remove1 e xs = ps @ qs"
    using split_entry[OF assms(1), of e] assms(2) by auto
  then show ?thesis
    using Remove list_remove_dll assms(1) by simp
next
  case (Make_first e)
  then obtain ps qs where "xs = ps @ e # qs" "remove1 e xs = ps @ qs"
    using split_entry[OF assms(1), of e] assms(2) by auto
  then show ?thesis
    using Make_first list_make_first_dll assms(1) by simp
next
  case (Make_last e)
  then obtain ps qs where "xs = ps @ e # qs" "remove1 e xs = ps @ qs"
    using split_entry[OF assms(1), of e] assms(2) by auto
  then show ?thesis
    using Make_last list_make_last_dll assms(1) by simp
qed (use assms list_insert_head_dll list_insert_tail_dll in auto)

interpretation dllseq: simulation "\<lambda>d. dll_at d l" "dll_exec l" seq_exec "dll_pre l" for l
  by unfold_locales (rule dll_exec_sim)

text \<open>C12. Any run of insertions, removals, moves and pops on the pointers of a list does to its
  entries what the run does to a sequence, and the two iteration macros end and visit the
  entries of that sequence forwards and backwards.\<close>

theorem dll_refines_sequence:
  assumes "dll_at d l xs" "pre_run seq_exec (dll_pre l) ops xs"
  shows "LIST_FOR_EACH (fold (dll_exec l) ops d) l = Some (fold seq_exec ops xs) \<and>
    LIST_FOR_EACH_REV (fold (dll_exec l) ops d) l = Some (rev (fold seq_exec ops xs)) \<and>
    dll_at (fold (dll_exec l) ops d) l (fold seq_exec ops xs)"
  using dllseq.run_sim[OF assms] list_for_each_dll list_for_each_rev_dll by blast

theorem dll_refines_sequence_witness:
  "LIST_FOR_EACH (fold (dll_exec 8) [Insert_tail 16, Insert_tail 32, Insert_head 48, Make_last 16, Remove 32]
     (list_init \<lparr>nxt = (\<lambda>_. 0), prv = (\<lambda>_. 0)\<rparr> 8)) 8 = Some [48, 16]"
  using dll_refines_sequence[OF list_init_dll[of 8 "\<lparr>nxt = (\<lambda>_. 0), prv = (\<lambda>_. 0)\<rparr>"],
      of "[Insert_tail 16, Insert_tail 32, Insert_head 48, Make_last 16, Remove 32]"]
  by simp

end
