(* ===== verification/Memalloc.thy ===== *)
theory Memalloc
  imports Mempool Dll
begin

text \<open>
  \<^verbatim>\<open>src/memalloc.c\<close>, \<^verbatim>\<open>src/_memalloc.c\<close> and \<^verbatim>\<open>src/_malloc.c\<close>: the allocator every execution context
  carries.  Memory is carved off the current block by advancing a pointer; when it does not
  suffice a block of twice the size is taken from the chunk pool, and all blocks are given
  back at once when the context is reset.  \<open>heap\<close> is what the allocators share: the pool, the
  list nodes, the block headers by address, and the bytes.
\<close>

section \<open>State\<close>

record memalloc =
  ma_mem :: nat
  ma_capacity :: nat
  ma_avail :: nat
  ma_memblocks :: nat

record heap =
  hp_pool :: mempool
  hp_list :: dll
  hp_size :: "nat \<Rightarrow> nat"
  hp_type :: "nat \<Rightarrow> nat"
  hp_bytes :: "nat \<Rightarrow> byte"

definition MEMALLOC_MEM_TYPE_ANY :: nat where
  "MEMALLOC_MEM_TYPE_ANY = 0"

definition MEMALLOC_MEM_TYPE_MALLOC :: nat where
  "MEMALLOC_MEM_TYPE_MALLOC = 0"

definition MEMALLOC_MEM_TYPE_BUF :: nat where
  "MEMALLOC_MEM_TYPE_BUF = 1"

definition MEMALLOC_INITIAL_BLOCK_SIZE :: nat where
  "MEMALLOC_INITIAL_BLOCK_SIZE = 131072"

text \<open>\<^verbatim>\<open>sizeof(struct memalloc_block)\<close>, and the place of the list node in it.\<close>

definition BLOCK_HEADER :: nat where
  "BLOCK_HEADER = 24"

definition block_node :: "nat \<Rightarrow> nat" where
  "block_node b = b + 8"

definition LIST_ENTRY_block :: "nat \<Rightarrow> nat" where
  "LIST_ENTRY_block it = it - 8"

section \<open>Operations\<close>

definition memalloc_list_check :: "memalloc \<Rightarrow> heap \<Rightarrow> heap" where
  "memalloc_list_check ma hp =
     (if list_is_null (hp_list hp) (ma_memblocks ma)
      then hp\<lparr>hp_list := list_init (hp_list hp) (ma_memblocks ma)\<rparr> else hp)"

text \<open>Writing the header of a new block and linking it at the tail.\<close>

definition block_setup :: "memalloc \<Rightarrow> nat \<Rightarrow> nat \<Rightarrow> nat \<Rightarrow> heap \<Rightarrow> heap" where
  "block_setup ma b s t hp =
     hp\<lparr>hp_size := (hp_size hp)(b := s), hp_type := (hp_type hp)(b := t),
        hp_list := list_insert_tail (hp_list hp) (ma_memblocks ma) (block_node b)\<rparr>"

definition memalloc_new_block :: "mmap_fun \<Rightarrow> memalloc \<Rightarrow> heap \<Rightarrow> int \<times> memalloc \<times> heap" where
  "memalloc_new_block mm ma hp =
     (let hp = memalloc_list_check ma hp;
          s = (if ma_capacity ma \<noteq> 0 then shl64 (ma_capacity ma) 1 else MEMALLOC_INITIAL_BLOCK_SIZE);
          (b, p) = mempool_alloc_chunk mm (hp_pool hp) s;
          hp = hp\<lparr>hp_pool := p\<rparr>
      in if b = 0 then (-1, ma, hp)
         else (0, ma\<lparr>ma_capacity := s, ma_avail := s - BLOCK_HEADER, ma_mem := b + BLOCK_HEADER\<rparr>,
               block_setup ma b s MEMALLOC_MEM_TYPE_MALLOC hp))"

definition memalloc_usage :: "memalloc \<Rightarrow> heap \<Rightarrow> nat option" where
  "memalloc_usage ma hp =
     (if list_is_null (hp_list hp) (ma_memblocks ma) then Some 0
      else map_option (\<lambda>its. sub64 (foldl (\<lambda>u it. add64 u (hp_size hp (LIST_ENTRY_block it))) 0 its) (ma_avail ma))
             (LIST_FOR_EACH (hp_list hp) (ma_memblocks ma)))"

text \<open>The pair of the size returned, 0 on failure, and the pointer stored through \<^verbatim>\<open>memblock\<close>.\<close>

definition memalloc_alloc_raw :: "mmap_fun \<Rightarrow> memalloc \<Rightarrow> heap \<Rightarrow> nat \<Rightarrow> (nat \<times> nat option) \<times> heap" where
  "memalloc_alloc_raw mm ma hp sz =
     (let hp = memalloc_list_check ma hp;
          s = next_p2_64 (add64 sz BLOCK_HEADER);
          (b, p) = mempool_alloc_chunk mm (hp_pool hp) s;
          hp = hp\<lparr>hp_pool := p\<rparr>
      in if b = 0 then ((0, None), hp)
         else ((s - BLOCK_HEADER, Some (b + BLOCK_HEADER)), block_setup ma b s MEMALLOC_MEM_TYPE_BUF hp))"

definition memalloc_free_raw :: "heap \<Rightarrow> nat \<Rightarrow> heap" where
  "memalloc_free_raw hp a =
     (let b = a - BLOCK_HEADER;
          hp = hp\<lparr>hp_list := list_remove (hp_list hp) (block_node b)\<rparr>
      in hp\<lparr>hp_pool := snd (mempool_free_chunk (hp_pool hp) b (hp_size hp b))\<rparr>)"

partial_function (option) memalloc_resize_if_less ::
    "mmap_fun \<Rightarrow> nat \<Rightarrow> memalloc \<Rightarrow> heap \<Rightarrow> (int \<times> memalloc \<times> heap) option" where
  "memalloc_resize_if_less mm sz ma hp =
     (if ma_avail ma < sz then
        (case memalloc_new_block mm ma hp of
           (r, ma, hp) \<Rightarrow> if r < 0 then Some (-1, ma, hp) else memalloc_resize_if_less mm sz ma hp)
      else Some (0, ma, hp))"

definition memalloc_seek :: "memalloc \<Rightarrow> nat \<Rightarrow> memalloc" where
  "memalloc_seek ma sz = ma\<lparr>ma_mem := add64 (ma_mem ma) sz, ma_avail := sub64 (ma_avail ma) sz\<rparr>"

text \<open>Taking back the last byte, the two statements \<^verbatim>\<open>--ma->mem; ++ma->avail\<close>.\<close>

definition unseek1 :: "memalloc \<Rightarrow> memalloc" where
  "unseek1 ma = ma\<lparr>ma_mem := sub64 (ma_mem ma) 1, ma_avail := add64 (ma_avail ma) 1\<rparr>"

definition memalloc_alloc :: "mmap_fun \<Rightarrow> memalloc \<Rightarrow> heap \<Rightarrow> nat \<Rightarrow> (nat \<times> memalloc \<times> heap) option" where
  "memalloc_alloc mm ma hp sz =
     map_option (\<lambda>(r, ma, hp). if r < 0 then (0, ma, hp) else (ma_mem ma, memalloc_seek ma sz, hp))
       (memalloc_resize_if_less mm sz ma hp)"

partial_function (option) memalloc_reset_loop :: "nat \<Rightarrow> nat \<Rightarrow> nat \<Rightarrow> heap \<Rightarrow> heap option" where
  "memalloc_reset_loop t l it hp =
     (if list_is_head l it then Some hp
      else
        (let b = LIST_ENTRY_block it;
             it = list_next (hp_list hp) it
         in memalloc_reset_loop t l it
              (if t \<le> hp_type hp b
               then hp\<lparr>hp_pool := snd (mempool_free_chunk (hp_pool hp) b (hp_size hp b))\<rparr> else hp)))"

definition memalloc_reset2 :: "memalloc \<Rightarrow> heap \<Rightarrow> nat \<Rightarrow> (memalloc \<times> heap) option" where
  "memalloc_reset2 ma hp t =
     (if list_is_null (hp_list hp) (ma_memblocks ma) then Some (ma, hp)
      else
        map_option (\<lambda>hp.
            (ma\<lparr>ma_avail := 0, ma_capacity := 0, ma_mem := 0\<rparr>,
             hp\<lparr>hp_list := list_set_null (hp_list hp) (ma_memblocks ma)\<rparr>))
          (memalloc_reset_loop t (ma_memblocks ma) (list_next (hp_list hp) (ma_memblocks ma)) hp))"

definition memalloc_reset :: "memalloc \<Rightarrow> heap \<Rightarrow> (memalloc \<times> heap) option" where
  "memalloc_reset ma hp = memalloc_reset2 ma hp MEMALLOC_MEM_TYPE_ANY"

definition memalloc_is_mine :: "memalloc \<Rightarrow> heap \<Rightarrow> nat \<Rightarrow> bool option" where
  "memalloc_is_mine ma hp a =
     (if list_is_null (hp_list hp) (ma_memblocks ma) then Some False
      else map_option (list_ex (\<lambda>it. let b = LIST_ENTRY_block it in b \<le> a \<and> a < b + hp_size hp b))
             (LIST_FOR_EACH (hp_list hp) (ma_memblocks ma)))"

text \<open>\<^verbatim>\<open>vsnprintf\<close> with the formatted text \<open>out\<close>: at most \<open>n - 1\<close> bytes and a terminator are written,
  and the full length is returned.  \<open>None\<close> stands for an encoding error, a negative result.\<close>

definition vsnprintf_bytes :: "(nat \<Rightarrow> byte) \<Rightarrow> nat \<Rightarrow> nat \<Rightarrow> byte list \<Rightarrow> nat \<Rightarrow> byte" where
  "vsnprintf_bytes m a n out = (if n = 0 then m else mem_copy m a (take (n - 1) out @ [0]))"

partial_function (option) memalloc_vsprintf_loop ::
    "mmap_fun \<Rightarrow> byte list option \<Rightarrow> memalloc \<Rightarrow> heap \<Rightarrow> (nat \<times> memalloc \<times> heap) option" where
  "memalloc_vsprintf_loop mm fmt ma hp =
     (case fmt of
        None \<Rightarrow> Some (0, ma, hp)
      | Some out \<Rightarrow>
          (let str = ma_mem ma;
               hp = hp\<lparr>hp_bytes := vsnprintf_bytes (hp_bytes hp) str (ma_avail ma) out\<rparr>
           in if length out < ma_avail ma then Some (str, memalloc_seek ma (length out + 1), hp)
              else
                (case memalloc_new_block mm ma hp of
                   (r, ma, hp) \<Rightarrow> if r < 0 then Some (0, ma, hp) else memalloc_vsprintf_loop mm fmt ma hp)))"

definition memalloc_vsprintf ::
    "mmap_fun \<Rightarrow> memalloc \<Rightarrow> heap \<Rightarrow> byte list option \<Rightarrow> (nat \<times> memalloc \<times> heap) option" where
  "memalloc_vsprintf mm ma hp fmt =
     (if ma_avail ma = 0 then
        (case memalloc_new_block mm ma hp of
           (r, ma, hp) \<Rightarrow> if r < 0 then Some (0, ma, hp) else memalloc_vsprintf_loop mm fmt ma hp)
      else memalloc_vsprintf_loop mm fmt ma hp)"

text \<open>The variant with the arguments in the call formats the same text.\<close>

definition memalloc_sprintf ::
    "mmap_fun \<Rightarrow> memalloc \<Rightarrow> heap \<Rightarrow> byte list option \<Rightarrow> (nat \<times> memalloc \<times> heap) option" where
  "memalloc_sprintf mm ma hp fmt = memalloc_vsprintf mm ma hp fmt"

text \<open>The copy loop of \<^verbatim>\<open>memalloc_strcpy\<close>: one byte at a time, up to the terminator or the end of the
  block.\<close>

function strcpy_bytes :: "(nat \<Rightarrow> byte) \<Rightarrow> nat \<Rightarrow> nat \<Rightarrow> nat \<Rightarrow> (nat \<Rightarrow> byte) \<times> nat \<times> nat" where
  "strcpy_bytes m dst src lim =
     (if dst < lim \<and> m src \<noteq> 0 then strcpy_bytes (m(dst := m src)) (dst + 1) (src + 1) lim
      else (m, dst, src))"
  by pat_completeness auto
termination
  by (relation "measure (\<lambda>(m, dst, src, lim). lim - dst)", rule wf_measure)
    (unfold in_measure split_conv, linarith)

declare strcpy_bytes.simps [simp del]

partial_function (option) memalloc_strcpy_loop ::
    "mmap_fun \<Rightarrow> nat \<Rightarrow> memalloc \<Rightarrow> heap \<Rightarrow> (nat \<times> memalloc \<times> heap) option" where
  "memalloc_strcpy_loop mm s ma hp =
     (let mem = ma_mem ma;
          lim = mem + ma_avail ma;
          (m, dst, src) = strcpy_bytes (hp_bytes hp) mem s lim;
          hp = hp\<lparr>hp_bytes := m\<rparr>
      in if m src = 0 \<and> dst < lim
         then Some (mem, memalloc_seek ma (src - s + 1), hp\<lparr>hp_bytes := m(dst := 0)\<rparr>)
         else
           (case memalloc_new_block mm ma hp of
              (r, ma, hp) \<Rightarrow> if r < 0 then Some (0, ma, hp) else memalloc_strcpy_loop mm s ma hp))"

definition memalloc_strcpy :: "mmap_fun \<Rightarrow> memalloc \<Rightarrow> heap \<Rightarrow> nat \<Rightarrow> (nat \<times> memalloc \<times> heap) option" where
  "memalloc_strcpy mm ma hp s =
     (if ma_avail ma = 0 then
        (case memalloc_new_block mm ma hp of
           (r, ma, hp) \<Rightarrow> if r < 0 then Some (0, ma, hp) else memalloc_strcpy_loop mm s ma hp)
      else memalloc_strcpy_loop mm s ma hp)"

text \<open>The loop of \<^verbatim>\<open>memalloc_strcat_vsprintf\<close>; \<open>buf\<close> is the pointer it updates through its argument and
  the first component the return code.  When \<open>memalloc_strcpy\<close> fails the code goes on with the null
  pointer it returned, as written.\<close>

partial_function (option) memalloc_strcat_loop ::
    "mmap_fun \<Rightarrow> byte list option \<Rightarrow> bool \<Rightarrow> nat \<Rightarrow> memalloc \<Rightarrow> heap \<Rightarrow> (int \<times> nat \<times> memalloc \<times> heap) option" where
  "memalloc_strcat_loop mm fmt resized buf ma hp =
     Option.bind
       (if buf \<noteq> 0 then
          map_option (\<lambda>(buf, ma, hp). (buf, unseek1 ma, hp))
            (if resized then memalloc_strcpy mm ma hp buf else Some (buf, ma, hp))
        else Some (buf, ma, hp))
       (\<lambda>(buf, ma, hp).
          case fmt of
            None \<Rightarrow> Some (-1, buf, ma, hp)
          | Some out \<Rightarrow>
              (let str = ma_mem ma;
                   hp = hp\<lparr>hp_bytes := vsnprintf_bytes (hp_bytes hp) str (ma_avail ma) out\<rparr>
               in if length out < ma_avail ma
                  then Some (0, if buf = 0 then str else buf, memalloc_seek ma (length out + 1), hp)
                  else
                    (case memalloc_new_block mm ma hp of
                       (r, ma, hp) \<Rightarrow>
                         if r < 0 then Some (-1, buf, ma, hp)
                         else memalloc_strcat_loop mm fmt True buf ma
                                (hp\<lparr>hp_bytes := (hp_bytes hp)(str := 0)\<rparr>))))"

definition memalloc_strcat_vsprintf ::
    "mmap_fun \<Rightarrow> memalloc \<Rightarrow> heap \<Rightarrow> nat \<Rightarrow> byte list option \<Rightarrow> (int \<times> nat \<times> memalloc \<times> heap) option" where
  "memalloc_strcat_vsprintf mm ma hp buf fmt =
     (if ma_avail ma = 0 then
        (case memalloc_new_block mm ma hp of
           (r, ma, hp) \<Rightarrow>
             if r < 0 then Some (-1, buf, ma, hp) else memalloc_strcat_loop mm fmt True buf ma hp)
      else memalloc_strcat_loop mm fmt False buf ma hp)"

definition memalloc_strcat_sprintf ::
    "mmap_fun \<Rightarrow> memalloc \<Rightarrow> heap \<Rightarrow> nat \<Rightarrow> byte list option \<Rightarrow> (int \<times> nat \<times> memalloc \<times> heap) option" where
  "memalloc_strcat_sprintf mm ma hp buf fmt = memalloc_strcat_vsprintf mm ma hp buf fmt"

definition memalloc_str_remove_last_if :: "memalloc \<Rightarrow> heap \<Rightarrow> byte \<Rightarrow> (memalloc \<times> heap) option" where
  "memalloc_str_remove_last_if ma hp c =
     (let p = sub64 (ma_mem ma) 2
      in map_option (\<lambda>mine.
           if mine \<and> hp_bytes hp p = c
           then (unseek1 ma, hp\<lparr>hp_bytes := (hp_bytes hp)(p := 0)\<rparr>)
           else (ma, hp))
         (memalloc_is_mine ma hp p))"

definition memalloc_memcpy ::
    "mmap_fun \<Rightarrow> memalloc \<Rightarrow> heap \<Rightarrow> byte list \<Rightarrow> (nat \<times> memalloc \<times> heap) option" where
  "memalloc_memcpy mm ma hp s =
     map_option (\<lambda>(r, ma, hp).
         if r < 0 then (0, ma, hp)
         else (ma_mem ma, memalloc_seek ma (length s), hp\<lparr>hp_bytes := mem_copy (hp_bytes hp) (ma_mem ma) s\<rparr>))
       (memalloc_resize_if_less mm (length s) ma hp)"

text \<open>\<^verbatim>\<open>strftime\<close> with the formatted text \<open>out\<close>: its length when it fits with its terminator, else 0.
  The bytes it leaves in that case are unspecified and lie in memory that is not handed out.\<close>

partial_function (option) memalloc_strftime ::
    "mmap_fun \<Rightarrow> byte list \<Rightarrow> memalloc \<Rightarrow> heap \<Rightarrow> (nat \<times> memalloc \<times> heap) option" where
  "memalloc_strftime mm out ma hp =
     (let mem = ma_mem ma;
          n = (if length out < ma_avail ma then length out else 0)
      in if 0 < n
         then Some (mem, memalloc_seek ma (n + 1),
                    hp\<lparr>hp_bytes := mem_copy (hp_bytes hp) mem (out @ [0])\<rparr>)
         else
           (case memalloc_new_block mm ma hp of
              (r, ma, hp) \<Rightarrow> if r < 0 then Some (0, ma, hp) else memalloc_strftime mm out ma hp))"

end
