(* ===== verification/Memalloc_Proofs.thy ===== *)
theory Memalloc_Proofs
  imports Memalloc
begin

section \<open>Invariant\<close>

definition inside :: "nat \<times> nat \<Rightarrow> nat \<times> nat \<Rightarrow> bool" where
  "inside e r \<longleftrightarrow> fst r + BLOCK_HEADER \<le> fst e \<and> fst e + snd e \<le> fst r + snd r"

text \<open>\<open>bs\<close> are the blocks of the allocator in list order, \<open>es\<close> the extents handed out since the last
  reset and \<open>L\<close> the chunks and regions of everybody else, among them the one the structure
  itself lives in.\<close>

definition block_nodes :: "(nat \<times> nat) list \<Rightarrow> nat list" where
  "block_nodes bs = map (\<lambda>r. block_node (fst r)) bs"

lemma block_nodes_simps [simp]:
  "block_nodes [] = []" "block_nodes (r # bs) = block_node (fst r) # block_nodes bs"
  "block_nodes (bs @ cs) = block_nodes bs @ block_nodes cs"
  "set (block_nodes bs) = (\<lambda>r. block_node (fst r)) ` set bs"
  by (simp_all add: block_nodes_def)

definition ma_blocks :: "mmap_fun \<Rightarrow> memalloc \<Rightarrow> heap \<Rightarrow> (nat \<times> nat) list \<Rightarrow> (nat \<times> nat) multiset \<Rightarrow> bool" where
  "ma_blocks mm ma hp bs L \<longleftrightarrow>
     pool_inv mm (hp_pool hp) (mset bs + L) \<and>
     (\<forall>(b, s) \<in> set bs. hp_size hp b = s \<and> chunk_sized s) \<and>
     (\<exists>c s. (c, s) \<in># L \<and> c \<le> ma_memblocks ma \<and> ma_memblocks ma + 16 \<le> c + s) \<and>
     (list_is_null (hp_list hp) (ma_memblocks ma) \<and> bs = [] \<or>
      dll_at (hp_list hp) (ma_memblocks ma) (block_nodes bs))"

definition ma_extents :: "(nat \<Rightarrow> nat) \<Rightarrow> memalloc \<Rightarrow> (nat \<times> nat) list \<Rightarrow> (nat \<times> nat) list \<Rightarrow> bool" where
  "ma_extents ty ma bs es \<longleftrightarrow>
     (\<forall>e \<in> set es. 0 < snd e \<and> (\<exists>r \<in> set bs. inside e r)) \<and> regions_ok (mset es) \<and>
     (ma_capacity ma = 0 \<and> ma_avail ma = 0 \<and> ma_mem ma = 0 \<or>
      (\<exists>(b, s) \<in> set bs. s = ma_capacity ma \<and> ty b = MEMALLOC_MEM_TYPE_MALLOC \<and>
         b + BLOCK_HEADER \<le> ma_mem ma \<and> ma_mem ma + ma_avail ma = b + s \<and> (\<forall>e \<in> set es. apart e (ma_mem ma, ma_avail ma))))"

definition ma_ok ::
    "mmap_fun \<Rightarrow> memalloc \<Rightarrow> heap \<Rightarrow> (nat \<times> nat) list \<Rightarrow> (nat \<times> nat) list \<Rightarrow> (nat \<times> nat) multiset \<Rightarrow> bool" where
  "ma_ok mm ma hp bs es L \<longleftrightarrow> ma_blocks mm ma hp bs L \<and> ma_extents (hp_type hp) ma bs es"

lemma chunk_sized_bounds: "chunk_sized s \<Longrightarrow> 4096 \<le> s \<and> s \<le> 2 ^ 31"
proof -
  assume "chunk_sized s"
  then obtain i where i: "i < 20" "s = 2 ^ (12 + i)"
    unfolding chunk_sized_def by blast
  have "(2 :: nat) ^ 12 \<le> 2 ^ (12 + i)" "(2 :: nat) ^ (12 + i) \<le> 2 ^ 31"
    using i(1) by (intro power_increasing; simp)+
  then show ?thesis
    using i by simp
qed

lemma chunk_sized_double:
  assumes "chunk_sized s"
  shows "shl64 s 1 = 2 * s"
  using chunk_sized_bounds[OF assms] by (simp add: shl64_small)

lemma ma_blocks_mem:
  assumes "ma_blocks mm ma hp bs L" "(b, s) \<in> set bs"
  shows "0 < b" "b + s < 2 ^ 64" "chunk_sized s" "hp_size hp b = s"
proof -
  have "(b, s) \<in># mset bs + L"
    using assms(2) by simp
  then show "0 < b" "b + s < 2 ^ 64"
    using assms(1) mp.inv_regions[of mm "hp_pool hp" "mset bs + L"] unfolding ma_blocks_def by blast+
  show "chunk_sized s" "hp_size hp b = s"
    using assms by (auto simp: ma_blocks_def)
qed

lemma ma_list_check:
  assumes "ma_blocks mm ma hp bs L"
  shows "dll_at (hp_list (memalloc_list_check ma hp)) (ma_memblocks ma) (block_nodes bs)"
    and "ma_blocks mm ma (memalloc_list_check ma hp) bs L"
    and "hp_bytes (memalloc_list_check ma hp) = hp_bytes hp"
proof -
  obtain c s where "(c, s) \<in># L" "c \<le> ma_memblocks ma"
    using assms unfolding ma_blocks_def by blast
  then have "ma_memblocks ma \<noteq> 0"
    using assms mp.inv_regions[of mm "hp_pool hp" "mset bs + L"] unfolding ma_blocks_def by fastforce
  then show d: "dll_at (hp_list (memalloc_list_check ma hp)) (ma_memblocks ma) (block_nodes bs)"
    using assms dll_at_not_null by (auto simp: ma_blocks_def memalloc_list_check_def list_init_dll)
  then show "ma_blocks mm ma (memalloc_list_check ma hp) bs L"
    using assms by (simp add: ma_blocks_def memalloc_list_check_def)
  show "hp_bytes (memalloc_list_check ma hp) = hp_bytes hp"
    by (simp add: memalloc_list_check_def)
qed

text \<open>A fresh chunk overlaps no block and not the list head, so its node is a new one.\<close>

lemma fresh_block:
  assumes "ma_blocks mm ma hp bs L" "mempool_alloc_chunk mm (hp_pool hp) s = (b, p)" "b \<noteq> 0"
  shows "chunk_sized s" "0 < b" "b + s < 2 ^ 64" "pool_inv mm p (mset (bs @ [(b, s)]) + L)"
    "\<forall>q \<in> set bs. apart (b, s) q"
    "block_node b \<notin> set (ma_memblocks ma # block_nodes bs)" "b \<notin> fst ` set bs"
proof -
  have i: "pool_inv mm (hp_pool hp) (mset bs + L)"
    using assms(1) by (simp add: ma_blocks_def)
  show c: "chunk_sized s" and p: "pool_inv mm p (mset (bs @ [(b, s)]) + L)"
    using mp.alloc_chunk[OF i assms(2,3)] by simp_all
  have s: "4096 \<le> s"
    using chunk_sized_bounds[OF c] by simp
  have "(b, s) \<in># mset (bs @ [(b, s)]) + L"
    by simp
  then show "0 < b" "b + s < 2 ^ 64"
    using mp.inv_regions[OF p] by blast+
  have a: "apart (b, s) q" if "q \<in># mset bs + L" for q
    by (rule mp.alloc_disjoint[OF i assms(2,3) that])
  then show "\<forall>q \<in> set bs. apart (b, s) q"
    by simp
  have sz: "4096 \<le> t" if "(x, t) \<in> set bs" for x t
    using chunk_sized_bounds[OF ma_blocks_mem(3)[OF assms(1) that]] by simp
  obtain h t where h: "(h, t) \<in># L" "h \<le> ma_memblocks ma" "ma_memblocks ma + 16 \<le> h + t"
    using assms(1) unfolding ma_blocks_def by blast
  have "block_node b \<noteq> ma_memblocks ma"
    using a[of "(h, t)"] h s by (auto simp: block_node_def)
  moreover have nb: "b \<noteq> x" if "(x, t) \<in> set bs" for x t
    using a[of "(x, t)"] sz[OF that] that s by auto
  ultimately show "block_node b \<notin> set (ma_memblocks ma # block_nodes bs)"
    by (auto simp: block_node_def)
  show "b \<notin> fst ` set bs"
    using nb by force
qed

lemma block_setup_ok:
  assumes "ma_blocks mm ma hp bs L" "dll_at (hp_list hp) (ma_memblocks ma) (block_nodes bs)"
    and "mempool_alloc_chunk mm (hp_pool hp) s = (b, p)" "b \<noteq> 0"
  shows "ma_blocks mm ma (block_setup ma b s t (hp\<lparr>hp_pool := p\<rparr>)) (bs @ [(b, s)]) L"
proof -
  note f = fresh_block[OF assms(1,3,4)]
  have "dll_at (list_insert_tail (hp_list hp) (ma_memblocks ma) (block_node b)) (ma_memblocks ma)
      (block_nodes bs @ [block_node b])"
    by (rule list_insert_tail_dll[OF assms(2) f(6)]) (simp add: block_node_def)
  moreover have "\<forall>(x, t) \<in> set bs. x \<noteq> b"
    using f(7) by force
  ultimately show ?thesis
    using assms(1) f(1,4) by (auto simp: ma_blocks_def block_setup_def)
qed

lemma ma_extents_more:
  assumes "ma_extents ty ma bs es" "set bs \<subseteq> set bs'" "\<And>b. b \<in> fst ` set bs \<Longrightarrow> ty' b = ty b"
  shows "ma_extents ty' ma bs' es"
proof -
  have "\<exists>(b, s) \<in> set bs'. s = ma_capacity ma \<and> ty' b = MEMALLOC_MEM_TYPE_MALLOC \<and> P b s"
    if "\<exists>(b, s) \<in> set bs. s = ma_capacity ma \<and> ty b = MEMALLOC_MEM_TYPE_MALLOC \<and> P b s" for P
    using that assms(2,3) by fastforce
  then show ?thesis
    using assms(1,2) unfolding ma_extents_def by (meson subsetD)
qed

lemma ma_extents_in: "ma_extents ty ma bs es \<Longrightarrow> e \<in> set es \<Longrightarrow> \<exists>r \<in> set bs. inside e r"
  by (simp add: ma_extents_def)

lemma inside_apart:
  assumes "inside e r" "apart r (b, s)" "b \<le> m" "m + n \<le> b + s"
  shows "apart e (m, n)"
  using assms by (cases e; cases r) (auto simp: inside_def)

lemma new_block_cases:
  assumes "ma_ok mm ma hp bs es L" "memalloc_new_block mm ma hp = (r, ma', hp')"
  obtains "r = -1" "ma' = ma" "ma_ok mm ma hp' bs es L" "hp_bytes hp' = hp_bytes hp"
  | b where "r = 0" "ma_ok mm ma' hp' (bs @ [(b, ma_capacity ma')]) es L" "hp_bytes hp' = hp_bytes hp"
    "ma_memblocks ma' = ma_memblocks ma" "ma_mem ma' = b + 24" "ma_avail ma' = ma_capacity ma' - 24"
    "chunk_sized (ma_capacity ma')"
    "ma_capacity ma' = (if ma_capacity ma = 0 then 131072 else 2 * ma_capacity ma)"
    "\<forall>q \<in> set bs. apart (b, ma_capacity ma') q"
proof -
  let ?hp = "memalloc_list_check ma hp"
  define s where "s = (if ma_capacity ma \<noteq> 0 then shl64 (ma_capacity ma) 1 else MEMALLOC_INITIAL_BLOCK_SIZE)"
  have mb: "ma_blocks mm ma hp bs L" and me: "ma_extents (hp_type hp) ma bs es"
    using assms(1) by (simp_all add: ma_ok_def)
  note lc = ma_list_check[OF mb]
  obtain b p where bp: "mempool_alloc_chunk mm (hp_pool ?hp) s = (b, p)"
    by force
  have pool: "hp_pool ?hp = hp_pool hp"
    by (simp add: memalloc_list_check_def)
  have r: "(r, ma', hp') = (if b = 0 then (-1, ma, ?hp\<lparr>hp_pool := p\<rparr>)
     else (0, ma\<lparr>ma_capacity := s, ma_avail := s - BLOCK_HEADER, ma_mem := b + BLOCK_HEADER\<rparr>,
               block_setup ma b s MEMALLOC_MEM_TYPE_MALLOC (?hp\<lparr>hp_pool := p\<rparr>)))"
    using assms(2)[symmetric] bp unfolding memalloc_new_block_def Let_def s_def[symmetric]
    by (simp only: split_conv)
  show thesis
  proof (cases "b = 0")
    case True
    have "pool_inv mm p (mset bs + L)"
      using mp.alloc_null[of mm "hp_pool ?hp" "mset bs + L" s p] lc(2) bp True by (simp add: ma_blocks_def)
    then have "ma_blocks mm ma (?hp\<lparr>hp_pool := p\<rparr>) bs L"
      using lc(2) by (simp add: ma_blocks_def)
    then show thesis
      using that(1) r True me lc(3) by (simp add: ma_ok_def memalloc_list_check_def)
  next
    case False
    note f = fresh_block[OF lc(2) bp False]
    have sb: "4096 \<le> s" "s \<le> 2 ^ 31"
      using chunk_sized_bounds[OF f(1)] by auto
    have cap: "ma_capacity ma = 0 \<or> chunk_sized (ma_capacity ma)"
      using me ma_blocks_mem(3)[OF mb] unfolding ma_extents_def by auto
    then have sv: "s = (if ma_capacity ma = 0 then 131072 else 2 * ma_capacity ma)"
      using chunk_sized_double by (auto simp: s_def MEMALLOC_INITIAL_BLOCK_SIZE_def)
    have ty: "hp_type hp' = (hp_type hp)(b := MEMALLOC_MEM_TYPE_MALLOC)"
      using r False by (simp add: block_setup_def memalloc_list_check_def)
    have "ma_blocks mm ma hp' (bs @ [(b, s)]) L"
      using block_setup_ok[OF lc(2,1) bp False] r False by simp
    then have "ma_blocks mm ma' hp' (bs @ [(b, s)]) L"
      using r False by (simp add: ma_blocks_def)
    moreover have "apart e (b + 24, s - 24)" if e: "e \<in> set es" for e
    proof -
      obtain q where q: "q \<in> set bs" "inside e q"
        using ma_extents_in[OF me e] by blast
      have "apart q (b, s)"
        using f(5) q(1) apart_sym by blast
      then show ?thesis
        by (rule inside_apart[OF q(2)]) (use sb in simp_all)
    qed
    then have "ma_extents (hp_type hp') ma' (bs @ [(b, s)]) es"
      using me r False sb ty by (auto simp: ma_extents_def BLOCK_HEADER_def)
    ultimately show thesis
      using that(2)[of b] r False f sv lc(3) by (simp add: ma_ok_def BLOCK_HEADER_def block_setup_def)
  qed
qed


section \<open>Allocation\<close>

definition cap_room :: "memalloc \<Rightarrow> nat" where
  "cap_room ma = (if ma_capacity ma = 0 then 2 ^ 32 else 2 ^ 32 - ma_capacity ma)"

text \<open>Taking blocks until one is large enough ends: the sizes double and the pool refuses a chunk
  above 2 GiB.  \<open>grown\<close> collects what holds of the allocator afterwards.\<close>

definition grown ::
    "mmap_fun \<Rightarrow> memalloc \<Rightarrow> heap \<Rightarrow> (nat \<times> nat) list \<Rightarrow> (nat \<times> nat) list \<Rightarrow> (nat \<times> nat) multiset \<Rightarrow>
     memalloc \<Rightarrow> heap \<Rightarrow> (nat \<times> nat) list \<Rightarrow> bool" where
  "grown mm ma hp bs es L ma' hp' bs' \<longleftrightarrow>
     ma_ok mm ma' hp' bs' es L \<and> ma_memblocks ma' = ma_memblocks ma \<and> set bs \<subseteq> set bs' \<and>
     hp_bytes hp' = hp_bytes hp"

lemma new_block_grown:
  assumes "ma_ok mm ma hp bs es L" "memalloc_new_block mm ma hp = (r, ma', hp')"
  obtains bs' where "grown mm ma hp bs es L ma' hp' bs'" "r = 0 \<or> r = -1"
    "r = 0 \<longrightarrow> cap_room ma' < cap_room ma \<and> ma_capacity ma' \<noteq> 0 \<and> ma_avail ma' = ma_capacity ma' - 24 \<and>
       chunk_sized (ma_capacity ma') \<and>
       ma_capacity ma' = (if ma_capacity ma = 0 then 131072 else 2 * ma_capacity ma)"
proof (rule new_block_cases[OF assms])
  assume "r = -1" "ma' = ma" "ma_ok mm ma hp' bs es L" "hp_bytes hp' = hp_bytes hp"
  then show thesis
    using that[of bs] by (simp add: grown_def)
next
  fix b
  assume b: "r = 0" "ma_ok mm ma' hp' (bs @ [(b, ma_capacity ma')]) es L" "hp_bytes hp' = hp_bytes hp"
    "ma_memblocks ma' = ma_memblocks ma" "ma_mem ma' = b + 24" "ma_avail ma' = ma_capacity ma' - 24"
    "chunk_sized (ma_capacity ma')"
    "ma_capacity ma' = (if ma_capacity ma = 0 then 131072 else 2 * ma_capacity ma)"
    "\<forall>q \<in> set bs. apart (b, ma_capacity ma') q"
  have "ma_capacity ma' \<noteq> 0" "ma_capacity ma' \<le> 2 ^ 31"
    using chunk_sized_bounds[OF b(7)] by auto
  then have "cap_room ma' < cap_room ma"
    using b(8) by (auto simp: cap_room_def split: if_splits)
  then show thesis
    using that[of "bs @ [(b, ma_capacity ma')]"] b \<open>ma_capacity ma' \<noteq> 0\<close> by (auto simp: grown_def)
qed

lemma grown_trans:
  "grown mm ma hp bs es L ma1 hp1 bs1 \<Longrightarrow> grown mm ma1 hp1 bs1 es L ma2 hp2 bs2 \<Longrightarrow>
   grown mm ma hp bs es L ma2 hp2 bs2"
  by (auto simp: grown_def)

lemma grown_refl: "ma_ok mm ma hp bs es L \<Longrightarrow> grown mm ma hp bs es L ma hp bs"
  by (simp add: grown_def)

lemma resize_if_less_ok:
  assumes "ma_ok mm ma hp bs es L"
  shows "\<exists>r ma' hp' bs'. memalloc_resize_if_less mm n ma hp = Some (r, ma', hp') \<and>
    grown mm ma hp bs es L ma' hp' bs' \<and> (r = 0 \<and> n \<le> ma_avail ma' \<or> r = -1)"
  using assms
proof (induction "cap_room ma" arbitrary: ma hp bs rule: less_induct)
  case less
  note unf = memalloc_resize_if_less.simps[of mm n ma hp]
  show ?case
  proof (cases "ma_avail ma < n")
    case False
    then show ?thesis
      using unf grown_refl[OF less(2)] by auto
  next
    case True
    obtain r ma1 hp1 where nb: "memalloc_new_block mm ma hp = (r, ma1, hp1)"
      by (metis prod_cases3)
    obtain bs1 where g: "grown mm ma hp bs es L ma1 hp1 bs1" "r = 0 \<or> r = -1"
      "r = 0 \<longrightarrow> cap_room ma1 < cap_room ma"
      by (rule new_block_grown[OF less(2) nb]) blast
    show ?thesis
    proof (cases "r = 0")
      case True': True
      have "ma_ok mm ma1 hp1 bs1 es L"
        using g(1) by (simp add: grown_def)
      then obtain r' ma' hp' bs' where
        "memalloc_resize_if_less mm n ma1 hp1 = Some (r', ma', hp')"
        "grown mm ma1 hp1 bs1 es L ma' hp' bs'" "r' = 0 \<and> n \<le> ma_avail ma' \<or> r' = -1"
        using less(1)[of ma1 hp1 bs1] g(3) True' by blast
      then show ?thesis
        using unf nb True True' grown_trans[OF g(1)] by auto
    next
      case False
      then show ?thesis
        using unf nb True g by auto
    qed
  qed
qed

lemma ma_cur:
  assumes "ma_ok mm ma hp bs es L" "0 < ma_avail ma"
  obtains b where "(b, ma_capacity ma) \<in> set bs" "b + 24 \<le> ma_mem ma"
    "ma_mem ma + ma_avail ma = b + ma_capacity ma" "ma_mem ma + ma_avail ma < 2 ^ 64" "0 < ma_mem ma"
    "\<forall>e \<in> set es. apart e (ma_mem ma, ma_avail ma)" "hp_type hp b = MEMALLOC_MEM_TYPE_MALLOC"
proof -
  have "ma_extents (hp_type hp) ma bs es" and mb: "ma_blocks mm ma hp bs L"
    using assms by (simp_all add: ma_ok_def)
  then obtain b where b: "(b, ma_capacity ma) \<in> set bs" "b + 24 \<le> ma_mem ma"
    "ma_mem ma + ma_avail ma = b + ma_capacity ma" "\<forall>e \<in> set es. apart e (ma_mem ma, ma_avail ma)"
    "hp_type hp b = MEMALLOC_MEM_TYPE_MALLOC"
    using assms(2) unfolding ma_extents_def BLOCK_HEADER_def by (auto simp del: apart.simps)
  then show thesis
    using that[of b] ma_blocks_mem(1,2)[OF mb b(1)] by simp
qed

lemma seek_ok:
  assumes "ma_ok mm ma hp bs es L" "n \<le> ma_avail ma" "0 < n"
  shows "ma_ok mm (memalloc_seek ma n) hp bs ((ma_mem ma, n) # es) L"
proof -
  obtain b where b: "(b, ma_capacity ma) \<in> set bs" "b + 24 \<le> ma_mem ma"
    "ma_mem ma + ma_avail ma = b + ma_capacity ma" "ma_mem ma + ma_avail ma < 2 ^ 64" "0 < ma_mem ma"
    "\<forall>e \<in> set es. apart e (ma_mem ma, ma_avail ma)" "hp_type hp b = MEMALLOC_MEM_TYPE_MALLOC"
    by (rule ma_cur[OF assms(1)]) (use assms in auto)
  have s: "memalloc_seek ma n = ma\<lparr>ma_mem := ma_mem ma + n, ma_avail := ma_avail ma - n\<rparr>"
    using b(4) assms(2) by (simp add: memalloc_seek_def add64_small sub64_small)
  have e: "ma_extents (hp_type hp) ma bs es"
    using assms(1) by (simp add: ma_ok_def)
  have 1: "apart (ma_mem ma, n) x" "apart x (ma_mem ma + n, ma_avail ma - n)" if "x \<in> set es" for x
    using b(6) that assms(2) by (cases x; fastforce)+
  have "inside (ma_mem ma, n) (b, ma_capacity ma)"
    using b assms(2) by (simp add: inside_def BLOCK_HEADER_def)
  then have "\<forall>x \<in> set ((ma_mem ma, n) # es). 0 < snd x \<and> (\<exists>r \<in> set bs. inside x r)"
    using e b(1) assms(3) by (auto simp: ma_extents_def)
  moreover have "regions_ok (mset ((ma_mem ma, n) # es))"
    using 1(1) e by (simp add: regions_ok_add ma_extents_def)
  moreover have "\<exists>(b, s) \<in> set bs. s = ma_capacity ma \<and> hp_type hp b = MEMALLOC_MEM_TYPE_MALLOC \<and>
      b + BLOCK_HEADER \<le> ma_mem ma + n \<and>
      ma_mem ma + n + (ma_avail ma - n) = b + s \<and>
      (\<forall>x \<in> set ((ma_mem ma, n) # es). apart x (ma_mem ma + n, ma_avail ma - n))"
    using b assms(2) 1(2) by (intro bexI[OF _ b(1)]) (simp add: BLOCK_HEADER_def)
  ultimately have "ma_extents (hp_type hp) (memalloc_seek ma n) bs ((ma_mem ma, n) # es)"
    unfolding s ma_extents_def by simp
  then show ?thesis
    using assms(1) unfolding s by (simp add: ma_ok_def ma_blocks_def)
qed

lemma memalloc_alloc_ok:
  assumes "ma_ok mm ma hp bs es L" "0 < n"
  shows "\<exists>a ma' hp' bs'. memalloc_alloc mm ma hp n = Some (a, ma', hp') \<and> hp_bytes hp' = hp_bytes hp \<and>
     set bs \<subseteq> set bs' \<and>
     (if a = 0 then ma_ok mm ma' hp' bs' es L
      else ma_ok mm ma' hp' bs' ((a, n) # es) L)"
proof -
  obtain r ma1 hp1 bs1 where r: "memalloc_resize_if_less mm n ma hp = Some (r, ma1, hp1)"
    "grown mm ma hp bs es L ma1 hp1 bs1" "r = 0 \<and> n \<le> ma_avail ma1 \<or> r = -1"
    using resize_if_less_ok[OF assms(1)] by blast
  have ok: "ma_ok mm ma1 hp1 bs1 es L" "hp_bytes hp1 = hp_bytes hp" "set bs \<subseteq> set bs1"
    using r(2) by (simp_all add: grown_def)
  show ?thesis
  proof (cases "r = 0")
    case True
    then have n: "n \<le> ma_avail ma1"
      using r(3) by simp
    obtain b where "0 < ma_mem ma1"
      by (rule ma_cur[OF ok(1)]) (use n assms(2) in auto)
    then show ?thesis
      using seek_ok[OF ok(1) n assms(2)] r True ok(2,3) by (auto simp: memalloc_alloc_def)
  next
    case False
    then show ?thesis
      using r ok by (auto simp: memalloc_alloc_def)
  qed
qed


text \<open>With room in the current block the pool is not asked; otherwise one granted block that is
  large enough serves the request.\<close>

lemma memalloc_alloc_room:
  assumes "n \<le> ma_avail ma"
  shows "memalloc_alloc mm ma hp n = Some (ma_mem ma, memalloc_seek ma n, hp)"
  using assms by (simp add: memalloc_alloc_def memalloc_resize_if_less.simps)

definition next_block_size :: "memalloc \<Rightarrow> nat" where
  "next_block_size ma = (if ma_capacity ma = 0 then 131072 else 2 * ma_capacity ma)"

definition can_grow :: "mmap_fun \<Rightarrow> memalloc \<Rightarrow> heap \<Rightarrow> nat \<Rightarrow> bool" where
  "can_grow mm ma hp n \<longleftrightarrow>
     n + 24 \<le> next_block_size ma \<and> next_block_size ma \<le> 2 ^ 31 \<and>
     mm (mp_mapped (hp_pool hp)) (next_block_size ma) \<noteq> None"

lemma chunk_sized_next:
  assumes "chunk_sized c \<or> c = 0" "(if c = 0 then 131072 else 2 * c) \<le> 2 ^ 31"
  shows "chunk_sized (if c = 0 then 131072 else 2 * c)"
proof (cases "c = 0")
  case True
  then show ?thesis
    by (auto simp: chunk_sized_def intro!: exI[of _ 5])
next
  case False
  then obtain i where i: "c = 2 ^ (12 + i)"
    using assms(1) unfolding chunk_sized_def by blast
  then have "(2 :: nat) ^ (13 + i) \<le> 2 ^ 31"
    using assms(2) False by (simp add: power_add)
  then have "13 + i \<le> 31"
    using power_le_imp_le_exp[of "2 :: nat" "13 + i" 31] by simp
  then show ?thesis
    using i False by (auto simp: chunk_sized_def power_add intro!: exI[of _ "Suc i"])
qed

lemma alloc_chunk_granted:
  assumes "chunk_sized s" "mm (mp_mapped p) s \<noteq> None" "mmap_fresh mm"
  shows "fst (mempool_alloc_chunk mm p s) \<noteq> 0"
proof -
  have "\<not> mempool_alloc_validate_size s < 0"
    using assms(1) validate_size_iff by (simp add: chunk_sized_def)
  moreover obtain a where "mm (mp_mapped p) s = Some a" "0 < a"
    using assms(2,3) unfolding mmap_fresh_def by blast
  ultimately show ?thesis
    by (simp add: mempool_alloc_chunk_def Let_def)
qed

lemma ma_capacity_cases:
  assumes "ma_ok mm ma hp bs es L"
  shows "chunk_sized (ma_capacity ma) \<or> ma_capacity ma = 0"
  using assms ma_blocks_mem(3) by (fastforce simp: ma_ok_def ma_extents_def)

lemma new_block_granted:
  assumes "ma_ok mm ma hp bs es L" "can_grow mm ma hp n"
  obtains ma' hp' b where "memalloc_new_block mm ma hp = (0, ma', hp')"
    "ma_ok mm ma' hp' (bs @ [(b, ma_capacity ma')]) es L" "hp_bytes hp' = hp_bytes hp"
    "n \<le> ma_avail ma'" "ma_capacity ma' = next_block_size ma" "0 < ma_avail ma'"
    "ma_avail ma' = next_block_size ma - 24" "ma_memblocks ma' = ma_memblocks ma"
    "ma_mem ma' = b + 24" "\<forall>q \<in> set bs. apart (b, ma_capacity ma') q"
proof -
  have c: "chunk_sized (next_block_size ma)"
    using chunk_sized_next[OF ma_capacity_cases[OF assms(1)]] assms(2)
    by (simp add: can_grow_def next_block_size_def)
  obtain r ma' hp' where nb: "memalloc_new_block mm ma hp = (r, ma', hp')"
    by (metis prod_cases3)
  have fr: "mmap_fresh mm"
    using assms(1) by (simp add: ma_ok_def ma_blocks_def pool_inv_def)
  have s: "(if ma_capacity ma \<noteq> 0 then shl64 (ma_capacity ma) 1 else MEMALLOC_INITIAL_BLOCK_SIZE) =
      next_block_size ma"
    using ma_capacity_cases[OF assms(1)] chunk_sized_double
    by (auto simp: next_block_size_def MEMALLOC_INITIAL_BLOCK_SIZE_def)
  have "fst (mempool_alloc_chunk mm (hp_pool hp) (next_block_size ma)) \<noteq> 0"
    using alloc_chunk_granted[OF c _ fr] assms(2) unfolding can_grow_def by blast
  then have r: "r = 0"
    using nb unfolding memalloc_new_block_def Let_def s
    by (auto simp: memalloc_list_check_def split: prod.splits if_splits)
  have n: "n + 24 \<le> next_block_size ma"
    using assms(2) by (simp add: can_grow_def)
  have c': "4096 \<le> next_block_size ma"
    using chunk_sized_bounds[OF c] by simp
  show thesis
  proof (rule new_block_cases[OF assms(1) nb])
    assume "r = -1"
    then show thesis
      using r by simp
  next
    fix b
    assume b: "ma_ok mm ma' hp' (bs @ [(b, ma_capacity ma')]) es L" "hp_bytes hp' = hp_bytes hp"
      "ma_memblocks ma' = ma_memblocks ma" "ma_mem ma' = b + 24" "ma_avail ma' = ma_capacity ma' - 24"
      "ma_capacity ma' = (if ma_capacity ma = 0 then 131072 else 2 * ma_capacity ma)"
      "\<forall>q \<in> set bs. apart (b, ma_capacity ma') q"
    have cap: "ma_capacity ma' = next_block_size ma"
      using b(6) by (simp only: next_block_size_def)
    show thesis
      by (rule that[of ma' hp' b]) (use b(1-5,7) nb r cap n c' in simp_all)
  qed
qed

lemma memalloc_alloc_grow:
  assumes "ma_ok mm ma hp bs es L" "can_grow mm ma hp n" "ma_avail ma < n"
  shows "\<exists>a ma' hp'. memalloc_alloc mm ma hp n = Some (a, ma', hp') \<and> a \<noteq> 0"
proof -
  obtain ma' hp' b where nb: "memalloc_new_block mm ma hp = (0, ma', hp')" "n \<le> ma_avail ma'"
    "ma_mem ma' = b + 24"
    by (rule new_block_granted[OF assms(1,2)]) blast
  then have "memalloc_resize_if_less mm n ma hp = Some (0, ma', hp')"
    using assms(3) by (simp add: memalloc_resize_if_less.simps[of mm n ma hp]
        memalloc_resize_if_less.simps[of mm n ma' hp'])
  then show ?thesis
    using nb(3) by (simp add: memalloc_alloc_def)
qed

section \<open>Contents\<close>

text \<open>The bytes of everything that is handed out or belongs to others.\<close>

definition kept :: "(nat \<times> nat) list \<Rightarrow> (nat \<times> nat) multiset \<Rightarrow> (nat \<Rightarrow> byte) \<Rightarrow> (nat \<Rightarrow> byte) \<Rightarrow> bool" where
  "kept es L m m' \<longleftrightarrow>
     (\<forall>(x, t) \<in> set es \<union> set_mset L. \<forall>i. x \<le> i \<and> i < x + t \<longrightarrow> m' i = m i)"

lemma kept_refl [simp]: "kept es L m m"
  by (simp add: kept_def)

lemma kept_trans: "kept es L m m1 \<Longrightarrow> kept es L m1 m2 \<Longrightarrow> kept es L m m2"
  by (fastforce simp: kept_def)

lemma ma_ok_bytes [simp]: "ma_ok mm ma (hp\<lparr>hp_bytes := m\<rparr>) bs es L = ma_ok mm ma hp bs es L"
  by (simp add: ma_ok_def ma_blocks_def)

lemma free_area_apart:
  assumes "ma_ok mm ma hp bs es L" "0 < ma_avail ma" "r \<in> set es \<union> set_mset L"
  shows "apart r (ma_mem ma, ma_avail ma)"
proof -
  obtain b where b: "(b, ma_capacity ma) \<in> set bs" "b + 24 \<le> ma_mem ma"
    "ma_mem ma + ma_avail ma = b + ma_capacity ma" "\<forall>e \<in> set es. apart e (ma_mem ma, ma_avail ma)"
    by (rule ma_cur[OF assms(1,2)]) blast
  show ?thesis
  proof (cases "r \<in> set es")
    case True
    then show ?thesis
      using b(4) by blast
  next
    case False
    then have r: "r \<in># L"
      using assms(3) by simp
    have "regions_ok (mset bs + L)"
      using assms(1) mp.inv_regions by (auto simp: ma_ok_def ma_blocks_def)
    moreover obtain bs' where "mset bs = add_mset (b, ma_capacity ma) bs'"
      using b(1) by (metis mset_add set_mset_mset)
    ultimately have "apart (b, ma_capacity ma) r"
      using r by (simp add: regions_ok_add)
    then show ?thesis
      using b(2,3) by (cases r) auto
  qed
qed

lemma kept_write:
  assumes "ma_ok mm ma hp bs es L" "0 < ma_avail ma"
    and "\<And>i. i < ma_mem ma \<or> ma_mem ma + ma_avail ma \<le> i \<Longrightarrow> m' i = m i"
  shows "kept es L m m'"
  unfolding kept_def
proof (clarify)
  fix x t i
  assume "(x, t) \<in> set es \<union> set_mset L" "x \<le> i" "i < x + t"
  then show "m' i = m i"
    using free_area_apart[OF assms(1,2), of "(x, t)"] assms(3)[of i] by auto
qed

lemma vsnprintf_outside:
  "i < a \<or> a + n \<le> i \<Longrightarrow> vsnprintf_bytes m a n out i = m i"
  by (auto simp: vsnprintf_bytes_def mem_copy_def)

lemma vsnprintf_fits:
  "length out < n \<Longrightarrow> mem_read (vsnprintf_bytes m a n out) a (length out + 1) = out @ [0]"
  using mem_read_copy_same[of m a "out @ [0]"] by (simp add: vsnprintf_bytes_def)

lemma memalloc_memcpy_ok:
  assumes "ma_ok mm ma hp bs es L" "s \<noteq> []"
  shows "\<exists>a ma' hp' bs'. memalloc_memcpy mm ma hp s = Some (a, ma', hp') \<and>
     kept es L (hp_bytes hp) (hp_bytes hp') \<and>
     (if a = 0 then ma_ok mm ma' hp' bs' es L
      else ma_ok mm ma' hp' bs' ((a, length s) # es) L \<and> mem_read (hp_bytes hp') a (length s) = s)"
proof -
  obtain r ma1 hp1 bs1 where r: "memalloc_resize_if_less mm (length s) ma hp = Some (r, ma1, hp1)"
    "grown mm ma hp bs es L ma1 hp1 bs1" "r = 0 \<and> length s \<le> ma_avail ma1 \<or> r = -1"
    using resize_if_less_ok[OF assms(1)] by blast
  have ok: "ma_ok mm ma1 hp1 bs1 es L" "hp_bytes hp1 = hp_bytes hp"
    using r(2) by (simp_all add: grown_def)
  show ?thesis
  proof (cases "r = 0")
    case True
    then have n: "length s \<le> ma_avail ma1" "0 < ma_avail ma1" "0 < length s"
      using r(3) assms(2) by (simp_all, metis gr0I le_zero_eq length_0_conv)
    let ?m = "mem_copy (hp_bytes hp1) (ma_mem ma1) s"
    have "kept es L (hp_bytes hp1) ?m"
      by (rule kept_write[OF ok(1) n(2)]) (use n in \<open>auto intro: mem_copy_outside\<close>)
    moreover obtain b where "0 < ma_mem ma1"
      by (rule ma_cur[OF ok(1) n(2)]) blast
    ultimately show ?thesis
      using seek_ok[OF ok(1) n(1,3)] r True ok(2)
      by (intro exI[of _ "ma_mem ma1"] exI[of _ "memalloc_seek ma1 (length s)"]
          exI[of _ "hp1\<lparr>hp_bytes := ?m\<rparr>"] exI[of _ bs1]) (simp add: memalloc_memcpy_def)
  next
    case False
    then show ?thesis
      using r ok by (auto simp: memalloc_memcpy_def)
  qed
qed

text \<open>The outcome of the operations that store a string: the pointer is null, or it addresses a new
  extent that holds the string and its terminator.  Nothing else changes.\<close>

definition stored ::
    "mmap_fun \<Rightarrow> (nat \<times> nat) list \<Rightarrow> (nat \<times> nat) multiset \<Rightarrow> byte list option \<Rightarrow> (nat \<Rightarrow> byte) \<Rightarrow>
     nat \<times> memalloc \<times> heap \<Rightarrow> bool" where
  "stored mm es L fmt m res \<longleftrightarrow>
     (case res of (a, ma, hp) \<Rightarrow>
        kept es L m (hp_bytes hp) \<and>
        (\<exists>bs. if a = 0 then ma_ok mm ma hp bs es L
              else \<exists>out. fmt = Some out \<and> ma_ok mm ma hp bs ((a, length out + 1) # es) L \<and>
                     mem_read (hp_bytes hp) a (length out + 1) = out @ [0]))"

lemma stored_kept: "kept es L m m1 \<Longrightarrow> stored mm es L fmt m1 res \<Longrightarrow> stored mm es L fmt m res"
  using kept_trans by (fastforce simp: stored_def split: prod.splits)

lemma stored_null:
  "ma_ok mm ma hp bs es L \<Longrightarrow> kept es L m (hp_bytes hp) \<Longrightarrow> stored mm es L fmt m (0, ma, hp)"
  by (auto simp: stored_def)

lemma stored_seek:
  assumes "ma_ok mm ma hp bs es L" "length out < ma_avail ma" "kept es L m (hp_bytes hp)"
    and "mem_read (hp_bytes hp) (ma_mem ma) (length out + 1) = out @ [0]"
  shows "stored mm es L (Some out) m (ma_mem ma, memalloc_seek ma (length out + 1), hp)"
proof -
  obtain b where "0 < ma_mem ma"
    by (rule ma_cur[OF assms(1)]) (use assms(2) in auto)
  moreover have "ma_ok mm (memalloc_seek ma (length out + 1)) hp bs ((ma_mem ma, length out + 1) # es) L"
    by (rule seek_ok[OF assms(1)]) (use assms(2) in simp_all)
  ultimately show ?thesis
    using assms(3,4) by (auto simp: stored_def)
qed

text \<open>The step the retrying loops share: a block is taken, and either the pool refuses or the loop
  goes on with more room.\<close>

lemma new_block_retry:
  assumes "ma_ok mm ma hp bs es L" "memalloc_new_block mm ma hp = (r, ma', hp')"
  shows "hp_bytes hp' = hp_bytes hp \<and> (\<exists>bs'. ma_ok mm ma' hp' bs' es L) \<and>
    (r = 0 \<and> cap_room ma' < cap_room ma \<and> 0 < ma_avail ma' \<or> r = -1)"
proof (rule new_block_grown[OF assms])
  fix bs'
  assume g: "grown mm ma hp bs es L ma' hp' bs'" "r = 0 \<or> r = -1"
    "r = 0 \<longrightarrow> cap_room ma' < cap_room ma \<and> ma_capacity ma' \<noteq> 0 \<and> ma_avail ma' = ma_capacity ma' - 24 \<and>
       chunk_sized (ma_capacity ma') \<and>
       ma_capacity ma' = (if ma_capacity ma = 0 then 131072 else 2 * ma_capacity ma)"
  then have "r = 0 \<longrightarrow> 0 < ma_avail ma'"
    using chunk_sized_bounds[of "ma_capacity ma'"] by auto
  then show ?thesis
    using g by (auto simp: grown_def)
qed

lemma kept_vsnprintf:
  assumes "ma_ok mm ma hp bs es L"
  shows "kept es L (hp_bytes hp) (vsnprintf_bytes (hp_bytes hp) (ma_mem ma) (ma_avail ma) out)"
proof (cases "ma_avail ma = 0")
  case False
  then show ?thesis
    by (intro kept_write[OF assms]) (auto intro: vsnprintf_outside)
qed (simp add: vsnprintf_bytes_def)

lemma vsprintf_loop_ok:
  assumes "ma_ok mm ma hp bs es L"
  shows "\<exists>res. memalloc_vsprintf_loop mm fmt ma hp = Some res \<and> stored mm es L fmt (hp_bytes hp) res"
  using assms
proof (induction "cap_room ma" arbitrary: ma hp bs rule: less_induct)
  case less
  note unf = memalloc_vsprintf_loop.simps[of mm fmt ma hp]
  show ?case
  proof (cases fmt)
    case None
    then show ?thesis
      using unf stored_null[OF less(2)] by auto
  next
    case (Some out)
    let ?m = "vsnprintf_bytes (hp_bytes hp) (ma_mem ma) (ma_avail ma) out"
    let ?hp = "hp\<lparr>hp_bytes := ?m\<rparr>"
    note k = kept_vsnprintf[OF less(2), of out]
    have ok: "ma_ok mm ma ?hp bs es L"
      using less(2) by simp
    show ?thesis
    proof (cases "length out < ma_avail ma")
      case True
      then show ?thesis
        using stored_seek[OF ok True, of "hp_bytes hp"] k vsnprintf_fits[OF True] unf Some
        by (simp add: Let_def)
    next
      case False
      obtain r ma1 hp1 where nb: "memalloc_new_block mm ma ?hp = (r, ma1, hp1)"
        by (metis prod_cases3)
      obtain bs1 where g: "hp_bytes hp1 = ?m" "ma_ok mm ma1 hp1 bs1 es L"
        "r = 0 \<and> cap_room ma1 < cap_room ma \<or> r = -1"
        using new_block_retry[OF ok nb] by auto
      show ?thesis
        using g(3)
      proof
        assume r: "r = 0 \<and> cap_room ma1 < cap_room ma"
        then obtain res where "memalloc_vsprintf_loop mm fmt ma1 hp1 = Some res"
          "stored mm es L fmt (hp_bytes hp1) res"
          using less(1)[OF _ g(2)] by blast
        then show ?thesis
          using unf Some False nb r g(1) stored_kept[OF k] by (simp add: Let_def)
      next
        assume "r = -1"
        then show ?thesis
          using unf Some False nb stored_null[OF g(2)] g(1) k by (simp add: Let_def)
      qed
    qed
  qed
qed

lemma memalloc_vsprintf_ok:
  assumes "ma_ok mm ma hp bs es L"
  shows "\<exists>res. memalloc_vsprintf mm ma hp fmt = Some res \<and> stored mm es L fmt (hp_bytes hp) res"
proof (cases "ma_avail ma = 0")
  case False
  then show ?thesis
    using vsprintf_loop_ok[OF assms] by (simp add: memalloc_vsprintf_def)
next
  case True
  obtain r ma1 hp1 where nb: "memalloc_new_block mm ma hp = (r, ma1, hp1)"
    by (metis prod_cases3)
  obtain bs1 where g: "hp_bytes hp1 = hp_bytes hp" "ma_ok mm ma1 hp1 bs1 es L" "r = 0 \<or> r = -1"
    using new_block_retry[OF assms nb] by auto
  then show ?thesis
    using True nb vsprintf_loop_ok[OF g(2), of fmt] stored_null[OF g(2)]
    by (auto simp: memalloc_vsprintf_def)
qed


subsection \<open>Copying strings\<close>

definition cstr :: "(nat \<Rightarrow> byte) \<Rightarrow> nat \<Rightarrow> byte list \<Rightarrow> bool" where
  "cstr m a xs \<longleftrightarrow> 0 \<notin> set xs \<and> mem_read m a (length xs + 1) = xs @ [0]"

lemma cstr_nth:
  assumes "cstr m a xs"
  shows "i < length xs \<Longrightarrow> m (a + i) = xs ! i" "m (a + length xs) = 0"
proof -
  have r: "mem_read m a (length xs + 1) ! i = (xs @ [0]) ! i" for i
    using assms by (simp only: cstr_def)
  show "m (a + i) = xs ! i" if "i < length xs"
    using r[of i] that by (simp add: mem_read_def nth_append)
  show "m (a + length xs) = 0"
    using r[of "length xs"] by (simp add: mem_read_def nth_append)
qed

lemma cstr_Cons: "cstr m a (x # xs) \<longleftrightarrow> x \<noteq> 0 \<and> m a = x \<and> cstr m (a + 1) xs"
  by (auto simp: cstr_def mem_read_Suc)

lemma cstr_Nil: "cstr m a [] \<longleftrightarrow> m a = 0"
  by (simp add: cstr_def mem_read_def)

lemma cstr_cong:
  assumes "\<And>i. i \<le> length xs \<Longrightarrow> m' (a + i) = m (a + i)"
  shows "cstr m' a xs = cstr m a xs"
  using mem_read_cong[of "length xs + 1" m' a m] assms by (simp add: cstr_def)

text \<open>The copy loop on a source that the destination does not overlap.\<close>

lemma strcpy_bytes_ok:
  assumes "cstr m src xs" "src + length xs < dst \<or> lim \<le> src"
  shows "strcpy_bytes m dst src lim =
    (mem_copy m dst (take (lim - dst) xs), dst + min (lim - dst) (length xs), src + min (lim - dst) (length xs))"
  using assms
proof (induction xs arbitrary: m dst src)
  case Nil
  then show ?case
    by (simp add: strcpy_bytes.simps[of m dst src lim] cstr_Nil)
next
  case (Cons x xs)
  note unf = strcpy_bytes.simps[of m dst src lim]
  show ?case
  proof (cases "dst < lim")
    case False
    then show ?thesis
      using unf by simp
  next
    case True
    have c: "x \<noteq> 0" "m src = x" "cstr m (src + 1) xs"
      using Cons(2) by (simp_all add: cstr_Cons)
    have c': "cstr (m(dst := x)) (src + 1) xs"
      by (rule iffD2[OF cstr_cong c(3)]) (use Cons(3) True in auto)
    have "strcpy_bytes (m(dst := x)) (dst + 1) (src + 1) lim =
      (mem_copy (m(dst := x)) (dst + 1) (take (lim - (dst + 1)) xs),
       dst + 1 + min (lim - (dst + 1)) (length xs), src + 1 + min (lim - (dst + 1)) (length xs))"
      by (rule Cons(1)[OF c']) (use Cons(3) in auto)
    moreover have "lim - dst = Suc (lim - (dst + 1))"
      using True by simp
    ultimately show ?thesis
      using unf True c by (simp add: mem_copy_Cons)
  qed
qed

text \<open>A string is readable when it lies in a live extent or in somebody else's memory.\<close>

definition readable :: "(nat \<times> nat) list \<Rightarrow> (nat \<times> nat) multiset \<Rightarrow> nat \<Rightarrow> nat \<Rightarrow> bool" where
  "readable es L a n \<longleftrightarrow> (\<exists>(x, t) \<in> set es \<union> set_mset L. x \<le> a \<and> a + n \<le> x + t)"

lemma readable_kept:
  assumes "kept es L m m'" "readable es L a n"
  shows "i < n \<Longrightarrow> m' (a + i) = m (a + i)"
proof -
  assume i: "i < n"
  obtain x t where r: "(x, t) \<in> set es \<union> set_mset L" "x \<le> a" "a + n \<le> x + t"
    using assms(2) unfolding readable_def by blast
  then have "\<forall>i. x \<le> i \<and> i < x + t \<longrightarrow> m' i = m i"
    using assms(1) unfolding kept_def by blast
  then show ?thesis
    using r i by simp
qed

lemma cstr_kept:
  assumes "kept es L m m'" "readable es L a (length xs + 1)" "cstr m a xs"
  shows "cstr m' a xs"
  by (rule iffD2[OF cstr_cong assms(3)]) (rule readable_kept[OF assms(1,2)], simp)

lemma readable_apart:
  assumes "ma_ok mm ma hp bs es L" "0 < ma_avail ma" "readable es L a n"
  shows "a + n \<le> ma_mem ma \<or> ma_mem ma + ma_avail ma \<le> a"
  using free_area_apart[OF assms(1,2)] assms(3) unfolding readable_def by fastforce

lemma strcpy_step:
  assumes "ma_ok mm ma hp bs es L" "0 < ma_avail ma" "cstr (hp_bytes hp) s xs"
    and "readable es L s (length xs + 1)"
  defines "k \<equiv> min (ma_avail ma) (length xs)"
  shows "strcpy_bytes (hp_bytes hp) (ma_mem ma) s (ma_mem ma + ma_avail ma) =
      (mem_copy (hp_bytes hp) (ma_mem ma) (take (ma_avail ma) xs), ma_mem ma + k, s + k)"
    and "kept es L (hp_bytes hp) (mem_copy (hp_bytes hp) (ma_mem ma) (take (ma_avail ma) xs))"
proof -
  have "s + (length xs + 1) \<le> ma_mem ma \<or> ma_mem ma + ma_avail ma \<le> s"
    by (rule readable_apart[OF assms(1,2,4)])
  then show "strcpy_bytes (hp_bytes hp) (ma_mem ma) s (ma_mem ma + ma_avail ma) =
      (mem_copy (hp_bytes hp) (ma_mem ma) (take (ma_avail ma) xs), ma_mem ma + k, s + k)"
    using strcpy_bytes_ok[OF assms(3), of "ma_mem ma" "ma_mem ma + ma_avail ma"] by (auto simp: k_def)
  show "kept es L (hp_bytes hp) (mem_copy (hp_bytes hp) (ma_mem ma) (take (ma_avail ma) xs))"
    by (rule kept_write[OF assms(1,2)]) (rule mem_copy_outside, auto)
qed

lemma strcpy_loop_fits:
  assumes "ma_ok mm ma hp bs es L" "cstr (hp_bytes hp) s xs" "readable es L s (length xs + 1)"
    and "length xs < ma_avail ma"
  shows "memalloc_strcpy_loop mm s ma hp =
      Some (ma_mem ma, memalloc_seek ma (length xs + 1),
            hp\<lparr>hp_bytes := mem_copy (hp_bytes hp) (ma_mem ma) (xs @ [0])\<rparr>)"
    and "kept es L (hp_bytes hp) (mem_copy (hp_bytes hp) (ma_mem ma) (xs @ [0]))"
proof -
  have a: "0 < ma_avail ma"
    using assms(4) by simp
  note st = strcpy_step[OF assms(1) a assms(2,3)]
  let ?m = "mem_copy (hp_bytes hp) (ma_mem ma) xs"
  have "cstr ?m s xs"
    using cstr_kept[OF st(2) assms(3,2)] assms(4) by simp
  then have "?m (s + length xs) = 0"
    by (rule cstr_nth(2))
  then show "memalloc_strcpy_loop mm s ma hp =
      Some (ma_mem ma, memalloc_seek ma (length xs + 1),
            hp\<lparr>hp_bytes := mem_copy (hp_bytes hp) (ma_mem ma) (xs @ [0])\<rparr>)"
    using st(1) assms(4)
    by (simp add: memalloc_strcpy_loop.simps[of mm s ma hp] Let_def mem_copy_snoc)
  show "kept es L (hp_bytes hp) (mem_copy (hp_bytes hp) (ma_mem ma) (xs @ [0]))"
    by (rule kept_write[OF assms(1) a]) (rule mem_copy_outside, use assms(4) in auto)
qed

lemma strcpy_loop_retry:
  assumes "ma_ok mm ma hp bs es L" "cstr (hp_bytes hp) s xs" "readable es L s (length xs + 1)"
    and "ma_avail ma \<le> length xs" "0 < ma_avail ma"
  shows "memalloc_strcpy_loop mm s ma hp =
      (case memalloc_new_block mm ma (hp\<lparr>hp_bytes :=
              mem_copy (hp_bytes hp) (ma_mem ma) (take (ma_avail ma) xs)\<rparr>) of
         (r, ma, hp) \<Rightarrow> if r < 0 then Some (0, ma, hp) else memalloc_strcpy_loop mm s ma hp)"
  using strcpy_step(1)[OF assms(1,5,2,3)] assms(4)
  by (simp add: memalloc_strcpy_loop.simps[of mm s ma hp] Let_def)

lemma strcpy_loop_ok:
  assumes "ma_ok mm ma hp bs es L" "cstr (hp_bytes hp) s xs" "readable es L s (length xs + 1)" "0 < ma_avail ma"
  shows "\<exists>res. memalloc_strcpy_loop mm s ma hp = Some res \<and> stored mm es L (Some xs) (hp_bytes hp) res"
  using assms
proof (induction "cap_room ma" arbitrary: ma hp bs rule: less_induct)
  case less
  show ?case
  proof (cases "length xs < ma_avail ma")
    case True
    note f = strcpy_loop_fits[OF less(2-4) True]
    let ?m = "mem_copy (hp_bytes hp) (ma_mem ma) (xs @ [0])"
    have "mem_read ?m (ma_mem ma) (length xs + 1) = xs @ [0]"
      using mem_read_copy_same[of "hp_bytes hp" "ma_mem ma" "xs @ [0]"] by simp
    then show ?thesis
      using stored_seek[of mm ma "hp\<lparr>hp_bytes := ?m\<rparr>" bs es L xs "hp_bytes hp"] less(2) True f by simp
  next
    case False
    let ?m = "mem_copy (hp_bytes hp) (ma_mem ma) (take (ma_avail ma) xs)"
    let ?hp = "hp\<lparr>hp_bytes := ?m\<rparr>"
    note k = strcpy_step(2)[OF less(2,5,3,4)]
    have ok: "ma_ok mm ma ?hp bs es L"
      using less(2) by simp
    obtain r ma1 hp1 where nb: "memalloc_new_block mm ma ?hp = (r, ma1, hp1)"
      by (metis prod_cases3)
    obtain bs1 where g: "hp_bytes hp1 = ?m" "ma_ok mm ma1 hp1 bs1 es L"
      "r = 0 \<and> cap_room ma1 < cap_room ma \<and> 0 < ma_avail ma1 \<or> r = -1"
      using new_block_retry[OF ok nb] by auto
    have unf: "memalloc_strcpy_loop mm s ma hp =
        (if r < 0 then Some (0, ma1, hp1) else memalloc_strcpy_loop mm s ma1 hp1)"
      using strcpy_loop_retry[OF less(2-4) _ less(5)] False nb by simp
    have c: "cstr (hp_bytes hp1) s xs"
      using cstr_kept[OF k less(4,3)] g(1) by simp
    show ?thesis
      using g(3)
    proof
      assume r: "r = 0 \<and> cap_room ma1 < cap_room ma \<and> 0 < ma_avail ma1"
      then obtain res where "memalloc_strcpy_loop mm s ma1 hp1 = Some res"
          "stored mm es L (Some xs) (hp_bytes hp1) res"
        using less(1)[OF _ g(2) c less(4)] r by blast
      then show ?thesis
        using unf r g(1) stored_kept[OF k] by simp
    next
      assume "r = -1"
      then show ?thesis
        using unf stored_null[OF g(2)] g(1) k by simp
    qed
  qed
qed

lemma memalloc_strcpy_ok:
  assumes "ma_ok mm ma hp bs es L" "cstr (hp_bytes hp) s xs" "readable es L s (length xs + 1)"
  shows "\<exists>res. memalloc_strcpy mm ma hp s = Some res \<and> stored mm es L (Some xs) (hp_bytes hp) res"
proof (cases "ma_avail ma = 0")
  case False
  then show ?thesis
    using strcpy_loop_ok[OF assms] by (simp add: memalloc_strcpy_def)
next
  case True
  obtain r ma1 hp1 where nb: "memalloc_new_block mm ma hp = (r, ma1, hp1)"
    by (metis prod_cases3)
  obtain bs1 where g: "hp_bytes hp1 = hp_bytes hp" "ma_ok mm ma1 hp1 bs1 es L"
    "r = 0 \<and> 0 < ma_avail ma1 \<or> r = -1"
    using new_block_retry[OF assms(1) nb] by auto
  then show ?thesis
    using True nb strcpy_loop_ok[OF g(2) _ assms(3)] assms(2) stored_null[OF g(2)]
    by (auto simp: memalloc_strcpy_def)
qed

lemma memalloc_strftime_ok:
  assumes "ma_ok mm ma hp bs es L"
  shows "\<exists>res. memalloc_strftime mm out ma hp = Some res \<and> stored mm es L (Some out) (hp_bytes hp) res"
  using assms
proof (induction "cap_room ma" arbitrary: ma hp bs rule: less_induct)
  case less
  note unf = memalloc_strftime.simps[of mm out ma hp]
  show ?case
  proof (cases "length out < ma_avail ma \<and> out \<noteq> []")
    case True
    let ?m = "mem_copy (hp_bytes hp) (ma_mem ma) (out @ [0])"
    have a: "0 < ma_avail ma" "length out < ma_avail ma"
      using True by auto
    have "kept es L (hp_bytes hp) ?m"
      by (rule kept_write[OF less(2) a(1)]) (rule mem_copy_outside, use a in auto)
    moreover have "mem_read ?m (ma_mem ma) (length out + 1) = out @ [0]"
      using mem_read_copy_same[of "hp_bytes hp" "ma_mem ma" "out @ [0]"] by simp
    ultimately show ?thesis
      using stored_seek[of mm ma "hp\<lparr>hp_bytes := ?m\<rparr>" bs es L out "hp_bytes hp"] less(2) True unf
      by (simp add: Let_def)
  next
    case False
    obtain r ma1 hp1 where nb: "memalloc_new_block mm ma hp = (r, ma1, hp1)"
      by (metis prod_cases3)
    obtain bs1 where g: "hp_bytes hp1 = hp_bytes hp" "ma_ok mm ma1 hp1 bs1 es L"
      "r = 0 \<and> cap_room ma1 < cap_room ma \<or> r = -1"
      using new_block_retry[OF less(2) nb] by auto
    have u: "memalloc_strftime mm out ma hp = (if r < 0 then Some (0, ma1, hp1) else memalloc_strftime mm out ma1 hp1)"
      using unf False nb by (auto simp: Let_def)
    show ?thesis
      using g(3)
    proof
      assume r: "r = 0 \<and> cap_room ma1 < cap_room ma"
      then show ?thesis
        using less(1)[OF _ g(2)] u g(1) by auto
    next
      assume "r = -1"
      then show ?thesis
        using u stored_null[OF g(2)] g(1) by simp
    qed
  qed
qed

section \<open>Appending to a string\<close>

lemma ma_cur0:
  assumes "ma_ok mm ma hp bs es L" "ma_mem ma \<noteq> 0"
  obtains b where "(b, ma_capacity ma) \<in> set bs" "b + 24 \<le> ma_mem ma"
    "ma_mem ma + ma_avail ma = b + ma_capacity ma" "ma_mem ma + ma_avail ma < 2 ^ 64"
    "\<forall>e \<in> set es. apart e (ma_mem ma, ma_avail ma)" "hp_type hp b = MEMALLOC_MEM_TYPE_MALLOC"
proof -
  have "ma_extents (hp_type hp) ma bs es" and mb: "ma_blocks mm ma hp bs L"
    using assms by (simp_all add: ma_ok_def)
  then obtain b where b: "(b, ma_capacity ma) \<in> set bs" "b + 24 \<le> ma_mem ma"
    "ma_mem ma + ma_avail ma = b + ma_capacity ma" "\<forall>e \<in> set es. apart e (ma_mem ma, ma_avail ma)"
    "hp_type hp b = MEMALLOC_MEM_TYPE_MALLOC"
    using assms(2) unfolding ma_extents_def BLOCK_HEADER_def by (auto simp del: apart.simps)
  then show thesis
    using that[of b] ma_blocks_mem(1,2)[OF mb b(1)] by simp
qed


lemma unseek_seek:
  assumes "0 < ma_mem ma" "ma_mem ma + ma_avail ma < 2 ^ 64" "n \<le> ma_avail ma"
  shows "memalloc_seek (unseek1 ma) (n + 1) = ma\<lparr>ma_mem := ma_mem ma + n, ma_avail := ma_avail ma - n\<rparr>"
proof -
  have "ma_avail ma + 1 < 2 ^ 64" "ma_mem ma < 2 ^ 64" "1 \<le> ma_mem ma"
    using assms by simp_all
  then have "sub64 (ma_mem ma) 1 = ma_mem ma - 1" "add64 (ma_avail ma) 1 = ma_avail ma + 1"
    by (simp_all only: sub64_small add64_small)
  then show ?thesis
    using assms by (simp add: memalloc_seek_def unseek1_def add64_small sub64_small)
qed

lemma unseek_fields:
  assumes "0 < ma_mem ma" "ma_mem ma + ma_avail ma < 2 ^ 64"
  shows "ma_mem (unseek1 ma) = ma_mem ma - 1" "ma_avail (unseek1 ma) = ma_avail ma + 1"
  using assms by (simp_all add: unseek1_def add64_small sub64_small)

lemma new_block_unseek:
  "memalloc_new_block mm ma hp = (0, ma1, hp1) \<Longrightarrow> memalloc_new_block mm (unseek1 ma) hp = (0, ma1, hp1)"
  by (auto simp: memalloc_new_block_def unseek1_def memalloc_list_check_def block_setup_def Let_def
      split: prod.splits if_splits)

lemma regions_ok_same:
  assumes "regions_ok M" "(a, s) \<in># M" "(b, t) \<in># M" "a \<le> x" "x < a + s" "b \<le> x" "x < b + t"
  shows "(a, s) = (b, t)"
proof (rule ccontr)
  assume ne: "(a, s) \<noteq> (b, t)"
  obtain N where "M = add_mset (a, s) N"
    using assms(2) by (metis mset_add)
  then have "apart (a, s) (b, t)"
    using assms(1,3) ne by (auto simp: regions_ok_add)
  then show False
    using assms by auto
qed

text \<open>An extent that ends where the free area begins can be enlarged in place.\<close>

lemma extend_extent:
  assumes "ma_ok mm ma hp bs ((a, s) # es) L" "a + s = ma_mem ma" "n \<le> ma_avail ma"
  shows "ma_ok mm (ma\<lparr>ma_mem := ma_mem ma + n, ma_avail := ma_avail ma - n\<rparr>) hp bs ((a, s + n) # es) L"
proof -
  have ex: "ma_extents (hp_type hp) ma bs ((a, s) # es)" and mb: "ma_blocks mm ma hp bs L"
    using assms(1) by (simp_all add: ma_ok_def)
  then obtain r where r: "r \<in> set bs" "inside (a, s) r" "0 < s"
    by (auto simp: ma_extents_def)
  obtain b where b: "(b, ma_capacity ma) \<in> set bs" "b + 24 \<le> ma_mem ma"
    "ma_mem ma + ma_avail ma = b + ma_capacity ma"
    "\<forall>e \<in> set ((a, s) # es). apart e (ma_mem ma, ma_avail ma)" "hp_type hp b = MEMALLOC_MEM_TYPE_MALLOC"
    by (rule ma_cur0[OF assms(1)]) (use r(3) assms(2) in auto)
  have "regions_ok (mset bs)"
    using mb mp.inv_regions regions_ok_sub unfolding ma_blocks_def by blast
  then have "(fst r, snd r) = (b, ma_capacity ma)"
    by (rule regions_ok_same[where x = "a + s - 1"])
      (use r b(1-3) assms(2) in \<open>auto simp: inside_def BLOCK_HEADER_def\<close>)
  then have rb: "r = (b, ma_capacity ma)"
    by simp
  have 1: "apart (a, s + n) x" "apart x (ma_mem ma + n, ma_avail ma - n)" if "x \<in> set es" for x
  proof -
    have "apart (a, s) x" "apart x (ma_mem ma, ma_avail ma)" "0 < snd x"
      using ex that b(4) by (auto simp: ma_extents_def regions_ok_add)
    then show "apart (a, s + n) x" "apart x (ma_mem ma + n, ma_avail ma - n)"
      using assms(2,3) r(3) by (cases x; auto)+
  qed
  have in': "inside (a, s + n) (b, ma_capacity ma)"
    using r(2) rb b(3) assms(2,3) by (simp add: inside_def)
  have cur: "\<exists>(b, t) \<in> set bs. t = ma_capacity ma \<and> hp_type hp b = MEMALLOC_MEM_TYPE_MALLOC \<and>
      b + BLOCK_HEADER \<le> ma_mem ma + n \<and> ma_mem ma + n + (ma_avail ma - n) = b + t \<and>
      (\<forall>x \<in> set ((a, s + n) # es). apart x (ma_mem ma + n, ma_avail ma - n))"
    using b 1(2) assms(2,3) by (intro bexI[OF _ b(1)]) (simp add: BLOCK_HEADER_def)
  have all: "\<forall>e \<in> set ((a, s + n) # es). 0 < snd e \<and> (\<exists>r \<in> set bs. inside e r)"
    using ex in' b(1) by (auto simp: ma_extents_def)
  have reg: "regions_ok (mset ((a, s + n) # es))"
    using ex 1(1) by (auto simp: ma_extents_def regions_ok_add)
  have "ma_extents (hp_type hp) (ma\<lparr>ma_mem := ma_mem ma + n, ma_avail := ma_avail ma - n\<rparr>) bs ((a, s + n) # es)"
    unfolding ma_extents_def using all reg cur by simp
  then show ?thesis
    using mb by (simp add: ma_ok_def ma_blocks_def)
qed

lemma mem_read_append: "mem_read m a (j + k) = mem_read m a j @ mem_read m (a + j) k"
  by (rule nth_equalityI) (auto simp: mem_read_def nth_append)

lemma vsnprintf_read_before:
  "a + n \<le> b \<Longrightarrow> mem_read (vsnprintf_bytes m b k out) a n = mem_read m a n"
  by (rule mem_read_cong) (rule vsnprintf_outside, simp)

lemma kept_sub: "kept (e # es) L m m' \<Longrightarrow> kept es L m m'"
  by (simp add: kept_def)

text \<open>The string \<open>xs\<close> at \<open>buf\<close> is the last thing allocated.\<close>

definition last_str :: "memalloc \<Rightarrow> heap \<Rightarrow> nat \<Rightarrow> byte list \<Rightarrow> bool" where
  "last_str ma hp buf xs \<longleftrightarrow>
     0 < buf \<and> cstr (hp_bytes hp) buf xs \<and> ma_mem ma = buf + (length xs + 1)"

lemma extent_apart:
  assumes "ma_ok mm ma hp bs (e # es) L" "r \<in> set es \<union> set_mset L"
  shows "apart r e" "0 < snd r"
proof -
  have ex: "ma_extents (hp_type hp) ma bs (e # es)" and mb: "ma_blocks mm ma hp bs L"
    using assms(1) by (simp_all add: ma_ok_def)
  have reg: "regions_ok (mset bs + L)" "\<forall>(a, s) \<in># mset bs + L. 0 < a \<and> 0 < s \<and> a + s < 2 ^ 64"
    using mb mp.inv_regions unfolding ma_blocks_def by blast+
  show "0 < snd r"
    using assms(2) ex reg(2) by (cases r) (fastforce simp: ma_extents_def)
  show "apart r e"
  proof (cases "r \<in> set es")
    case True
    then show ?thesis
      using ex apart_sym[of r e] by (simp add: ma_extents_def regions_ok_add)
  next
    case False
    obtain q where q: "q \<in> set bs" "inside e q"
      using ma_extents_in[OF ex, of e] by auto
    obtain N where "mset bs = add_mset q N"
      using q(1) by (metis mset_add set_mset_mset)
    then have "apart q r"
      using reg(1) assms(2) False by (auto simp: regions_ok_add)
    then have "apart e (fst r, snd r)"
      using inside_apart[OF q(2), of "fst r" "snd r" "fst r" "snd r"] by simp
    then show ?thesis
      using apart_sym[of r e] by simp
  qed
qed

text \<open>Bytes from the end of the last extent on can be written without touching anything else.\<close>

lemma kept_from:
  assumes "ma_ok mm ma hp bs ((buf, k) # es) L" "ma_mem ma = buf + k"
    and "\<And>i. i < buf \<or> ma_mem ma + ma_avail ma \<le> i \<Longrightarrow> m' i = m i"
  shows "kept es L m m'"
  unfolding kept_def
proof (clarify)
  fix x t i
  assume a: "(x, t) \<in> set es \<union> set_mset L" "x \<le> i" "i < x + t"
  have "ma_ok mm (ma\<lparr>ma_mem := ma_mem ma + ma_avail ma, ma_avail := ma_avail ma - ma_avail ma\<rparr>) hp bs
      ((buf, k + ma_avail ma) # es) L"
    by (rule extend_extent[OF assms(1)]) (use assms(2) in auto)
  then have "apart (x, t) (buf, k + ma_avail ma)"
    using extent_apart(1) a(1) by blast
  then show "m' i = m i"
    using a assms(2) assms(3)[of i] by auto
qed

lemma strcat_step:
  assumes "ma_ok mm ma hp bs ((buf, length xs + 1) # es) L" "last_str ma hp buf xs" "length out \<le> ma_avail ma"
    and "0 < ma_mem ma" "ma_mem ma + ma_avail ma < 2 ^ 64"
  defines "m \<equiv> vsnprintf_bytes (hp_bytes hp) (ma_mem (unseek1 ma)) (ma_avail (unseek1 ma)) out"
  shows "mem_read m buf (length xs + length out + 1) = xs @ out @ [0]" "kept es L (hp_bytes hp) m"
    "ma_ok mm (memalloc_seek (unseek1 ma) (length out + 1)) hp bs ((buf, length xs + length out + 1) # es) L"
proof -
  have mem: "ma_mem ma = buf + (length xs + 1)" and c: "cstr (hp_bytes hp) buf xs"
    using assms(2) by (simp_all add: last_str_def)
  have m: "m = vsnprintf_bytes (hp_bytes hp) (buf + length xs) (ma_avail ma + 1) out"
    using unseek_fields[OF assms(4,5)] mem by (simp add: m_def)
  have "mem_read (hp_bytes hp) buf (length xs + 1) = xs @ [0]"
    using c by (simp add: cstr_def)
  then have "mem_read (hp_bytes hp) buf (length xs) = xs"
    using mem_read_append[of "hp_bytes hp" buf "length xs" 1] by simp
  then have "mem_read m buf (length xs) = xs"
    unfolding m by (simp add: vsnprintf_read_before)
  moreover have "mem_read m (buf + length xs) (length out + 1) = out @ [0]"
    unfolding m by (rule vsnprintf_fits) (use assms(3) in simp)
  ultimately show "mem_read m buf (length xs + length out + 1) = xs @ out @ [0]"
    using mem_read_append[of m buf "length xs" "length out + 1"] by simp
  show "kept es L (hp_bytes hp) m"
    by (rule kept_from[OF assms(1) mem]) (unfold m, rule vsnprintf_outside, use mem in auto)
  show "ma_ok mm (memalloc_seek (unseek1 ma) (length out + 1)) hp bs ((buf, length xs + length out + 1) # es) L"
    using extend_extent[OF assms(1) _ assms(3)] mem unseek_seek[OF assms(4,5,3)] by simp
qed

lemma strcat_loop_fits:
  assumes "ma_ok mm ma hp bs ((buf, length xs + 1) # es) L" "last_str ma hp buf xs" "length out \<le> ma_avail ma"
  shows "\<exists>ma' hp'. memalloc_strcat_loop mm (Some out) False buf ma hp = Some (0, buf, ma', hp') \<and>
     hp_pool hp' = hp_pool hp \<and> kept es L (hp_bytes hp) (hp_bytes hp') \<and>
     mem_read (hp_bytes hp') buf (length xs + length out + 1) = xs @ out @ [0] \<and>
     ma_ok mm ma' hp' bs ((buf, length xs + length out + 1) # es) L"
proof -
  have b: "0 < ma_mem ma" "buf \<noteq> 0"
    using assms(2) by (simp_all add: last_str_def)
  have b2: "ma_mem ma + ma_avail ma < 2 ^ 64"
    by (rule ma_cur0[OF assms(1)]) (use b(1) in auto)
  let ?m = "vsnprintf_bytes (hp_bytes hp) (ma_mem (unseek1 ma)) (ma_avail (unseek1 ma)) out"
  have "memalloc_strcat_loop mm (Some out) False buf ma hp =
      Some (0, buf, memalloc_seek (unseek1 ma) (length out + 1), hp\<lparr>hp_bytes := ?m\<rparr>)"
    using b(2) assms(3) unseek_fields[OF b(1) b2]
    by (simp add: memalloc_strcat_loop.simps[of mm "Some out" False buf ma hp] Let_def)
  then show ?thesis
    using strcat_step[OF assms b(1) b2] by simp
qed

lemma strcat_loop_moved:
  assumes "ma_ok mm ma hp bs ((buf, length xs + 1) # es) L" "cstr (hp_bytes hp) buf xs" "buf \<noteq> 0"
    and "length xs + length out + 1 \<le> ma_avail ma"
  shows "\<exists>buf' ma' hp'. memalloc_strcat_loop mm (Some out) True buf ma hp = Some (0, buf', ma', hp') \<and>
     kept es L (hp_bytes hp) (hp_bytes hp') \<and>
     mem_read (hp_bytes hp') buf' (length xs + length out + 1) = xs @ out @ [0] \<and>
     ma_ok mm ma' hp' bs ((buf', length xs + length out + 1) # (buf, length xs + 1) # es) L"
proof -
  let ?es = "(buf, length xs + 1) # es"
  have rd: "readable ?es L buf (length xs + 1)"
    by (auto simp: readable_def)
  let ?hp = "hp\<lparr>hp_bytes := mem_copy (hp_bytes hp) (ma_mem ma) (xs @ [0])\<rparr>"
  let ?ma = "memalloc_seek ma (length xs + 1)"
  have av: "length xs < ma_avail ma" "0 < ma_avail ma"
    using assms(4) by simp_all
  note f = strcpy_loop_fits[OF assms(1,2) rd av(1)]
  have cp: "memalloc_strcpy mm ma hp buf = Some (ma_mem ma, ?ma, ?hp)"
    using f(1) av(2) by (simp add: memalloc_strcpy_def)
  have ok: "ma_ok mm ?ma ?hp bs ((ma_mem ma, length xs + 1) # ?es) L"
    using seek_ok[OF assms(1), of "length xs + 1"] av(1) by simp
  obtain b where b: "ma_mem ma + ma_avail ma < 2 ^ 64" "0 < ma_mem ma"
    by (rule ma_cur[OF assms(1) av(2)]) blast
  have sk: "ma_mem ?ma = ma_mem ma + (length xs + 1)" "ma_avail ?ma = ma_avail ma - (length xs + 1)"
    using b av(1) by (simp_all add: memalloc_seek_def add64_small sub64_small)
  have ls: "last_str ?ma ?hp (ma_mem ma) xs"
    using b(2) sk(1) assms(2) mem_read_copy_same[of "hp_bytes hp" "ma_mem ma" "xs @ [0]"]
    by (simp add: last_str_def cstr_def)
  have b': "0 < ma_mem ?ma" "ma_mem ?ma + ma_avail ?ma < 2 ^ 64" "length out \<le> ma_avail ?ma"
    using b sk assms(4) by simp_all
  let ?m = "vsnprintf_bytes (hp_bytes ?hp) (ma_mem (unseek1 ?ma)) (ma_avail (unseek1 ?ma)) out"
  have "memalloc_strcat_loop mm (Some out) True buf ma hp =
      Some (0, ma_mem ma, memalloc_seek (unseek1 ?ma) (length out + 1), ?hp\<lparr>hp_bytes := ?m\<rparr>)"
    using assms(3) cp b' b(2) unseek_fields[OF b'(1,2)]
    by (simp add: memalloc_strcat_loop.simps[of mm "Some out" True buf ma hp] Let_def)
  then show ?thesis
    using strcat_step[OF ok ls b'(3,1,2)] kept_sub[OF kept_trans[OF f(2)]] by simp
qed


lemma can_grow_bytes [simp]: "can_grow mm ma (hp\<lparr>hp_bytes := m\<rparr>) n = can_grow mm ma hp n"
  by (simp add: can_grow_def)

text \<open>The outcome of appending \<open>out\<close> to the string \<open>xs\<close>.\<close>

definition appended ::
    "mmap_fun \<Rightarrow> (nat \<times> nat) list \<Rightarrow> (nat \<times> nat) multiset \<Rightarrow> byte list \<Rightarrow> (nat \<Rightarrow> byte) \<Rightarrow>
     int \<times> nat \<times> memalloc \<times> heap \<Rightarrow> bool" where
  "appended mm es L ys m res \<longleftrightarrow>
     (case res of (r, buf, ma, hp) \<Rightarrow>
        r = 0 \<and> kept es L m (hp_bytes hp) \<and> mem_read (hp_bytes hp) buf (length ys + 1) = ys @ [0] \<and>
        (\<exists>bs es'. set es \<subseteq> set es' \<and> ma_ok mm ma hp bs ((buf, length ys + 1) # es') L))"

lemma strcat_fits:
  assumes "ma_ok mm ma hp bs ((buf, length xs + 1) # es) L" "last_str ma hp buf xs"
    and "length out \<le> ma_avail ma" "0 < ma_avail ma"
  shows "\<exists>res. memalloc_strcat_vsprintf mm ma hp buf (Some out) = Some res \<and>
    appended mm es L (xs @ out) (hp_bytes hp) res \<and> fst (snd res) = buf"
  using strcat_loop_fits[OF assms(1-3)] assms(4)
  by (auto simp: memalloc_strcat_vsprintf_def appended_def)

lemma strcat_moved:
  assumes "ma_ok mm ma hp bs ((buf, length xs + 1) # es) L" "cstr (hp_bytes hp) buf xs" "buf \<noteq> 0"
    and "length xs + length out + 1 \<le> ma_avail ma" "kept es L m (hp_bytes hp)"
  shows "\<exists>res. memalloc_strcat_loop mm (Some out) True buf ma hp = Some res \<and>
    appended mm es L (xs @ out) m res"
proof -
  obtain buf' ma' hp' where r: "memalloc_strcat_loop mm (Some out) True buf ma hp = Some (0, buf', ma', hp')"
    "kept es L (hp_bytes hp) (hp_bytes hp')"
    "mem_read (hp_bytes hp') buf' (length xs + length out + 1) = xs @ out @ [0]"
    "ma_ok mm ma' hp' bs ((buf', length xs + length out + 1) # (buf, length xs + 1) # es) L"
    using strcat_loop_moved[OF assms(1-4)] by blast
  have "\<exists>bs es'. set es \<subseteq> set es' \<and> ma_ok mm ma' hp' bs ((buf', length (xs @ out) + 1) # es') L"
    using r(4) by (intro exI[of _ bs] exI[of _ "(buf, length xs + 1) # es"]) auto
  then have "appended mm es L (xs @ out) m (0, buf', ma', hp')"
    using r(3) kept_trans[OF assms(5) r(2)] by (simp add: appended_def)
  then show ?thesis
    using r(1) by blast
qed

lemma strcat_grow:
  assumes "ma_ok mm ma hp bs ((buf, length xs + 1) # es) L" "last_str ma hp buf xs"
    and "ma_avail ma = 0 \<or> ma_avail ma < length out" "can_grow mm ma hp (length xs + length out + 1)"
  shows "\<exists>res. memalloc_strcat_vsprintf mm ma hp buf (Some out) = Some res \<and>
    appended mm es L (xs @ out) (hp_bytes hp) res"
proof -
  have b: "0 < ma_mem ma" "buf \<noteq> 0" "ma_mem ma = buf + (length xs + 1)" "cstr (hp_bytes hp) buf xs"
    using assms(2) by (simp_all add: last_str_def)
  show ?thesis
  proof (cases "ma_avail ma = 0")
    case True
    obtain ma1 hp1 c where n: "memalloc_new_block mm ma hp = (0, ma1, hp1)"
      "ma_ok mm ma1 hp1 (bs @ [(c, ma_capacity ma1)]) ((buf, length xs + 1) # es) L" "hp_bytes hp1 = hp_bytes hp"
      "length xs + length out + 1 \<le> ma_avail ma1"
      by (rule new_block_granted[OF assms(1,4)]) blast
    then show ?thesis
      using strcat_moved[OF n(2) _ b(2) n(4), of "hp_bytes hp"] b(4) True
      by (simp add: memalloc_strcat_vsprintf_def)
  next
    case False
    have b2: "ma_mem ma + ma_avail ma < 2 ^ 64"
      by (rule ma_cur0[OF assms(1)]) (use b(1) in auto)
    note u = unseek_fields[OF b(1) b2]
    let ?m = "vsnprintf_bytes (hp_bytes hp) (ma_mem (unseek1 ma)) (ma_avail (unseek1 ma)) out"
    have ok: "ma_ok mm ma (hp\<lparr>hp_bytes := ?m\<rparr>) bs ((buf, length xs + 1) # es) L"
      using assms(1) by simp
    obtain ma1 hp1 c where n: "memalloc_new_block mm ma (hp\<lparr>hp_bytes := ?m\<rparr>) = (0, ma1, hp1)"
      "ma_ok mm ma1 hp1 (bs @ [(c, ma_capacity ma1)]) ((buf, length xs + 1) # es) L" "hp_bytes hp1 = ?m"
      "length xs + length out + 1 \<le> ma_avail ma1"
      by (rule new_block_granted[OF ok, of "length xs + length out + 1"])
        (use assms(4) in auto)
    let ?hp = "hp1\<lparr>hp_bytes := (hp_bytes hp1)(ma_mem (unseek1 ma) := 0)\<rparr>"
    have eq: "memalloc_strcat_vsprintf mm ma hp buf (Some out) = memalloc_strcat_loop mm (Some out) True buf ma1 ?hp"
      using False b(2) assms(3) u new_block_unseek[OF n(1)]
      by (simp add: memalloc_strcat_vsprintf_def memalloc_strcat_loop.simps[of mm "Some out" False buf ma hp] Let_def)
    have same: "hp_bytes ?hp i = hp_bytes hp i" if "i < buf + length xs \<or> ma_mem ma + ma_avail ma \<le> i" for i
      using that u b(3) n(3) by (auto simp: vsnprintf_outside)
    have "cstr (hp_bytes ?hp) buf xs"
    proof (rule iffD2[OF cstr_cong b(4)])
      fix i
      assume "i \<le> length xs"
      then consider "i < length xs" | "i = length xs"
        by linarith
      then show "hp_bytes ?hp (buf + i) = hp_bytes hp (buf + i)"
      proof cases
        case 1
        then show ?thesis
          by (intro same) simp
      next
        case 2
        then show ?thesis
          using u(1) b(3) cstr_nth(2)[OF b(4)] by simp
      qed
    qed
    moreover have "kept es L (hp_bytes hp) (hp_bytes ?hp)"
      by (rule kept_from[OF assms(1) b(3)]) (rule same, use b(3) in auto)
    moreover have "ma_ok mm ma1 ?hp (bs @ [(c, ma_capacity ma1)]) ((buf, length xs + 1) # es) L"
      using n(2) by simp
    ultimately show ?thesis
      unfolding eq using strcat_moved[OF _ _ b(2) n(4)] by blast
  qed
qed

section \<open>Giving memory back\<close>

lemma reset_loop_ok:
  assumes "links (hp_list hp) (x # block_nodes bs @ [l])" "l \<notin> set (block_nodes bs)"
    and "pool_inv mm (hp_pool hp) (mset bs + L)" "\<forall>(b, s) \<in> set bs. hp_size hp b = s \<and> chunk_sized s"
  shows "\<exists>hp'. memalloc_reset_loop t l (nxt (hp_list hp) x) hp = Some hp' \<and>
    pool_inv mm (hp_pool hp') (mset (filter (\<lambda>(b, s). hp_type hp b < t) bs) + L) \<and>
    hp_list hp' = hp_list hp \<and> hp_bytes hp' = hp_bytes hp \<and> hp_type hp' = hp_type hp \<and> hp_size hp' = hp_size hp"
  using assms
proof (induction bs arbitrary: x hp L)
  case Nil
  then show ?case
    by (simp add: memalloc_reset_loop.simps list_is_head_def)
next
  case (Cons r bs)
  obtain b s where r: "r = (b, s)"
    by force
  let ?hp = "hp\<lparr>hp_pool := snd (mempool_free_chunk (hp_pool hp) b s)\<rparr>"
  let ?n = "block_node b"
  have nx: "nxt (hp_list hp) x = ?n" "?n \<noteq> l" "LIST_ENTRY_block ?n = b" "hp_size hp b = s" "chunk_sized s"
    using Cons(2,3,5) r by (auto simp: block_node_def LIST_ENTRY_block_def)
  have li: "links (hp_list hp) (?n # block_nodes bs @ [l])" "l \<notin> set (block_nodes bs)"
    "\<forall>(b, s) \<in> set bs. hp_size hp b = s \<and> chunk_sized s"
    using Cons(2,3,5) r by auto
  have unf: "memalloc_reset_loop t l (nxt (hp_list hp) x) hp =
      memalloc_reset_loop t l (nxt (hp_list hp) ?n) (if t \<le> hp_type hp b then ?hp else hp)"
    using nx by (simp add: memalloc_reset_loop.simps[of t l ?n hp] list_is_head_def list_next_def Let_def)
  show ?case
  proof (cases "t \<le> hp_type hp b")
    case True
    have "pool_inv mm (hp_pool hp) (add_mset (b, s) (mset bs + L))"
      using Cons(4) r by simp
    then obtain p' where "mempool_free_chunk (hp_pool hp) b s = (0, p')" "pool_inv mm p' (mset bs + L)"
      using mp.free_chunk[OF _ nx(5)] by blast
    then have "pool_inv mm (hp_pool ?hp) (mset bs + L)"
      by simp
    then show ?thesis
      using Cons(1)[of ?hp ?n L] li unf True r by simp
  next
    case False
    have "pool_inv mm (hp_pool hp) (mset bs + add_mset (b, s) L)"
      using Cons(4) r by simp
    then show ?thesis
      using Cons(1)[of hp ?n "add_mset (b, s) L"] li unf False r by simp
  qed
qed

text \<open>A reset gives back exactly the blocks whose type is at least \<open>t\<close>; the others stay with whoever still
  uses them, and the allocator starts afresh.\<close>

lemma memalloc_reset2_ok:
  assumes "ma_ok mm ma hp bs es L"
  shows "\<exists>ma' hp'. memalloc_reset2 ma hp t = Some (ma', hp') \<and> hp_bytes hp' = hp_bytes hp \<and>
    ma_ok mm ma' hp' [] [] (mset (filter (\<lambda>(b, s). hp_type hp b < t) bs) + L)"
proof -
  let ?l = "ma_memblocks ma"
  have mb: "ma_blocks mm ma hp bs L"
    using assms by (simp add: ma_ok_def)
  show ?thesis
  proof (cases "list_is_null (hp_list hp) ?l")
    case True
    then have bs: "bs = []"
      using mb dll_at_not_null by (auto simp: ma_blocks_def)
    then have "ma_extents (hp_type hp) ma [] []"
      using assms by (simp add: ma_ok_def ma_extents_def)
    then show ?thesis
      using True bs mb by (simp add: memalloc_reset2_def ma_ok_def)
  next
    case False
    then have "dll_at (hp_list hp) ?l (block_nodes bs)"
      using mb by (simp add: ma_blocks_def)
    then have d: "links (hp_list hp) (?l # block_nodes bs @ [?l])"
      "?l \<notin> set (block_nodes bs)"
      by (simp_all add: dll_at_def)
    obtain hp' where h: "memalloc_reset_loop t ?l (nxt (hp_list hp) ?l) hp = Some hp'"
      "pool_inv mm (hp_pool hp') (mset (filter (\<lambda>(b, s). hp_type hp b < t) bs) + L)"
      "hp_bytes hp' = hp_bytes hp"
      using reset_loop_ok[OF d] mb unfolding ma_blocks_def by blast
    let ?ma = "ma\<lparr>ma_avail := 0, ma_capacity := 0, ma_mem := 0\<rparr>"
    let ?hp = "hp'\<lparr>hp_list := list_set_null (hp_list hp') ?l\<rparr>"
    have "\<exists>c s. (c, s) \<in># L \<and> c \<le> ?l \<and> ?l + 16 \<le> c + s"
      using mb by (simp add: ma_blocks_def)
    then have "ma_ok mm ?ma ?hp [] [] (mset (filter (\<lambda>(b, s). hp_type hp b < t) bs) + L)"
      using h(2) by (auto simp: ma_ok_def ma_blocks_def ma_extents_def list_is_null_def list_set_null_def)
    then show ?thesis
      using h(1,3) False by (simp add: memalloc_reset2_def list_next_def)
  qed
qed

lemma memalloc_reset_ok:
  assumes "ma_ok mm ma hp bs es L"
  shows "\<exists>ma' hp'. memalloc_reset ma hp = Some (ma', hp') \<and> hp_bytes hp' = hp_bytes hp \<and>
    ma_ok mm ma' hp' [] [] L"
  using memalloc_reset2_ok[OF assms, of MEMALLOC_MEM_TYPE_ANY]
  by (simp add: memalloc_reset_def MEMALLOC_MEM_TYPE_ANY_def)

section \<open>Blocks for buffers\<close>

lemma block_node_entry [simp]: "LIST_ENTRY_block (block_node b) = b"
  by (simp add: LIST_ENTRY_block_def block_node_def)

lemma ma_extents_add:
  assumes "ma_extents ty ma bs es" "0 < snd e" "\<exists>r \<in> set bs. inside e r" "\<forall>x \<in> set es. apart e x"
    and "ma_mem ma \<noteq> 0 \<longrightarrow> apart e (ma_mem ma, ma_avail ma)"
  shows "ma_extents ty ma bs (e # es)"
proof -
  have "\<forall>x \<in> set (e # es). 0 < snd x \<and> (\<exists>r \<in> set bs. inside x r)"
    using assms(1-3) by (auto simp: ma_extents_def)
  moreover have "regions_ok (mset (e # es))"
    using assms(1,4) by (simp add: ma_extents_def regions_ok_add)
  moreover have "ma_capacity ma = 0 \<and> ma_avail ma = 0 \<and> ma_mem ma = 0 \<or>
      (\<exists>(b, s) \<in> set bs. s = ma_capacity ma \<and> ty b = MEMALLOC_MEM_TYPE_MALLOC \<and>
         b + BLOCK_HEADER \<le> ma_mem ma \<and> ma_mem ma + ma_avail ma = b + s \<and>
         (\<forall>e \<in> set (e # es). apart e (ma_mem ma, ma_avail ma)))"
    using assms(1,5) unfolding ma_extents_def
    by (elim conjE disjE bexE) (auto simp: BLOCK_HEADER_def simp del: apart.simps)
  ultimately show ?thesis
    unfolding ma_extents_def by blast
qed

lemma ma_area_inside:
  assumes "ma_extents ty ma bs es" "ma_mem ma \<noteq> 0"
  shows "\<exists>q \<in> set bs. inside (ma_mem ma, ma_avail ma) q \<and> ty (fst q) = MEMALLOC_MEM_TYPE_MALLOC"
proof -
  obtain b s where "(b, s) \<in> set bs" "s = ma_capacity ma" "ty b = MEMALLOC_MEM_TYPE_MALLOC"
    "b + BLOCK_HEADER \<le> ma_mem ma" "ma_mem ma + ma_avail ma = b + s"
    using assms unfolding ma_extents_def by blast
  then show ?thesis
    by (intro bexI[of _ "(b, s)"]) (simp_all add: inside_def)
qed

lemma memalloc_alloc_raw_ok:
  assumes "ma_ok mm ma hp bs es L" "n \<le> 2 ^ 62" "memalloc_alloc_raw mm ma hp n = ((k, r), hp')"
  shows "case r of
     None \<Rightarrow> k = 0 \<and> ma_ok mm ma hp' bs es L \<and> hp_bytes hp' = hp_bytes hp
   | Some a \<Rightarrow> n \<le> k \<and> 0 < a \<and> ma_ok mm ma hp' (bs @ [(a - 24, k + 24)]) ((a, k) # es) L \<and>
       hp_type hp' (a - 24) = MEMALLOC_MEM_TYPE_BUF \<and> hp_bytes hp' = hp_bytes hp"
proof -
  let ?hp = "memalloc_list_check ma hp"
  define s where "s = next_p2_64 (add64 n BLOCK_HEADER)"
  have mb: "ma_blocks mm ma hp bs L" and me: "ma_extents (hp_type hp) ma bs es"
    using assms(1) by (simp_all add: ma_ok_def)
  note lc = ma_list_check[OF mb]
  have ty: "hp_type ?hp = hp_type hp"
    by (simp add: memalloc_list_check_def)
  obtain b p where bp: "mempool_alloc_chunk mm (hp_pool ?hp) s = (b, p)"
    by force
  have res: "((k, r), hp') = (if b = 0 then ((0, None), ?hp\<lparr>hp_pool := p\<rparr>)
      else ((s - BLOCK_HEADER, Some (b + BLOCK_HEADER)),
            block_setup ma b s MEMALLOC_MEM_TYPE_BUF (?hp\<lparr>hp_pool := p\<rparr>)))"
    using assms(3)[symmetric] bp unfolding memalloc_alloc_raw_def Let_def s_def[symmetric]
    by (simp only: split_conv)
  show ?thesis
  proof (cases "b = 0")
    case True
    have "pool_inv mm p (mset bs + L)"
      using mp.alloc_null[of mm "hp_pool ?hp" "mset bs + L" s p] lc(2) bp True by (simp add: ma_blocks_def)
    then have "ma_blocks mm ma (?hp\<lparr>hp_pool := p\<rparr>) bs L"
      using lc(2) by (simp add: ma_blocks_def)
    then show ?thesis
      using res True me lc(3) ty by (simp add: ma_ok_def)
  next
    case False
    note f = fresh_block[OF lc(2) bp False]
    have sb: "4096 \<le> s"
      using chunk_sized_bounds[OF f(1)] by auto
    have "n + 24 \<le> s"
      using next_p2_64_bounds(1)[of "n + 24"] assms(2)
      by (simp add: s_def BLOCK_HEADER_def add64_small)
    have h: "hp_type hp' = (hp_type hp)(b := MEMALLOC_MEM_TYPE_BUF)" "hp_bytes hp' = hp_bytes hp"
      "k = s - 24" "r = Some (b + 24)"
      using res False lc(3) ty by (simp_all add: block_setup_def BLOCK_HEADER_def)
    have blk: "ma_blocks mm ma hp' (bs @ [(b, s)]) L"
      using block_setup_ok[OF lc(2,1) bp False] res False by simp
    have ex: "ma_extents (hp_type hp') ma (bs @ [(b, s)]) es"
      by (rule ma_extents_more[OF me]) (use f(7) h(1) in auto)
    have new: "apart (b + 24, s - 24) x" if q: "q \<in> set bs" "inside x q" for x q
    proof -
      have "apart q (b, s)"
        using f(5) q(1) apart_sym by blast
      then have "apart x (b + 24, s - 24)"
        by (rule inside_apart[OF q(2)]) (use sb in simp_all)
      then show ?thesis
        using apart_sym by blast
    qed
    have "ma_extents (hp_type hp') ma (bs @ [(b, s)]) ((b + 24, s - 24) # es)"
    proof (rule ma_extents_add[OF ex])
      show "0 < snd (b + 24, s - 24)" "\<exists>r \<in> set (bs @ [(b, s)]). inside (b + 24, s - 24) r"
        using sb by (auto simp: inside_def BLOCK_HEADER_def)
      show "\<forall>x \<in> set es. apart (b + 24, s - 24) x"
        using ma_extents_in[OF me] new by blast
      show "ma_mem ma \<noteq> 0 \<longrightarrow> apart (b + 24, s - 24) (ma_mem ma, ma_avail ma)"
        using ma_area_inside[OF me] new by blast
    qed
    then show ?thesis
      using h blk sb \<open>n + 24 \<le> s\<close> by (simp add: ma_ok_def)
  qed
qed


lemma ma_extents_drop:
  assumes "ma_extents ty ma (xs @ (b, s) # ys) ((b + 24, s - 24) # es)" "ty b \<noteq> MEMALLOC_MEM_TYPE_MALLOC"
  shows "ma_extents ty ma (xs @ ys) es"
proof -
  have "\<exists>r \<in> set (xs @ ys). inside e r" if e: "e \<in> set es" for e
  proof -
    obtain r where r: "r \<in> set (xs @ (b, s) # ys)" "inside e r"
      using ma_extents_in[OF assms(1), of e] e by (metis list.set_intros(2))
    have "apart (b + 24, s - 24) e" "0 < snd e"
      using assms(1) e by (auto simp: ma_extents_def regions_ok_add)
    then have "r \<noteq> (b, s)"
      using r(2) by (cases e) (auto simp: inside_def BLOCK_HEADER_def)
    then show ?thesis
      using r by auto
  qed
  then have 1: "\<forall>e \<in> set es. 0 < snd e \<and> (\<exists>r \<in> set (xs @ ys). inside e r)" and 2: "regions_ok (mset es)"
    using assms(1) by (simp_all add: ma_extents_def regions_ok_add)
  have 3: "ma_capacity ma = 0 \<and> ma_avail ma = 0 \<and> ma_mem ma = 0 \<or>
      (\<exists>(c, t) \<in> set (xs @ (b, s) # ys). t = ma_capacity ma \<and> ty c = MEMALLOC_MEM_TYPE_MALLOC \<and>
         c + BLOCK_HEADER \<le> ma_mem ma \<and> ma_mem ma + ma_avail ma = c + t \<and>
         (\<forall>e \<in> set ((b + 24, s - 24) # es). apart e (ma_mem ma, ma_avail ma)))"
    using assms(1) unfolding ma_extents_def by (elim conjE) assumption
  have "(\<exists>(c, t) \<in> set (xs @ ys). t = ma_capacity ma \<and> ty c = MEMALLOC_MEM_TYPE_MALLOC \<and>
         c + BLOCK_HEADER \<le> ma_mem ma \<and> ma_mem ma + ma_avail ma = c + t \<and>
         (\<forall>e \<in> set es. apart e (ma_mem ma, ma_avail ma)))"
    if c: "(c, t) \<in> set (xs @ (b, s) # ys)" "t = ma_capacity ma" "ty c = MEMALLOC_MEM_TYPE_MALLOC"
      "c + BLOCK_HEADER \<le> ma_mem ma" "ma_mem ma + ma_avail ma = c + t"
      "\<forall>e \<in> set ((b + 24, s - 24) # es). apart e (ma_mem ma, ma_avail ma)" for c t
    by (intro bexI[of _ "(c, t)"]) (use c assms(2) in auto)
  then show ?thesis
    unfolding ma_extents_def using 1 2 3 by blast
qed

lemma memalloc_free_raw_ok:
  assumes "ma_ok mm ma hp (xs @ (b, s) # ys) ((b + 24, s - 24) # es) L"
    and "hp_type hp b = MEMALLOC_MEM_TYPE_BUF"
  shows "ma_ok mm ma (memalloc_free_raw hp (b + 24)) (xs @ ys) es L"
    and "hp_bytes (memalloc_free_raw hp (b + 24)) = hp_bytes hp"
proof -
  let ?bs = "xs @ (b, s) # ys"
  have mb: "ma_blocks mm ma hp ?bs L" and me: "ma_extents (hp_type hp) ma ?bs ((b + 24, s - 24) # es)"
    using assms(1) by (simp_all add: ma_ok_def)
  have s: "hp_size hp b = s" "chunk_sized s"
    using ma_blocks_mem[OF mb, of b s] by auto
  have "dll_at (hp_list hp) (ma_memblocks ma) (block_nodes xs @ block_node b # block_nodes ys)"
    using mb by (auto simp: ma_blocks_def)
  then have d: "dll_at (list_remove (hp_list hp) (block_node b)) (ma_memblocks ma) (block_nodes (xs @ ys))"
    using list_remove_dll by simp
  have "pool_inv mm (hp_pool hp) (add_mset (b, s) (mset (xs @ ys) + L))"
    using mb by (simp add: ma_blocks_def)
  then obtain p where p: "mempool_free_chunk (hp_pool hp) b s = (0, p)" "pool_inv mm p (mset (xs @ ys) + L)"
    using mp.free_chunk[OF _ s(2)] by blast
  have fr: "memalloc_free_raw hp (b + 24) = hp\<lparr>hp_list := list_remove (hp_list hp) (block_node b), hp_pool := p\<rparr>"
    using p(1) s(1) by (simp add: memalloc_free_raw_def BLOCK_HEADER_def)
  have "ma_blocks mm ma (memalloc_free_raw hp (b + 24)) (xs @ ys) L"
    using mb d p(2) unfolding fr by (auto simp: ma_blocks_def)
  moreover have "ma_extents (hp_type hp) ma (xs @ ys) es"
    by (rule ma_extents_drop[OF me]) (simp add: assms(2) MEMALLOC_MEM_TYPE_BUF_def MEMALLOC_MEM_TYPE_MALLOC_def)
  ultimately show "ma_ok mm ma (memalloc_free_raw hp (b + 24)) (xs @ ys) es L"
    unfolding fr by (simp add: ma_ok_def)
  show "hp_bytes (memalloc_free_raw hp (b + 24)) = hp_bytes hp"
    unfolding fr by simp
qed

section \<open>Queries\<close>

lemma ma_list_cases:
  assumes "ma_ok mm ma hp bs es L"
  shows "list_is_null (hp_list hp) (ma_memblocks ma) \<and> bs = [] \<or>
    \<not> list_is_null (hp_list hp) (ma_memblocks ma) \<and>
    LIST_FOR_EACH (hp_list hp) (ma_memblocks ma) = Some (block_nodes bs)"
  using assms dll_at_not_null list_for_each_dll by (auto simp: ma_ok_def ma_blocks_def)

lemma memalloc_is_mine_ok:
  assumes "ma_ok mm ma hp bs es L"
  shows "memalloc_is_mine ma hp a = Some (\<exists>(b, s) \<in> set bs. b \<le> a \<and> a < b + s)"
proof -
  have mb: "ma_blocks mm ma hp bs L"
    using assms by (simp add: ma_ok_def)
  have sz: "hp_size hp (fst r) = snd r" if "r \<in> set bs" for r
    using ma_blocks_mem(4)[OF mb, of "fst r" "snd r"] that by simp
  have "list_ex (\<lambda>it. let b = LIST_ENTRY_block it in b \<le> a \<and> a < b + hp_size hp b) (block_nodes bs) \<longleftrightarrow>
      (\<exists>(b, s) \<in> set bs. b \<le> a \<and> a < b + s)"
    by (simp add: list_ex_iff Let_def split_beta sz cong: bex_cong)
  then show ?thesis
    using ma_list_cases[OF assms] by (auto simp: memalloc_is_mine_def)
qed

lemma foldl_add64_sizes:
  assumes "u + sum_list (map f xs) < 2 ^ 64"
  shows "foldl (\<lambda>u x. add64 u (f x)) u xs = u + sum_list (map f xs)"
  using assms by (induction xs arbitrary: u) (simp_all add: add64_small)

lemma memalloc_usage_ok:
  assumes "ma_ok mm ma hp bs es L" "sum_list (map snd bs) < 2 ^ 64"
  shows "memalloc_usage ma hp = Some (sum_list (map snd bs) - ma_avail ma)"
proof -
  have mb: "ma_blocks mm ma hp bs L" and me: "ma_extents (hp_type hp) ma bs es"
    using assms by (simp_all add: ma_ok_def)
  have "map (\<lambda>it. hp_size hp (LIST_ENTRY_block it)) (block_nodes bs) = map snd bs"
    using ma_blocks_mem(4)[OF mb] by (force simp: block_nodes_def)
  then have sum: "foldl (\<lambda>u it. add64 u (hp_size hp (LIST_ENTRY_block it))) 0 (block_nodes bs) = sum_list (map snd bs)"
    using foldl_add64_sizes[of 0 "\<lambda>it. hp_size hp (LIST_ENTRY_block it)" "block_nodes bs"] assms(2) by simp
  have "ma_avail ma \<le> sum_list (map snd bs)"
  proof (cases "ma_mem ma = 0")
    case True
    then show ?thesis
      using me by (auto simp: ma_extents_def BLOCK_HEADER_def)
  next
    case False
    then obtain q where q: "q \<in> set bs" "inside (ma_mem ma, ma_avail ma) q"
      using ma_area_inside[OF me] by blast
    then have "ma_avail ma \<le> snd q"
      by (simp add: inside_def)
    also have "\<dots> \<le> sum_list (map snd bs)"
      using q(1) by (simp add: member_le_sum_list)
    finally show ?thesis .
  qed
  then show ?thesis
    using ma_list_cases[OF assms(1)] sum assms(2) by (auto simp: memalloc_usage_def sub64_small)
qed

end
