(* ===== verification/Memalloc_Props.thy ===== *)
theory Memalloc_Props
  imports Memalloc_Proofs
begin

text \<open>
  The properties of the context allocator, with concrete states on which their hypotheses
  hold.
\<close>

section \<open>Concrete states\<close>

text \<open>A kernel that maps above everything in use, and an allocator that has just been initialised and
  whose structure lies in the first region.\<close>

definition regions_end :: "(nat \<times> nat) list \<Rightarrow> nat" where
  "regions_end rs = foldr (\<lambda>(a, s) m. max (a + s) m) rs 65536"

definition bump_mmap :: mmap_fun where
  "bump_mmap rs s = (let a = regions_end rs in if a + s < 2 ^ 64 then Some a else None)"

definition heap_example :: heap where
  "heap_example = \<lparr>hp_pool = mempool_initial [(4096, 4096)],
     hp_list = \<lparr>nxt = (\<lambda>_. 0), prv = (\<lambda>_. 0)\<rparr>, hp_size = (\<lambda>_. 0), hp_type = (\<lambda>_. 0),
     hp_bytes = (\<lambda>_. 0)\<rparr>"

definition ma_example :: memalloc where
  "ma_example = \<lparr>ma_mem = 0, ma_capacity = 0, ma_avail = 0, ma_memblocks = 5000\<rparr>"

lemma regions_end_ge: "(a, s) \<in> set rs \<Longrightarrow> a + s \<le> regions_end rs"
  by (induction rs) (auto simp: regions_end_def le_max_iff_disj)

lemma regions_end_pos: "0 < regions_end rs"
  by (induction rs) (auto simp: regions_end_def less_max_iff_disj)

lemma mmap_fresh_bump: "mmap_fresh bump_mmap"
  unfolding mmap_fresh_def
proof (intro allI impI)
  fix rs s a
  assume "bump_mmap rs s = Some a"
  then have "a = regions_end rs" "a + s < 2 ^ 64"
    by (simp_all add: bump_mmap_def Let_def split: if_splits)
  then show "0 < a \<and> a + s < 2 ^ 64 \<and> (\<forall>q \<in> set rs. apart (a, s) q)"
    using regions_end_pos[of rs] regions_end_ge[of _ _ rs] by auto
qed

lemma ma_ok_example: "ma_ok bump_mmap ma_example heap_example [] [] {#(4096, 4096)#}"
proof -
  have "pool_ok (mempool_initial [(4096, 4096)]) (\<lambda>_. []) (mset [(4096, 4096)])"
    by (rule pool_ok_initial) (simp_all add: regions_ok_add)
  then have "pool_inv bump_mmap (hp_pool heap_example) {#(4096, 4096)#}"
    using mmap_fresh_bump by (auto simp: pool_inv_def heap_example_def)
  then show ?thesis
    by (simp add: ma_ok_def ma_blocks_def ma_extents_def ma_example_def heap_example_def list_is_null_def)
qed

lemma can_grow_example: "n + 24 \<le> 131072 \<Longrightarrow> can_grow bump_mmap ma_example heap_example n"
  by (simp add: can_grow_def next_block_size_def ma_example_def heap_example_def mempool_initial_def
      bump_mmap_def regions_end_def Let_def)

section \<open>Properties\<close>

text \<open>C7. An allocation always returns.  The memory it returns lies in blocks of this allocator and
  overlaps neither an extent handed out since the last reset nor memory of any other
  owner, and no byte is changed.  It is the next bytes of the current block when they
  suffice, and with a new block large enough granted by the kernel it is not null.\<close>

theorem memalloc_alloc_correct:
  assumes "ma_ok mm ma hp bs es L" "0 < n"
  shows "\<exists>a ma' hp' bs'. memalloc_alloc mm ma hp n = Some (a, ma', hp') \<and> hp_bytes hp' = hp_bytes hp \<and>
     set bs \<subseteq> set bs' \<and>
     (n \<le> ma_avail ma \<longrightarrow> a = ma_mem ma \<and> 0 < a \<and> hp' = hp) \<and> (can_grow mm ma hp n \<longrightarrow> a \<noteq> 0) \<and>
     (if a = 0 then ma_ok mm ma' hp' bs' es L
      else ma_ok mm ma' hp' bs' ((a, n) # es) L \<and> (\<forall>r \<in> set es \<union> set_mset L. apart r (a, n)))"
proof -
  obtain a ma' hp' bs' where r: "memalloc_alloc mm ma hp n = Some (a, ma', hp')" "hp_bytes hp' = hp_bytes hp"
    "set bs \<subseteq> set bs'" "if a = 0 then ma_ok mm ma' hp' bs' es L else ma_ok mm ma' hp' bs' ((a, n) # es) L"
    using memalloc_alloc_ok[OF assms] by blast
  have "a = ma_mem ma \<and> 0 < a \<and> hp' = hp" if room: "n \<le> ma_avail ma"
  proof -
    obtain b where "0 < ma_mem ma"
      by (rule ma_cur[OF assms(1)]) (use room assms(2) in auto)
    then show ?thesis
      using memalloc_alloc_room[OF room, of mm hp] r(1) by simp
  qed
  moreover from this have "a \<noteq> 0" if "can_grow mm ma hp n"
    using memalloc_alloc_grow[OF assms(1) that] r(1) by (cases "n \<le> ma_avail ma") auto
  moreover have "\<forall>r \<in> set es \<union> set_mset L. apart r (a, n)" if "a \<noteq> 0"
    using extent_apart(1)[of mm ma' hp' bs' "(a, n)" es L] r(4) that by auto
  ultimately show ?thesis
    using r by auto
qed

theorem memalloc_alloc_correct_witness:
  "\<exists>a ma' hp'. memalloc_alloc bump_mmap ma_example heap_example 100 = Some (a, ma', hp') \<and> a \<noteq> 0 \<and>
     apart (4096, 4096) (a, 100)"
  using memalloc_alloc_correct[OF ma_ok_example, of 100] can_grow_example[of 100]
  by (auto split: if_splits)

text \<open>C8. Formatting at the end of a string that is the last thing allocated: the result is the old
  string followed by the new text, in place when the block has room and otherwise in a new
  block; other extents and other owners' memory keep their contents.\<close>

theorem memalloc_strcat_correct:
  assumes "ma_ok mm ma hp bs ((buf, length xs + 1) # es) L" "last_str ma hp buf xs"
    and "length out \<le> ma_avail ma \<and> 0 < ma_avail ma \<or> can_grow mm ma hp (length xs + length out + 1)"
  shows "\<exists>buf' ma' hp' bs' es'. memalloc_strcat_vsprintf mm ma hp buf (Some out) = Some (0, buf', ma', hp') \<and>
    (length out \<le> ma_avail ma \<and> 0 < ma_avail ma \<longrightarrow> buf' = buf) \<and>
    mem_read (hp_bytes hp') buf' (length xs + length out + 1) = xs @ out @ [0] \<and>
    kept es L (hp_bytes hp) (hp_bytes hp') \<and> set es \<subseteq> set es' \<and>
    ma_ok mm ma' hp' bs' ((buf', length xs + length out + 1) # es') L"
proof (cases "length out \<le> ma_avail ma \<and> 0 < ma_avail ma")
  case True
  then show ?thesis
    using strcat_fits[OF assms(1,2), of out] by (auto simp: appended_def)
next
  case False
  then have "can_grow mm ma hp (length xs + length out + 1)" "ma_avail ma = 0 \<or> ma_avail ma < length out"
    using assms(3) by auto
  then show ?thesis
    using strcat_grow[OF assms(1,2)] False by (fastforce simp: appended_def)
qed


definition heap_example2 :: heap where
  "heap_example2 = \<lparr>hp_pool = mempool_initial [(65536, 131072), (4096, 4096)],
     hp_list = \<lparr>nxt = (\<lambda>_. 0)(5000 := 65544, 65544 := 5000), prv = (\<lambda>_. 0)(5000 := 65544, 65544 := 5000)\<rparr>,
     hp_size = (\<lambda>_. 0)(65536 := 131072), hp_type = (\<lambda>_. 0),
     hp_bytes = (\<lambda>_. 0)(65560 := 97)\<rparr>"

definition ma_example2 :: memalloc where
  "ma_example2 = \<lparr>ma_mem = 65562, ma_capacity = 131072, ma_avail = 131046, ma_memblocks = 5000\<rparr>"

lemma ma_ok_example2: "ma_ok bump_mmap ma_example2 heap_example2 [(65536, 131072)] [(65560, 2)] {#(4096, 4096)#}"
proof -
  have "pool_ok (mempool_initial [(65536, 131072), (4096, 4096)]) (\<lambda>_. []) (mset [(65536, 131072), (4096, 4096)])"
    by (rule pool_ok_initial) (simp_all add: regions_ok_add)
  then have "pool_inv bump_mmap (hp_pool heap_example2) {#(65536, 131072), (4096, 4096)#}"
    using mmap_fresh_bump by (auto simp: pool_inv_def heap_example2_def)
  moreover have "chunk_sized 131072"
    using chunk_sized_next[of 0] by simp
  ultimately show ?thesis
    by (simp add: ma_ok_def ma_blocks_def ma_extents_def ma_example2_def heap_example2_def inside_def
        BLOCK_HEADER_def MEMALLOC_MEM_TYPE_MALLOC_def dll_at_def block_node_def regions_ok_add
        add_mset_commute)
qed

lemma last_str_example2: "last_str ma_example2 heap_example2 65560 [97]"
  by (simp add: last_str_def ma_example2_def heap_example2_def cstr_Cons cstr_Nil)

theorem memalloc_strcat_correct_witness:
  "\<exists>ma' hp'. memalloc_strcat_vsprintf bump_mmap ma_example2 heap_example2 65560 (Some [98, 99]) =
      Some (0, 65560, ma', hp') \<and> mem_read (hp_bytes hp') 65560 (Suc (Suc (Suc (Suc 0)))) = [97, 98, 99, 0]"
  using memalloc_strcat_correct[of bump_mmap ma_example2 heap_example2 "[(65536, 131072)]" 65560 "[97]" "[]"
      "{#(4096, 4096)#}" "[98, 99]"] ma_ok_example2[unfolded numeral_2_eq_2] last_str_example2
  by (auto simp: ma_example2_def)

text \<open>C9. A reset gives every block back to the pool: afterwards the allocator owns nothing, the chunks
  in use are exactly those of the other owners, and an allocation is possible again.\<close>

theorem memalloc_reset_correct:
  assumes "ma_ok mm ma hp bs es L"
  shows "\<exists>ma' hp'. memalloc_reset ma hp = Some (ma', hp') \<and> hp_bytes hp' = hp_bytes hp \<and>
    pool_inv mm (hp_pool hp') L \<and> ma_ok mm ma' hp' [] [] L \<and> memalloc_usage ma' hp' = Some 0"
proof -
  obtain ma' hp' where r: "memalloc_reset ma hp = Some (ma', hp')" "hp_bytes hp' = hp_bytes hp" "ma_ok mm ma' hp' [] [] L"
    using memalloc_reset_ok[OF assms] by blast
  moreover have "pool_inv mm (hp_pool hp') L"
    using r(3) by (simp add: ma_ok_def ma_blocks_def)
  moreover have "memalloc_usage ma' hp' = Some 0"
    using memalloc_usage_ok[OF r(3)] by simp
  ultimately show ?thesis
    by blast
qed

theorem memalloc_reset_correct_witness:
  "\<exists>ma' hp'. memalloc_reset ma_example2 heap_example2 = Some (ma', hp') \<and>
     pool_inv bump_mmap (hp_pool hp') {#(4096, 4096)#}"
  using memalloc_reset_correct[OF ma_ok_example2] by blast

end
