(* ===== verification/Context.thy ===== *)
theory Context
  imports Memalloc_Props
begin

text \<open>
  \<^verbatim>\<open>src/context.c\<close>, \<^verbatim>\<open>src/_malloc.c\<close>, \<^verbatim>\<open>src/ctx_pool.c\<close> and \<^verbatim>\<open>src/_ctx_pool.c\<close>: the execution contexts,
  each with its own allocator, the allocation functions that work on the current one, and
  the pool of stacks the contexts run on.  \<open>ribs\<close> is the process: the heap the allocators
  share and the context structures by address.  Register contents and the switch itself
  (\<^verbatim>\<open>context_asm.S\<close>) are not part of the state.
\<close>

section \<open>State\<close>

record ribs_context =
  next_free :: nat
  ctx_memalloc :: memalloc
  ribify_memalloc_refcount :: nat

record ribs =
  rb_heap :: heap
  rb_ctx :: "nat \<Rightarrow> ribs_context"
  current_ctx :: nat

definition MEMALLOC_INITIALIZER :: "nat \<Rightarrow> memalloc" where
  "MEMALLOC_INITIALIZER l = \<lparr>ma_mem = 0, ma_capacity = 0, ma_avail = 0, ma_memblocks = l\<rparr>"

definition put_memalloc :: "ribs \<Rightarrow> nat \<Rightarrow> memalloc \<Rightarrow> heap \<Rightarrow> ribs" where
  "put_memalloc w c ma hp =
     w\<lparr>rb_heap := hp, rb_ctx := (rb_ctx w)(c := (rb_ctx w c)\<lparr>ctx_memalloc := ma\<rparr>)\<rparr>"

text \<open>Calling an operation of the allocator of context \<open>c\<close>.\<close>

definition on_memalloc ::
    "ribs \<Rightarrow> nat \<Rightarrow> (memalloc \<Rightarrow> heap \<Rightarrow> ('a \<times> memalloc \<times> heap) option) \<Rightarrow> ('a \<times> ribs) option" where
  "on_memalloc w c f =
     map_option (\<lambda>(r, ma, hp). (r, put_memalloc w c ma hp)) (f (ctx_memalloc (rb_ctx w c)) (rb_heap w))"

section \<open>Allocation in a context\<close>

definition ribs_malloc2 :: "mmap_fun \<Rightarrow> ribs \<Rightarrow> nat \<Rightarrow> nat \<Rightarrow> (nat \<times> ribs) option" where
  "ribs_malloc2 mm w c sz =
     (if sz = 0 then Some (0, w) else on_memalloc w c (\<lambda>ma hp. memalloc_alloc mm ma hp sz))"

definition ribs_malloc :: "mmap_fun \<Rightarrow> ribs \<Rightarrow> nat \<Rightarrow> (nat \<times> ribs) option" where
  "ribs_malloc mm w sz = ribs_malloc2 mm w (current_ctx w) sz"

text \<open>The result of the allocation is cleared without a check; clearing through the null pointer
  does not return.\<close>

definition ribs_calloc2 :: "mmap_fun \<Rightarrow> ribs \<Rightarrow> nat \<Rightarrow> nat \<Rightarrow> nat \<Rightarrow> (nat \<times> ribs) option" where
  "ribs_calloc2 mm w c nmemb sz =
     (let s = mul64 nmemb sz
      in case ribs_malloc2 mm w c s of
           None \<Rightarrow> None
         | Some (a, w) \<Rightarrow>
             if a = 0 \<and> 0 < s then None
             else Some (a, w\<lparr>rb_heap := (rb_heap w)
                    \<lparr>hp_bytes := mem_copy (hp_bytes (rb_heap w)) a (replicate s 0)\<rparr>\<rparr>))"

definition ribs_calloc :: "mmap_fun \<Rightarrow> ribs \<Rightarrow> nat \<Rightarrow> nat \<Rightarrow> (nat \<times> ribs) option" where
  "ribs_calloc mm w nmemb sz = ribs_calloc2 mm w (current_ctx w) nmemb sz"

definition ribs_reset_malloc2 :: "ribs \<Rightarrow> nat \<Rightarrow> ribs option" where
  "ribs_reset_malloc2 w c =
     map_option (\<lambda>(ma, hp). put_memalloc w c ma hp)
       (memalloc_reset (ctx_memalloc (rb_ctx w c)) (rb_heap w))"

definition ribs_reset_malloc :: "ribs \<Rightarrow> ribs option" where
  "ribs_reset_malloc w = ribs_reset_malloc2 w (current_ctx w)"

definition ribs_malloc_vsprintf2 ::
    "mmap_fun \<Rightarrow> ribs \<Rightarrow> nat \<Rightarrow> byte list option \<Rightarrow> (nat \<times> ribs) option" where
  "ribs_malloc_vsprintf2 mm w c fmt = on_memalloc w c (\<lambda>ma hp. memalloc_vsprintf mm ma hp fmt)"

definition ribs_malloc_vsprintf :: "mmap_fun \<Rightarrow> ribs \<Rightarrow> byte list option \<Rightarrow> (nat \<times> ribs) option" where
  "ribs_malloc_vsprintf mm w fmt = ribs_malloc_vsprintf2 mm w (current_ctx w) fmt"

definition ribs_malloc_sprintf :: "mmap_fun \<Rightarrow> ribs \<Rightarrow> byte list option \<Rightarrow> (nat \<times> ribs) option" where
  "ribs_malloc_sprintf mm w fmt = ribs_malloc_vsprintf mm w fmt"

definition ribs_malloc_sprintf2 ::
    "mmap_fun \<Rightarrow> ribs \<Rightarrow> nat \<Rightarrow> byte list option \<Rightarrow> (nat \<times> ribs) option" where
  "ribs_malloc_sprintf2 mm w c fmt = ribs_malloc_vsprintf2 mm w c fmt"

definition ribs_malloc_strcat_vsprintf2 ::
    "mmap_fun \<Rightarrow> ribs \<Rightarrow> nat \<Rightarrow> nat \<Rightarrow> byte list option \<Rightarrow> ((int \<times> nat) \<times> ribs) option" where
  "ribs_malloc_strcat_vsprintf2 mm w c buf fmt =
     on_memalloc w c (\<lambda>ma hp.
       map_option (\<lambda>(r, buf, ma, hp). ((r, buf), ma, hp)) (memalloc_strcat_vsprintf mm ma hp buf fmt))"

definition ribs_malloc_strcat_vsprintf ::
    "mmap_fun \<Rightarrow> ribs \<Rightarrow> nat \<Rightarrow> byte list option \<Rightarrow> ((int \<times> nat) \<times> ribs) option" where
  "ribs_malloc_strcat_vsprintf mm w buf fmt = ribs_malloc_strcat_vsprintf2 mm w (current_ctx w) buf fmt"

definition ribs_malloc_strcat_sprintf ::
    "mmap_fun \<Rightarrow> ribs \<Rightarrow> nat \<Rightarrow> byte list option \<Rightarrow> ((int \<times> nat) \<times> ribs) option" where
  "ribs_malloc_strcat_sprintf mm w buf fmt = ribs_malloc_strcat_vsprintf mm w buf fmt"

definition ribs_malloc_strcat_sprintf2 ::
    "mmap_fun \<Rightarrow> ribs \<Rightarrow> nat \<Rightarrow> nat \<Rightarrow> byte list option \<Rightarrow> ((int \<times> nat) \<times> ribs) option" where
  "ribs_malloc_strcat_sprintf2 mm w c buf fmt = ribs_malloc_strcat_vsprintf2 mm w c buf fmt"

definition ribs_malloc_str_remove_last_if2 :: "ribs \<Rightarrow> nat \<Rightarrow> byte \<Rightarrow> ribs option" where
  "ribs_malloc_str_remove_last_if2 w c ch =
     map_option (\<lambda>(ma, hp). put_memalloc w c ma hp)
       (memalloc_str_remove_last_if (ctx_memalloc (rb_ctx w c)) (rb_heap w) ch)"

definition ribs_malloc_str_remove_last_if :: "ribs \<Rightarrow> byte \<Rightarrow> ribs option" where
  "ribs_malloc_str_remove_last_if w ch = ribs_malloc_str_remove_last_if2 w (current_ctx w) ch"

definition ribs_memdup2 :: "mmap_fun \<Rightarrow> ribs \<Rightarrow> nat \<Rightarrow> byte list \<Rightarrow> (nat \<times> ribs) option" where
  "ribs_memdup2 mm w c s = on_memalloc w c (\<lambda>ma hp. memalloc_memcpy mm ma hp s)"

definition ribs_memdup :: "mmap_fun \<Rightarrow> ribs \<Rightarrow> byte list \<Rightarrow> (nat \<times> ribs) option" where
  "ribs_memdup mm w s = ribs_memdup2 mm w (current_ctx w) s"

definition ribs_strdup2 :: "mmap_fun \<Rightarrow> ribs \<Rightarrow> nat \<Rightarrow> nat \<Rightarrow> (nat \<times> ribs) option" where
  "ribs_strdup2 mm w c s = on_memalloc w c (\<lambda>ma hp. memalloc_strcpy mm ma hp s)"

definition ribs_strdup :: "mmap_fun \<Rightarrow> ribs \<Rightarrow> nat \<Rightarrow> (nat \<times> ribs) option" where
  "ribs_strdup mm w s = ribs_strdup2 mm w (current_ctx w) s"

definition ribs_malloc_strftime2 :: "mmap_fun \<Rightarrow> ribs \<Rightarrow> nat \<Rightarrow> byte list \<Rightarrow> (nat \<times> ribs) option" where
  "ribs_malloc_strftime2 mm w c out = on_memalloc w c (memalloc_strftime mm out)"

definition ribs_malloc_strftime :: "mmap_fun \<Rightarrow> ribs \<Rightarrow> byte list \<Rightarrow> (nat \<times> ribs) option" where
  "ribs_malloc_strftime mm w out = ribs_malloc_strftime2 mm w (current_ctx w) out"

definition ribs_malloc_usage2 :: "ribs \<Rightarrow> nat \<Rightarrow> nat option" where
  "ribs_malloc_usage2 w c = memalloc_usage (ctx_memalloc (rb_ctx w c)) (rb_heap w)"

definition ribs_malloc_usage :: "ribs \<Rightarrow> nat option" where
  "ribs_malloc_usage w = ribs_malloc_usage2 w (current_ctx w)"

section \<open>The end of a context\<close>

definition ribs_context_cleanup :: "ribs \<Rightarrow> ribs option" where
  "ribs_context_cleanup w =
     (let c = current_ctx w; x = rb_ctx w c
      in if ribify_memalloc_refcount x = 0 then ribs_reset_malloc2 w c
         else
           (let w = w\<lparr>rb_ctx := (rb_ctx w)(c := x\<lparr>ribify_memalloc_refcount := 0\<rparr>)\<rparr>
            in map_option (\<lambda>(ma, hp). put_memalloc w c (MEMALLOC_INITIALIZER (ma_memblocks ma))
                  (hp\<lparr>hp_list := list_set_null (hp_list hp) (ma_memblocks ma)\<rparr>))
                 (memalloc_reset2 (ctx_memalloc x) (rb_heap w) MEMALLOC_MEM_TYPE_BUF)))"

section \<open>Stacks\<close>

record ctx_pool =
  grow_by :: nat
  stack_size :: nat
  reserved_size :: nat
  freelist :: nat

definition CONTEXT_SIZE :: nat where
  "CONTEXT_SIZE = 112"

text \<open>The loop over the stacks of one mapping: \<open>n\<close> are left, \<open>mem\<close> is the current one.\<close>

fun ctx_pool_link :: "nat \<Rightarrow> nat \<Rightarrow> nat \<Rightarrow> nat \<Rightarrow> ctx_pool \<Rightarrow> ribs \<Rightarrow> ctx_pool \<times> ribs" where
  "ctx_pool_link 0 mem rc_ofs ss cp w = (cp, w)"
| "ctx_pool_link (Suc n) mem rc_ofs ss cp w =
     (let rc = mem + rc_ofs;
          w = w\<lparr>rb_ctx := (rb_ctx w)(rc := (rb_ctx w rc)\<lparr>next_free := freelist cp\<rparr>)\<rparr>
      in ctx_pool_link n (mem + ss) rc_ofs ss (cp\<lparr>freelist := rc\<rparr>) w)"

text \<open>\<open>mem\<close> is what \<^verbatim>\<open>mmap\<close> returned for the requested length, if it did.\<close>

definition ctx_pool_createstacks ::
    "(nat \<Rightarrow> nat option) \<Rightarrow> ctx_pool \<Rightarrow> nat \<Rightarrow> nat \<Rightarrow> nat \<Rightarrow> ribs \<Rightarrow> int \<times> ctx_pool \<times> ribs" where
  "ctx_pool_createstacks mm cp num_stacks ss rs w =
     (case mm (mul64 num_stacks ss) of
        None \<Rightarrow> (-1, cp, w)
      | Some mem \<Rightarrow>
          (let rc_ofs = sub64 (sub64 ss CONTEXT_SIZE) rs
           in (0, ctx_pool_link num_stacks mem rc_ofs ss cp w)))"

definition ctx_pool_init ::
    "(nat \<Rightarrow> nat option) \<Rightarrow> ctx_pool \<Rightarrow> nat \<Rightarrow> nat \<Rightarrow> nat \<Rightarrow> nat \<Rightarrow> ribs \<Rightarrow> int \<times> ctx_pool \<times> ribs" where
  "ctx_pool_init mm cp initial_size gb ss rs w =
     (let ss = align_up 4096 ss;
          cp = cp\<lparr>grow_by := gb, stack_size := ss, reserved_size := rs, freelist := 0\<rparr>
      in ctx_pool_createstacks mm cp initial_size ss rs w)"

definition ctx_pool_get :: "(nat \<Rightarrow> nat option) \<Rightarrow> ctx_pool \<Rightarrow> ribs \<Rightarrow> nat \<times> ctx_pool \<times> ribs" where
  "ctx_pool_get mm cp w =
     (let (r, cp, w) = (if freelist cp = 0
                        then ctx_pool_createstacks mm cp (grow_by cp) (stack_size cp) (reserved_size cp) w
                        else (0, cp, w))
      in if r \<noteq> 0 then (0, cp, w)
         else (let c = freelist cp in (c, cp\<lparr>freelist := next_free (rb_ctx w c)\<rparr>, w)))"

definition ctx_pool_put :: "ctx_pool \<Rightarrow> nat \<Rightarrow> ribs \<Rightarrow> ctx_pool \<times> ribs" where
  "ctx_pool_put cp c w =
     (cp\<lparr>freelist := c\<rparr>, w\<lparr>rb_ctx := (rb_ctx w)(c := (rb_ctx w c)\<lparr>next_free := freelist cp\<rparr>)\<rparr>)"


section \<open>Stacks never overlap\<close>

definition rc_offset :: "ctx_pool \<Rightarrow> nat" where
  "rc_offset cp = stack_size cp - CONTEXT_SIZE - reserved_size cp"

definition stack_of :: "ctx_pool \<Rightarrow> nat \<Rightarrow> nat \<times> nat" where
  "stack_of cp c = (c - rc_offset cp, stack_size cp)"

lemma freelist_upd_frame [simp]:
  "rc_offset (cp\<lparr>freelist := c\<rparr>) = rc_offset cp" "stack_of (cp\<lparr>freelist := c\<rparr>) = stack_of cp"
  by (simp_all add: rc_offset_def stack_of_def fun_eq_iff)

text \<open>\<open>fs\<close> are the free contexts in the order they will be handed out and \<open>live\<close> those in use.  A context
  sits at the upper end of its stack.\<close>

definition ctx_pool_ok :: "ctx_pool \<Rightarrow> ribs \<Rightarrow> nat list \<Rightarrow> nat multiset \<Rightarrow> bool" where
  "ctx_pool_ok cp w fs live \<longleftrightarrow>
     chain (\<lambda>c. next_free (rb_ctx w c)) (freelist cp) fs \<and>
     CONTEXT_SIZE + reserved_size cp < stack_size cp \<and> stack_size cp < 2 ^ 64 \<and> 0 < grow_by cp \<and>
     (\<forall>c \<in># mset fs + live. rc_offset cp < c) \<and>
     regions_ok (image_mset (stack_of cp) (mset fs + live))"

text \<open>What is relied on of the kernel when it maps the stacks: the region is not in use.\<close>

definition stacks_fresh :: "(nat \<Rightarrow> nat option) \<Rightarrow> (nat \<times> nat) multiset \<Rightarrow> bool" where
  "stacks_fresh mm R \<longleftrightarrow> (\<forall>s a. mm s = Some a \<longrightarrow> 0 < a \<and> (\<forall>q \<in># R. apart (a, s) q))"

lemma chain_cong: "(\<And>c. c \<in> set xs \<Longrightarrow> f c = g c) \<Longrightarrow> chain f h xs = chain g h xs"
  by (induction xs arbitrary: h) auto

lemma ctx_pool_link_fields:
  assumes "ctx_pool_link n mem ofs ss cp w = (cp', w')"
  shows "grow_by cp' = grow_by cp" "stack_size cp' = stack_size cp" "reserved_size cp' = reserved_size cp"
  using assms by (induction n arbitrary: mem cp w) (auto simp: Let_def)

lemma apart_shrink: "apart (a, s) q \<Longrightarrow> a \<le> b \<Longrightarrow> b + t \<le> a + s \<Longrightarrow> apart (b, t) q"
  by (cases q) auto

lemma apart_not_in:
  assumes "apart (a, s) (stack_of cp c)" "rc_offset cp < c" "rc_offset cp < stack_size cp" "a \<le> c" "c < a + s"
  shows False
  using assms by (auto simp: stack_of_def)

lemma ctx_pool_push:
  assumes "ctx_pool_ok cp w fs live" "\<forall>q \<in># image_mset (stack_of cp) (mset fs + live). apart (stack_of cp c) q"
    and "rc_offset cp < c"
  shows "ctx_pool_ok (cp\<lparr>freelist := c\<rparr>) (w\<lparr>rb_ctx := (rb_ctx w)(c := (rb_ctx w c)\<lparr>next_free := freelist cp\<rparr>)\<rparr>)
           (c # fs) live"
proof -
  have ok: "chain (\<lambda>c. next_free (rb_ctx w c)) (freelist cp) fs" "CONTEXT_SIZE + reserved_size cp < stack_size cp"
    using assms(1) by (simp_all add: ctx_pool_ok_def)
  have "apart (stack_of cp c) (stack_of cp x)" if "x \<in> set fs" for x
    using assms(2) that by auto
  then have "c \<notin> set fs"
    using ok(2) by (fastforce simp: stack_of_def)
  then have "chain (\<lambda>x. next_free (((rb_ctx w)(c := (rb_ctx w c)\<lparr>next_free := freelist cp\<rparr>)) x)) (freelist cp) fs"
    using ok(1) by (subst chain_cong[of fs _ "\<lambda>c. next_free (rb_ctx w c)"]) auto
  then show ?thesis
    using assms by (auto simp: ctx_pool_ok_def regions_ok_add)
qed

lemma ctx_pool_link_ok:
  assumes "ctx_pool_ok cp w fs live" "0 < mem" "ss = stack_size cp" "ofs = rc_offset cp"
    and "\<forall>q \<in># image_mset (stack_of cp) (mset fs + live). apart (mem, n * ss) q"
    and "ctx_pool_link n mem ofs ss cp w = (cp', w')"
  shows "ctx_pool_ok cp' w' (rev (map (\<lambda>i. mem + i * ss + ofs) [0..<n]) @ fs) live"
  using assms
proof (induction n arbitrary: mem cp w fs)
  case (Suc n)
  let ?c = "mem + ofs"
  let ?cp = "cp\<lparr>freelist := ?c\<rparr>"
  let ?w = "w\<lparr>rb_ctx := (rb_ctx w)(?c := (rb_ctx w ?c)\<lparr>next_free := freelist cp\<rparr>)\<rparr>"
  have st: "stack_of cp ?c = (mem, ss)" "stack_of ?cp = stack_of cp" "rc_offset ?cp = rc_offset cp"
    using Suc(4,5) by (auto simp: stack_of_def rc_offset_def fun_eq_iff)
  have a: "apart (stack_of cp ?c) q" if "q \<in># image_mset (stack_of cp) (mset fs + live)" for q
    using apart_shrink[of mem "Suc n * ss" q mem ss] Suc(6) that st(1) by auto
  have ok: "ctx_pool_ok ?cp ?w (?c # fs) live"
    by (rule ctx_pool_push[OF Suc(2)]) (use a Suc(3,5) in auto)
  have "\<forall>q \<in># image_mset (stack_of ?cp) (mset (?c # fs) + live). apart (mem + ss, n * ss) q"
    using Suc(6) apart_shrink[of mem "Suc n * ss" _ "mem + ss" "n * ss"] st by auto
  moreover have "ctx_pool_link n (mem + ss) ofs ss ?cp ?w = (cp', w')"
    using Suc(7) by (simp add: Let_def)
  ultimately have "ctx_pool_ok cp' w' (rev (map (\<lambda>i. mem + ss + i * ss + ofs) [0..<n]) @ ?c # fs) live"
    using Suc(1)[OF ok] Suc(3-5) st by simp
  moreover have "map (\<lambda>i. mem + i * ss + ofs) [0..<Suc n] = ?c # map (\<lambda>i. mem + ss + i * ss + ofs) [0..<n]"
    by (simp add: map_upt_Suc add.assoc del: upt_Suc)
  ultimately show ?case
    by simp
qed simp

lemma ctx_pool_createstacks_ok:
  assumes "ctx_pool_ok cp w fs live" "stacks_fresh mm (image_mset (stack_of cp) (mset fs + live))"
    and "n * stack_size cp < 2 ^ 64"
    and "ctx_pool_createstacks mm cp n (stack_size cp) (reserved_size cp) w = (r, cp', w')"
  shows "r = 0 \<and> stack_of cp' = stack_of cp \<and> (\<exists>fs'. length fs' = n + length fs \<and> ctx_pool_ok cp' w' fs' live) \<or>
    r = -1 \<and> cp' = cp \<and> w' = w \<and> mm (n * stack_size cp) = None"
proof (cases "mm (mul64 n (stack_size cp))")
  case None
  then show ?thesis
    using assms(3,4) by (simp add: ctx_pool_createstacks_def mul64_small)
next
  case (Some mem)
  have b: "CONTEXT_SIZE \<le> stack_size cp" "stack_size cp < 2 ^ 64"
    "reserved_size cp \<le> stack_size cp - CONTEXT_SIZE" "stack_size cp - CONTEXT_SIZE < 2 ^ 64"
    using assms(1) unfolding ctx_pool_ok_def by linarith+
  have o: "sub64 (sub64 (stack_size cp) CONTEXT_SIZE) (reserved_size cp) = rc_offset cp"
    by (simp only: sub64_small[OF b(1,2)] sub64_small[OF b(3,4)] rc_offset_def)
  have m: "mul64 n (stack_size cp) = n * stack_size cp"
    using assms(3) by (simp add: mul64_small)
  have "0 < mem" "\<forall>q \<in># image_mset (stack_of cp) (mset fs + live). apart (mem, n * stack_size cp) q"
    using assms(2) Some unfolding stacks_fresh_def m by blast+
  moreover have l: "r = 0" "ctx_pool_link n mem (rc_offset cp) (stack_size cp) cp w = (cp', w')"
    using assms(4) Some o by (simp_all add: ctx_pool_createstacks_def)
  moreover have "stack_of cp' = stack_of cp"
    using ctx_pool_link_fields[OF l(2)] by (simp add: stack_of_def rc_offset_def fun_eq_iff)
  ultimately show ?thesis
    using ctx_pool_link_ok[OF assms(1) _ _ _ _ l(2)]
    by (intro disjI1) (auto intro!: exI[of _ "rev (map (\<lambda>i. mem + i * stack_size cp + rc_offset cp) [0..<n]) @ fs"])
qed

lemma ctx_pool_take:
  assumes "ctx_pool_ok cp w (c # fs) live"
  shows "freelist cp = c"
    and "ctx_pool_ok (cp\<lparr>freelist := next_free (rb_ctx w c)\<rparr>) w fs (add_mset c live)"
  using assms by (auto simp: ctx_pool_ok_def)

lemma ctx_pool_get_ok:
  assumes "ctx_pool_ok cp w fs live" "stacks_fresh mm (image_mset (stack_of cp) (mset fs + live))"
    and "grow_by cp * stack_size cp < 2 ^ 64" "ctx_pool_get mm cp w = (c, cp', w')"
  shows "if c = 0 then fs = [] \<and> mm (grow_by cp * stack_size cp) = None \<and> ctx_pool_ok cp' w' fs live
         else stack_of cp' = stack_of cp \<and> (\<exists>fs'. ctx_pool_ok cp' w' fs' (add_mset c live))"
proof (cases fs)
  case (Cons x xs)
  note t = ctx_pool_take[OF assms(1)[unfolded Cons]]
  have "0 < x"
    using assms(1) Cons by (auto simp: ctx_pool_ok_def)
  then show ?thesis
    using t assms(4) by (auto simp: ctx_pool_get_def Let_def)
next
  case Nil
  then have f: "freelist cp = 0"
    using assms(1) by (simp add: ctx_pool_ok_def)
  obtain r cp1 w1 where cs: "ctx_pool_createstacks mm cp (grow_by cp) (stack_size cp) (reserved_size cp) w = (r, cp1, w1)"
    by (metis prod_cases3)
  have g: "0 < grow_by cp"
    using assms(1) by (simp add: ctx_pool_ok_def)
  consider fs1 where "r = 0" "length fs1 = grow_by cp + length fs" "ctx_pool_ok cp1 w1 fs1 live"
      "stack_of cp1 = stack_of cp"
    | "r = -1" "cp1 = cp" "w1 = w" "mm (grow_by cp * stack_size cp) = None"
    using ctx_pool_createstacks_ok[OF assms(1-3) cs] by auto
  then show ?thesis
  proof cases
    case 1
    then obtain y ys where y: "fs1 = y # ys"
      using g by (cases fs1) auto
    note t = ctx_pool_take[OF 1(3)[unfolded y]]
    have "0 < y"
      using 1(3) y by (auto simp: ctx_pool_ok_def)
    then show ?thesis
      using t assms(4) f cs 1(1,4) by (auto simp: ctx_pool_get_def Let_def)
  next
    case 2
    then show ?thesis
      using assms(1,4) f cs Nil by (auto simp: ctx_pool_get_def Let_def)
  qed
qed

lemma ctx_pool_put_ok:
  assumes "ctx_pool_ok cp w fs (add_mset c live)" "ctx_pool_put cp c w = (cp', w')"
  shows "ctx_pool_ok cp' w' (c # fs) live"
proof -
  have "ctx_pool_ok cp w fs live" "rc_offset cp < c"
    "\<forall>q \<in># image_mset (stack_of cp) (mset fs + live). apart (stack_of cp c) q"
    using assms(1) by (auto simp: ctx_pool_ok_def regions_ok_add)
  then show ?thesis
    using ctx_pool_push[of cp w fs live c] assms(2) by (simp add: ctx_pool_put_def)
qed


section \<open>Properties\<close>

text \<open>C13. Taking a context from the pool hands out one that is not in use and whose stack overlaps no
  other stack, free or in use, whether it comes from the free list or from a new mapping;
  the pool stays well formed, and the null pointer is returned only when there was no free
  context and the kernel refused.\<close>

theorem ctx_pool_get_safe:
  assumes "ctx_pool_ok cp w fs live" "stacks_fresh mm (image_mset (stack_of cp) (mset fs + live))"
    and "grow_by cp * stack_size cp < 2 ^ 64" "ctx_pool_get mm cp w = (c, cp', w')"
  shows "if c = 0 then fs = [] \<and> mm (grow_by cp * stack_size cp) = None \<and> ctx_pool_ok cp' w' fs live
         else c \<notin># live \<and> (\<forall>d \<in># live. apart (stack_of cp c) (stack_of cp d)) \<and>
           (\<exists>fs'. ctx_pool_ok cp' w' fs' (add_mset c live))"
proof (cases "c = 0")
  case True
  then show ?thesis
    using ctx_pool_get_ok[OF assms] by auto
next
  case False
  then obtain fs' where f: "stack_of cp' = stack_of cp" "ctx_pool_ok cp' w' fs' (add_mset c live)"
    using ctx_pool_get_ok[OF assms] by auto
  then have a: "\<forall>d \<in># live. apart (stack_of cp c) (stack_of cp d)"
    by (auto simp: ctx_pool_ok_def regions_ok_add)
  have "0 < stack_size cp"
    using assms(1) by (simp add: ctx_pool_ok_def)
  then have "c \<notin># live"
    using a by (auto simp: stack_of_def)
  then show ?thesis
    using False f a by auto
qed

definition pool_example :: ctx_pool where
  "pool_example = \<lparr>grow_by = 2, stack_size = 4096, reserved_size = 16, freelist = 0\<rparr>"

lemma pool_example_ok: "ctx_pool_ok pool_example w [] {#}"
  by (simp add: pool_example_def ctx_pool_ok_def CONTEXT_SIZE_def)

definition ribs_example :: ribs where
  "ribs_example = \<lparr>rb_heap = heap_example2,
     rb_ctx = (\<lambda>_. \<lparr>next_free = 0, ctx_memalloc = ma_example2, ribify_memalloc_refcount = 0\<rparr>),
     current_ctx = 4936\<rparr>"

theorem ctx_pool_get_safe_witness:
  "\<exists>c cp' w'. ctx_pool_get (\<lambda>_. Some 65536) pool_example ribs_example = (c, cp', w') \<and> c = 73600 \<and>
     (\<exists>fs'. ctx_pool_ok cp' w' fs' {#c#})"
proof -
  obtain c cp' w' where g: "ctx_pool_get (\<lambda>_. Some 65536) pool_example ribs_example = (c, cp', w')"
    by (metis prod_cases3)
  have "sub64 (sub64 4096 112) 16 = 3968"
    by (simp add: sub64_def u64_def)
  then have "c = 73600"
    using g by (simp add: ctx_pool_get_def ctx_pool_createstacks_def pool_example_def Let_def CONTEXT_SIZE_def
        numeral_2_eq_2 split: prod.splits)
  then show ?thesis
    using ctx_pool_get_safe[OF pool_example_ok _ _ g] g
    by (auto simp: stacks_fresh_def pool_example_def)
qed

text \<open>C14. When a context ends, its allocator is reset.  Every block goes back to the chunk pool, except
  that while a library running in the context has unfreed allocations only the buffer
  blocks do and the others stay allocated; other memory and its contents are untouched.\<close>

theorem ribs_context_cleanup_correct:
  assumes "ma_ok mm (ctx_memalloc (rb_ctx w (current_ctx w))) (rb_heap w) bs es L"
  shows "\<exists>w'. ribs_context_cleanup w = Some w' \<and> hp_bytes (rb_heap w') = hp_bytes (rb_heap w) \<and>
     ribify_memalloc_refcount (rb_ctx w' (current_ctx w)) = 0 \<and>
     ma_ok mm (ctx_memalloc (rb_ctx w' (current_ctx w))) (rb_heap w') [] []
       (mset (filter (\<lambda>(b, s). ribify_memalloc_refcount (rb_ctx w (current_ctx w)) \<noteq> 0 \<and>
                        hp_type (rb_heap w) b = MEMALLOC_MEM_TYPE_MALLOC) bs) + L)"
proof -
  let ?c = "current_ctx w"
  let ?x = "rb_ctx w ?c"
  show ?thesis
  proof (cases "ribify_memalloc_refcount ?x = 0")
    case True
    obtain ma hp where "memalloc_reset (ctx_memalloc ?x) (rb_heap w) = Some (ma, hp)"
      "hp_bytes hp = hp_bytes (rb_heap w)" "ma_ok mm ma hp [] [] L"
      using memalloc_reset_ok[OF assms] by blast
    then show ?thesis
      using True by (simp add: ribs_context_cleanup_def ribs_reset_malloc2_def put_memalloc_def Let_def)
  next
    case False
    obtain ma hp where r: "memalloc_reset2 (ctx_memalloc ?x) (rb_heap w) MEMALLOC_MEM_TYPE_BUF = Some (ma, hp)"
      "hp_bytes hp = hp_bytes (rb_heap w)"
      "ma_ok mm ma hp [] [] (mset (filter (\<lambda>(b, s). hp_type (rb_heap w) b < MEMALLOC_MEM_TYPE_BUF) bs) + L)"
      using memalloc_reset2_ok[OF assms, of MEMALLOC_MEM_TYPE_BUF] by blast
    let ?L = "mset (filter (\<lambda>(b, s). hp_type (rb_heap w) b < MEMALLOC_MEM_TYPE_BUF) bs) + L"
    have "ma_ok mm (MEMALLOC_INITIALIZER (ma_memblocks ma))
        (hp\<lparr>hp_list := list_set_null (hp_list hp) (ma_memblocks ma)\<rparr>) [] [] ?L"
      using r(3) by (simp add: ma_ok_def ma_blocks_def ma_extents_def MEMALLOC_INITIALIZER_def
          list_is_null_def list_set_null_def)
    moreover have "(\<lambda>(b, s :: nat). hp_type (rb_heap w) b < MEMALLOC_MEM_TYPE_BUF) =
        (\<lambda>(b, s). ribify_memalloc_refcount ?x \<noteq> 0 \<and> hp_type (rb_heap w) b = MEMALLOC_MEM_TYPE_MALLOC)"
      using False by (simp add: MEMALLOC_MEM_TYPE_BUF_def MEMALLOC_MEM_TYPE_MALLOC_def)
    ultimately show ?thesis
      using False r(1,2) by (simp add: ribs_context_cleanup_def put_memalloc_def Let_def)
  qed
qed


theorem ribs_context_cleanup_correct_witness:
  "\<exists>w'. ribs_context_cleanup ribs_example = Some w' \<and> pool_inv bump_mmap (hp_pool (rb_heap w')) {#(4096, 4096)#}"
  using ribs_context_cleanup_correct[of bump_mmap ribs_example "[(65536, 131072)]" "[(65560, 2)]" "{#(4096, 4096)#}"]
    ma_ok_example2
  by (auto simp: ribs_example_def ma_ok_def ma_blocks_def)

end
