(* ===== verification/Base64.thy ===== *)
theory Base64
  imports Ribs_Prelude
begin

text \<open>
  \<^verbatim>\<open>src/base64.c\<close>: the URL-safe base 64 encoder and decoder.  The destination is the list of
  bytes written, the terminator last, paired with the size stored through \<^verbatim>\<open>dstsize\<close>.
  Decoding inverts encoding for every input, padded or not, and neither writes more than
  the sizes the header's macros promise.
\<close>

section \<open>Code\<close>

definition base64_code :: "byte list" where
  "base64_code = map of_char ''ABCDEFGHIJKLMNOPQRSTUVWXYZabcdefghijklmnopqrstuvwxyz0123456789-_''"

definition base64_decoder :: "nat list" where
  "base64_decoder =
     [0xff,0xff,0xff,0xff,0xff,0xff,0xff,0xff,0xff,0xff,0xff,0xff,0xff,0xff,0xff,0xff,
      0xff,0xff,0xff,0xff,0xff,0xff,0xff,0xff,0xff,0xff,0xff,0xff,0xff,0xff,0xff,0xff,
      0xff,0xff,0xff,0xff,0xff,0xff,0xff,0xff,0xff,0xff,0xff,0xff,0xff,0x3e,0xff,0xff,
      0x34,0x35,0x36,0x37,0x38,0x39,0x3a,0x3b,0x3c,0x3d,0xff,0xff,0xff,0xff,0xff,0xff,
      0xff,0x00,0x01,0x02,0x03,0x04,0x05,0x06,0x07,0x08,0x09,0x0a,0x0b,0x0c,0x0d,0x0e,
      0x0f,0x10,0x11,0x12,0x13,0x14,0x15,0x16,0x17,0x18,0x19,0xff,0xff,0xff,0xff,0x3f,
      0xff,0x1a,0x1b,0x1c,0x1d,0x1e,0x1f,0x20,0x21,0x22,0x23,0x24,0x25,0x26,0x27,0x28,
      0x29,0x2a,0x2b,0x2c,0x2d,0x2e,0x2f,0x30,0x31,0x32,0x33,0xff,0xff,0xff,0xff,0xff]
     @ replicate 128 0xff"

definition BASE64_ENCODED_LEN :: "nat \<Rightarrow> nat" where
  "BASE64_ENCODED_LEN x = (x + 2) div 3 * 4"

definition BASE64_DECODED_LEN :: "nat \<Rightarrow> nat" where
  "BASE64_DECODED_LEN x = (x + 3) div 4 * 3"

definition BASE64_ENCODED_SIZE :: "nat \<Rightarrow> nat" where
  "BASE64_ENCODED_SIZE x = BASE64_ENCODED_LEN x + 1"

definition BASE64_DECODED_SIZE :: "nat \<Rightarrow> nat" where
  "BASE64_DECODED_SIZE x = BASE64_DECODED_LEN x + 1"

definition PAD :: byte where
  "PAD = of_char (CHR ''='')"

text \<open>The loop over whole groups of three: the bytes written and the source left.\<close>

fun base64_encode_loop :: "nat \<Rightarrow> byte list \<Rightarrow> byte list \<times> byte list" where
  "base64_encode_loop (Suc n) (a # b # c # s) =
     (let data = push_bit 16 (unat a);
          data = data OR push_bit 8 (unat b);
          data = data OR unat c;
          (d, r) = base64_encode_loop n s
      in ([base64_code ! drop_bit 18 data, base64_code ! (drop_bit 12 data AND 0x3F),
           base64_code ! (drop_bit 6 data AND 0x3F), base64_code ! (data AND 0x3F)] @ d, r))"
| "base64_encode_loop n s = ([], s)"

definition base64_encode_tail :: "byte list \<Rightarrow> nat \<Rightarrow> bool \<Rightarrow> byte list" where
  "base64_encode_tail s left padding =
     (if left = 1 then
        [base64_code ! drop_bit 2 (unat (s ! 0)), base64_code ! push_bit 4 (unat (s ! 0) AND 0x3)] @
        (if padding then [PAD, PAD] else [])
      else if left = 2 then
        (let data = push_bit 8 (unat (s ! 0)) OR unat (s ! 1)
         in [base64_code ! drop_bit 10 data, base64_code ! (drop_bit 4 data AND 0x3F),
             base64_code ! push_bit 2 (data AND 0xF)] @
            (if padding then [PAD] else []))
      else [])"

definition ribs_base64_encode :: "byte list \<Rightarrow> bool \<Rightarrow> byte list \<times> nat" where
  "ribs_base64_encode src padding =
     (let total_chars = length src div 3;
          left_chars = length src - total_chars * 3;
          (d, s) = base64_encode_loop total_chars src;
          d = d @ base64_encode_tail s left_chars padding
      in (d @ [0], length d))"

definition base64_value :: "byte \<Rightarrow> nat" where
  "base64_value c = base64_decoder ! unat c"

fun base64_decode_loop :: "nat \<Rightarrow> byte list \<Rightarrow> byte list \<times> byte list" where
  "base64_decode_loop (Suc n) (a # b # c # e # s) =
     (let data = push_bit 18 (base64_value a);
          data = data OR push_bit 12 (base64_value b);
          data = data OR push_bit 6 (base64_value c);
          data = data OR base64_value e;
          (d, r) = base64_decode_loop n s
      in ([word_of_nat (drop_bit 16 data), word_of_nat (drop_bit 8 data), word_of_nat data] @ d, r))"
| "base64_decode_loop n s = ([], s)"

definition base64_decode_tail :: "byte list \<Rightarrow> nat \<Rightarrow> byte list" where
  "base64_decode_tail s left =
     (if left = 2 then
        (let data = push_bit 6 (base64_value (s ! 0)) OR base64_value (s ! 1)
         in [word_of_nat (drop_bit 4 data)])
      else if left = 3 then
        (let data = push_bit 12 (base64_value (s ! 0));
             data = data OR push_bit 6 (base64_value (s ! 1));
             data = data OR base64_value (s ! 2)
         in [word_of_nat (drop_bit 10 data), word_of_nat (drop_bit 2 data)])
      else [])"

definition base64_strip :: "byte list \<Rightarrow> nat" where
  "base64_strip s =
     (let srcsize = length s
      in if 2 < srcsize \<and> s ! (srcsize - 2) = PAD then srcsize - 2
         else if 1 < srcsize \<and> s ! (srcsize - 1) = PAD then srcsize - 1
         else srcsize)"

definition ribs_base64_decode :: "byte list \<Rightarrow> byte list \<times> nat" where
  "ribs_base64_decode src =
     (let srcsize = base64_strip src;
          total_chars = srcsize div 4;
          left_chars = srcsize - total_chars * 4;
          (d, s) = base64_decode_loop total_chars src;
          d = d @ base64_decode_tail s left_chars
      in (d @ [0], length d))"

section \<open>Sextets\<close>

lemma or_eq_add:
  assumes "b < 2 ^ k"
  shows "push_bit k a OR b = a * 2 ^ k + (b :: nat)"
proof -
  have "\<not> bit (push_bit k a) n \<or> \<not> bit b n" for n
  proof (cases "n < k")
    case False
    then have "\<not> bit b n"
      using assms by (metis bit_take_bit_iff take_bit_nat_eq_self)
    then show ?thesis ..
  qed (simp add: bit_push_bit_iff)
  then show ?thesis
    by (simp add: disjunctive_add push_bit_eq_mult mult.commute)
qed

lemma map_code: "map base64_value base64_code = [0..<64]" "PAD \<notin> set base64_code"
  by (simp_all add: base64_code_def base64_value_def base64_decoder_def upt_rec PAD_def)

lemma code_value:
  assumes "i < 64"
  shows "base64_value (base64_code ! i) = i" "base64_code ! i \<noteq> PAD"
proof -
  have l: "length base64_code = 64"
    using arg_cong[OF map_code(1), of length] by simp
  show "base64_value (base64_code ! i) = i"
    using arg_cong[OF map_code(1), of "\<lambda>xs. xs ! i"] assms l by simp
  show "base64_code ! i \<noteq> PAD"
    using map_code(2) assms l by (metis nth_mem)
qed

lemma and_mask6: "x AND 0x3F = x mod (64 :: nat)"
  using and_mask_mod[of x 6] by simp

lemma and_mask4: "x AND 0xF = x mod (16 :: nat)"
  using and_mask_mod[of x 4] by simp

lemma and_mask2: "x AND 0x3 = x mod (4 :: nat)"
  using and_mask_mod[of x 2] by simp

lemmas sextet = and_mask6 and_mask4 and_mask2 drop_bit_eq_div push_bit_eq_mult

lemma byte_lt: "unat (a :: byte) < 256"
  using unsigned_less[of a, where ?'a = nat] by simp

lemma or_bytes: "b < 256 \<Longrightarrow> push_bit 8 a OR b = a * 256 + (b :: nat)"
  using or_eq_add[of b 8 a] by simp

lemma or_group3:
  assumes "b < 256" "c < 256"
  shows "(push_bit 16 a OR push_bit 8 b) OR c = a * 65536 + b * 256 + (c :: nat)"
proof -
  have "push_bit 8 b OR c = b * 256 + c"
    by (rule or_bytes[OF assms(2)])
  moreover have "push_bit 16 a OR (b * 256 + c) = a * 2 ^ 16 + (b * 256 + c)"
    by (rule or_eq_add) (use assms in simp)
  ultimately show ?thesis
    by (simp add: or.assoc)
qed

lemma or_group4:
  assumes "j < 64" "k < 64" "l < 64"
  shows "((push_bit 18 i OR push_bit 12 j) OR push_bit 6 k) OR l = i * 262144 + j * 4096 + k * 64 + (l :: nat)"
proof -
  have "push_bit 6 k OR l = k * 64 + l"
    using or_eq_add[of l 6 k] assms by simp
  moreover have "push_bit 12 j OR (k * 64 + l) = j * 4096 + (k * 64 + l)"
    using or_eq_add[of "k * 64 + l" 12 j] assms by simp
  moreover have "push_bit 18 i OR (j * 4096 + (k * 64 + l)) = i * 262144 + (j * 4096 + (k * 64 + l))"
    using or_eq_add[of "j * 4096 + (k * 64 + l)" 18 i] assms by simp
  ultimately show ?thesis
    by (simp add: or.assoc)
qed

lemma or_pair: "l < 64 \<Longrightarrow> push_bit 6 k OR l = k * 64 + (l :: nat)"
  using or_eq_add[of l 6 k] by simp

lemma or_triple:
  assumes "k < 64" "l < 64"
  shows "(push_bit 12 j OR push_bit 6 k) OR l = j * 4096 + k * 64 + (l :: nat)"
proof -
  have "push_bit 12 j OR (k * 64 + l) = j * 4096 + (k * 64 + l)"
    using or_eq_add[of "k * 64 + l" 12 j] assms by simp
  then show ?thesis
    using or_pair[OF assms(2)] by (simp add: or.assoc)
qed

text \<open>The four sextets of three bytes, and back.\<close>

lemma sextets3:
  assumes "a < 256" "b < 256" "c < (256 :: nat)"
  defines "data \<equiv> a * 65536 + b * 256 + c"
  shows "data div 262144 < 64" "data div 262144 * 262144 + data div 4096 mod 64 * 4096 + data div 64 mod 64 * 64 + data mod 64 = data"
    "data div 65536 = a" "data div 256 mod 256 = b" "data mod 256 = c"
proof -
  have "data < 64 * 262144"
    using assms(1-3) by (simp add: data_def)
  then show "data div 262144 < 64"
    by (rule less_mult_imp_div_less)
  have d: "data = (b * 256 + c) + a * 65536" "data = c + (a * 256 + b) * 256"
    by (simp_all add: data_def)
  have "b * 256 + c < 65536"
    using assms(2,3) by simp
  then show "data div 65536 = a"
    unfolding d(1) by (subst div_mult_self1) simp_all
  have "data div 256 = a * 256 + b"
    unfolding d(2) using assms(3) by (subst div_mult_self1) simp_all
  then show "data div 256 mod 256 = b"
    using assms(2) by simp
  show "data mod 256 = c"
    unfolding d(2) mod_mult_self1 using assms(3) by simp
  have e: "data div 4096 = data div 64 div 64" "data div 262144 = data div 64 div 64 div 64"
    by (simp_all flip: div_mult2_eq)
  show "data div 262144 * 262144 + data div 4096 mod 64 * 4096 + data div 64 mod 64 * 64 + data mod 64 = data"
    unfolding e
    using div_mult_mod_eq[of data 64] div_mult_mod_eq[of "data div 64" 64] div_mult_mod_eq[of "data div 64 div 64" 64]
    by linarith
qed

lemma word_of_nat_byte:
  "n mod 256 = unat (a :: byte) \<Longrightarrow> word_of_nat n = a"
proof -
  assume "n mod 256 = unat a"
  then have "unat (word_of_nat n :: byte) = unat a"
    by (simp add: unat_of_nat)
  then show ?thesis
    by (simp add: word_unat_eq_iff)
qed

lemma group_roundtrip:
  fixes a b c :: byte
  defines "data \<equiv> unat a * 65536 + unat b * 256 + unat c"
  shows "(push_bit 16 (unat a) OR push_bit 8 (unat b)) OR unat c = data"
    "((push_bit 18 (base64_value (base64_code ! drop_bit 18 data)) OR
     push_bit 12 (base64_value (base64_code ! (drop_bit 12 data AND 0x3F)))) OR
     push_bit 6 (base64_value (base64_code ! (drop_bit 6 data AND 0x3F)))) OR
     base64_value (base64_code ! (data AND 0x3F)) = data"
    "word_of_nat (drop_bit 16 data) = a" "word_of_nat (drop_bit 8 data) = b" "word_of_nat data = c"
proof -
  note x = sextets3[OF byte_lt[of a] byte_lt[of b] byte_lt[of c], folded data_def]
  show "(push_bit 16 (unat a) OR push_bit 8 (unat b)) OR unat c = data"
    unfolding data_def by (rule or_group3[OF byte_lt byte_lt])
  have v: "base64_value (base64_code ! drop_bit 18 data) = data div 262144"
    "base64_value (base64_code ! (m AND 0x3F)) = m mod 64" for m
    using code_value(1)[of "data div 262144"] code_value(1)[of "m mod 64"] x(1)
    by (simp_all add: and_mask6 drop_bit_eq_div)
  have "((push_bit 18 (data div 262144) OR push_bit 12 (data div 4096 mod 64)) OR push_bit 6 (data div 64 mod 64))
      OR (data mod 64) = data"
    using or_group4[of "data div 4096 mod 64" "data div 64 mod 64" "data mod 64" "data div 262144"] x(2) by simp
  then show "((push_bit 18 (base64_value (base64_code ! drop_bit 18 data)) OR
     push_bit 12 (base64_value (base64_code ! (drop_bit 12 data AND 0x3F)))) OR
     push_bit 6 (base64_value (base64_code ! (drop_bit 6 data AND 0x3F)))) OR
     base64_value (base64_code ! (data AND 0x3F)) = data"
    unfolding v by (simp add: drop_bit_eq_div)
  show "word_of_nat (drop_bit 16 data) = a" "word_of_nat (drop_bit 8 data) = b" "word_of_nat data = c"
    by (rule word_of_nat_byte; use x(3-5) byte_lt[of a] in \<open>simp add: drop_bit_eq_div\<close>)+
qed

definition enc3 :: "byte \<Rightarrow> byte \<Rightarrow> byte \<Rightarrow> byte list" where
  "enc3 a b c = fst (base64_encode_loop (Suc 0) [a, b, c])"

lemma enc3_step:
  "base64_encode_loop (Suc n) (a # b # c # s) =
     (enc3 a b c @ fst (base64_encode_loop n s), snd (base64_encode_loop n s))"
  by (simp add: enc3_def Let_def split: prod.splits)

lemma enc3_eq:
  fixes a b c :: byte
  defines "data \<equiv> unat a * 65536 + unat b * 256 + unat c"
  shows "enc3 a b c = [base64_code ! drop_bit 18 data, base64_code ! (drop_bit 12 data AND 0x3F),
           base64_code ! (drop_bit 6 data AND 0x3F), base64_code ! (data AND 0x3F)]"
  unfolding enc3_def base64_encode_loop.simps Let_def group_roundtrip(1) split_conv fst_conv data_def
  by (simp only: append_Nil2)

lemma dec3_step:
  "base64_decode_loop (Suc n) (enc3 a b c @ t) =
     ([a, b, c] @ fst (base64_decode_loop n t), snd (base64_decode_loop n t))"
  unfolding enc3_eq append_Cons append_Nil base64_decode_loop.simps Let_def group_roundtrip(2-5)
  by (simp only: split_beta)

lemma code_masked: "base64_code ! (m AND 0x3F) \<noteq> PAD"
  using code_value(2)[of "m mod 64"] by (simp add: and_mask6)

lemma enc3_pad: "PAD \<notin> set (enc3 a b c)" "length (enc3 a b c) = 4"
proof -
  let ?data = "unat a * 65536 + unat b * 256 + unat c"
  have "base64_code ! drop_bit 18 ?data \<noteq> PAD"
    using code_value(2) sextets3(1)[OF byte_lt[of a] byte_lt[of b] byte_lt[of c]]
    by (simp only: drop_bit_eq_div) simp
  then show "PAD \<notin> set (enc3 a b c)"
    unfolding enc3_eq list.set by (metis code_masked insert_iff empty_iff)
  show "length (enc3 a b c) = 4"
    by (simp only: enc3_eq) simp
qed

lemma take3:
  assumes "length s = 3 * Suc n"
  obtains a b c s' where "s = a # b # c # s'" "length s' = 3 * n"
proof -
  obtain a s1 where "s = a # s1" "length s1 = 3 * n + 2"
    using assms by (cases s) auto
  moreover then obtain b s2 where "s1 = b # s2" "length s2 = 3 * n + 1"
    by (cases s1) auto
  moreover then obtain c s3 where "s2 = c # s3" "length s3 = 3 * n"
    by (cases s2) auto
  ultimately show thesis
    using that by blast
qed

lemma loop_roundtrip:
  assumes "length s = 3 * n"
  shows "snd (base64_encode_loop n (s @ r)) = r \<and>
    base64_decode_loop n (fst (base64_encode_loop n (s @ r)) @ t) = (s, t) \<and>
    length (fst (base64_encode_loop n (s @ r))) = 4 * n \<and>
    PAD \<notin> set (fst (base64_encode_loop n (s @ r)))"
  using assms
proof (induction n arbitrary: s)
  case (Suc n)
  obtain a b c s' where s: "s = a # b # c # s'" "length s' = 3 * n"
    by (rule take3[OF Suc(2)])
  show ?case
    unfolding s(1) append_Cons enc3_step
    using Suc(1)[OF s(2)] enc3_pad[of a b c] by (simp add: dec3_step)
qed simp

subsection \<open>The last group\<close>

lemma tail1:
  fixes a :: byte
  defines "x \<equiv> base64_code ! drop_bit 2 (unat a)" and "y \<equiv> base64_code ! push_bit 4 (unat a AND 0x3)"
  shows "word_of_nat (drop_bit 4 (push_bit 6 (base64_value x) OR base64_value y)) = a" "x \<noteq> PAD" "y \<noteq> PAD"
proof -
  have b: "unat a div 4 < 64" "unat a mod 4 * 16 < 64"
    using byte_lt[of a] by simp_all
  have xy: "x = base64_code ! (unat a div 4)" "y = base64_code ! (unat a mod 4 * 16)"
    by (simp_all add: x_def y_def sextet)
  then show "x \<noteq> PAD" "y \<noteq> PAD"
    using code_value(2) b by simp_all
  have "push_bit 6 (base64_value x) OR base64_value y = unat a div 4 * 64 + unat a mod 4 * 16"
    unfolding xy code_value(1)[OF b(1)] code_value(1)[OF b(2)] by (rule or_pair[OF b(2)])
  also have "\<dots> = unat a * 16"
    using div_mult_mod_eq[of "unat a" 4] by linarith
  finally show "word_of_nat (drop_bit 4 (push_bit 6 (base64_value x) OR base64_value y)) = a"
    by (simp add: drop_bit_eq_div)
qed

lemma tail2:
  fixes a b :: byte
  defines "data \<equiv> push_bit 8 (unat a) OR unat b"
  defines "x \<equiv> base64_code ! drop_bit 10 data" and "y \<equiv> base64_code ! (drop_bit 4 data AND 0x3F)"
    and "z \<equiv> base64_code ! push_bit 2 (data AND 0xF)"
  defines "quad \<equiv> (push_bit 12 (base64_value x) OR push_bit 6 (base64_value y)) OR base64_value z"
  shows "word_of_nat (drop_bit 10 quad) = a" "word_of_nat (drop_bit 2 quad) = b"
    "x \<noteq> PAD" "y \<noteq> PAD" "z \<noteq> PAD"
proof -
  have d: "data = unat a * 256 + unat b"
    unfolding data_def by (rule or_bytes[OF byte_lt])
  have b: "data div 1024 < 64" "data div 16 mod 64 < 64" "data mod 16 * 4 < 64"
    using byte_lt[of a] byte_lt[of b] less_mult_imp_div_less[of data 64 1024] by (simp_all add: d)
  have xyz: "x = base64_code ! (data div 1024)" "y = base64_code ! (data div 16 mod 64)"
    "z = base64_code ! (data mod 16 * 4)"
    by (simp_all add: x_def y_def z_def sextet)
  then show "x \<noteq> PAD" "y \<noteq> PAD" "z \<noteq> PAD"
    using code_value(2) b by simp_all
  have "quad = data div 1024 * 4096 + data div 16 mod 64 * 64 + data mod 16 * 4"
    unfolding quad_def xyz code_value(1)[OF b(1)] code_value(1)[OF b(2)] code_value(1)[OF b(3)]
    by (rule or_triple[OF b(2,3)])
  also have "\<dots> = data * 4"
  proof -
    have "data div 1024 = data div 16 div 64"
      by (simp flip: div_mult2_eq)
    then show ?thesis
      using div_mult_mod_eq[of data 16] div_mult_mod_eq[of "data div 16" 64] by linarith
  qed
  finally have quad4: "quad = data * 4" .
  have "drop_bit 10 quad = unat a"
  proof -
    have "data * 4 = unat b * 4 + unat a * 1024"
      by (simp add: d)
    moreover have "(unat b * 4 + unat a * 1024) div 1024 = unat a"
      using byte_lt[of b] by (subst div_mult_self1) simp_all
    ultimately show ?thesis
      by (simp add: quad4 drop_bit_eq_div)
  qed
  then show "word_of_nat (drop_bit 10 quad) = a"
    by simp
  have "drop_bit 2 quad mod 256 = unat b"
    unfolding quad4 drop_bit_eq_div d using byte_lt[of b] by simp
  then show "word_of_nat (drop_bit 2 quad) = b"
    by (rule word_of_nat_byte)
qed


text \<open>The padding is recognised, and only it.\<close>

lemma strip_none:
  assumes "PAD \<notin> set e"
  shows "base64_strip e = length e"
proof -
  have "e ! i \<noteq> PAD" if "i < length e" for i
    using assms that nth_mem by fastforce
  then have "1 < length e \<longrightarrow> e ! (length e - 1) \<noteq> PAD" "2 < length e \<longrightarrow> e ! (length e - 2) \<noteq> PAD"
    by simp_all
  then show ?thesis
    by (auto simp: base64_strip_def Let_def)
qed

lemma strip_one:
  assumes "PAD \<notin> set e" "2 \<le> length e"
  shows "base64_strip (e @ [PAD]) = length e"
proof -
  have "e ! (length e - 1) \<noteq> PAD"
    using assms nth_mem[of "length e - 1" e] by (metis One_nat_def Suc_1 Suc_le_lessD diff_less less_le_trans zero_less_Suc)
  then show ?thesis
    using assms(2) by (simp add: base64_strip_def Let_def nth_append)
qed

lemma strip_two: "0 < length e \<Longrightarrow> base64_strip (e @ [PAD, PAD]) = length e"
  by (simp add: base64_strip_def Let_def nth_append)

lemma decode_eq:
  assumes "base64_strip e = 4 * n + k" "k < 4" "base64_decode_loop n e = (s, t)" "base64_decode_tail t k = r"
  shows "ribs_base64_decode e = ((s @ r) @ [0], length (s @ r))"
proof -
  have "(4 * n + k) div 4 = n" "4 * n + k - n * 4 = k"
    using assms(2) by simp_all
  then show ?thesis
    using assms by (simp add: ribs_base64_decode_def Let_def)
qed

lemma encode_parts:
  fixes src :: "byte list"
  defines "n \<equiv> length src div 3"
  obtains e s r where "src = s @ r" "length s = 3 * n" "length r < 3"
    "ribs_base64_encode src p = ((e @ base64_encode_tail r (length r) p) @ [0], length (e @ base64_encode_tail r (length r) p))"
    "\<And>t. base64_decode_loop n (e @ t) = (s, t)" "length e = 4 * n" "PAD \<notin> set e"
proof -
  let ?s = "take (3 * n) src" and ?r = "drop (3 * n) src"
  have l: "length ?s = 3 * n" "length ?r = length src - n * 3" "length ?r < 3"
    by (auto simp: n_def)
  note lr = loop_roundtrip[OF l(1), of ?r, unfolded append_take_drop_id]
  show thesis
    by (rule that[of ?s ?r "fst (base64_encode_loop n src)"])
      (use l lr in \<open>auto simp: ribs_base64_encode_def Let_def split_beta simp flip: n_def\<close>)
qed

lemma short_cases:
  assumes "length r < 3"
  obtains "r = []" | a where "r = [a]" | a b where "r = [a, b]"
  using assms by (cases r rule: list.exhaust; cases "tl r" rule: list.exhaust; cases "tl (tl r)") auto

section \<open>Properties\<close>

text \<open>C15. Decoding what was encoded gives back the source and its size, for every sequence of bytes and
  whether or not padding was asked for.\<close>

theorem base64_roundtrip:
  "case ribs_base64_encode src padding of
     (e, n) \<Rightarrow> ribs_base64_decode (take n e) = (src @ [0], length src)"
proof -
  let ?n = "length src div 3"
  obtain e s r where p: "src = s @ r" "length s = 3 * ?n" "length r < 3"
    "ribs_base64_encode src padding =
       ((e @ base64_encode_tail r (length r) padding) @ [0], length (e @ base64_encode_tail r (length r) padding))"
    "\<And>t. base64_decode_loop ?n (e @ t) = (s, t)" "length e = 4 * ?n" "PAD \<notin> set e"
    by (rule encode_parts[of src padding]) blast
  let ?e = "e @ base64_encode_tail r (length r) padding"
  have "ribs_base64_decode ?e = ((s @ r) @ [0], length (s @ r))"
    using p(3)
  proof (cases rule: short_cases)
    case 1
    then show ?thesis
      using p p(5)[of "[]"] strip_none[OF p(7)]
      by (intro decode_eq[of _ ?n 0]) (simp_all add: base64_encode_tail_def base64_decode_tail_def)
  next
    case (2 a)
    let ?x = "base64_code ! drop_bit 2 (unat a)" and ?y = "base64_code ! push_bit 4 (unat a AND 0x3)"
    note t = tail1[of a]
    have "base64_strip ?e = 4 * ?n + 2"
      using 2 p(6,7) t(2,3) strip_none[of "e @ [?x, ?y]"] strip_two[of "e @ [?x, ?y]"]
      by (cases padding) (simp_all add: base64_encode_tail_def)
    moreover have "base64_decode_tail (base64_encode_tail r (length r) padding) 2 = r"
      using 2 t(1) by (simp add: base64_encode_tail_def base64_decode_tail_def Let_def)
    ultimately show ?thesis
      by (intro decode_eq[of _ ?n 2]) (use p(5) in simp_all)
  next
    case (3 a b)
    let ?d = "push_bit 8 (unat a) OR unat b"
    let ?w = "[base64_code ! drop_bit 10 ?d, base64_code ! (drop_bit 4 ?d AND 0x3F), base64_code ! push_bit 2 (?d AND 0xF)]"
    note t = tail2[of a b]
    have tl: "base64_encode_tail r (length r) padding = ?w @ (if padding then [PAD] else [])"
      using 3 by (simp add: base64_encode_tail_def Let_def del: drop_bit_or push_bit_or)
    have "PAD \<notin> set (e @ ?w)"
      using t(3-5) p(7) by (simp del: drop_bit_or push_bit_or)
    then have "base64_strip ?e = 4 * ?n + 3"
      using p(6) tl strip_none[of "e @ ?w"] strip_one[of "e @ ?w"] by (cases padding) simp_all
    moreover have "base64_decode_tail (base64_encode_tail r (length r) padding) 3 = r"
      using 3 t(1,2) unfolding tl by (simp add: base64_decode_tail_def Let_def del: drop_bit_or push_bit_or)
    ultimately show ?thesis
      by (intro decode_eq[of _ ?n 3]) (use p(5) in simp_all)
  qed
  then show ?thesis
    using p(1,4) by simp
qed

lemma decode_loop_length: "length (fst (base64_decode_loop n s)) \<le> 3 * n"
  by (induction n s rule: base64_decode_loop.induct) (simp_all add: Let_def split_beta)

lemma strip_le: "base64_strip e \<le> length e"
  by (simp add: base64_strip_def Let_def)

lemma decode_length: "length (fst (ribs_base64_decode e)) \<le> BASE64_DECODED_SIZE (length e)"
proof -
  define m where "m = base64_strip e"
  have "length (base64_decode_tail s (m - m div 4 * 4)) \<le> (if m mod 4 = 0 then 0 else 2)" for s
    by (simp add: base64_decode_tail_def Let_def minus_div_mult_eq_mod)
  then have "length (fst (ribs_base64_decode e)) \<le> 3 * (m div 4) + (if m mod 4 = 0 then 0 else 2) + 1"
    using decode_loop_length[of "m div 4" e]
    by (simp add: ribs_base64_decode_def Let_def split_beta add_mono flip: m_def)
  also have "\<dots> \<le> (m + 3) div 4 * 3 + 1"
  proof -
    have "(m + 3) div 4 = m div 4 + (if m mod 4 = 0 then 0 else 1)"
      by presburger
    then show ?thesis
      by simp
  qed
  also have "\<dots> \<le> BASE64_DECODED_SIZE (length e)"
    using strip_le[of e] div_le_mono[of "m + 3" "length e + 3" 4]
    by (simp add: BASE64_DECODED_SIZE_def BASE64_DECODED_LEN_def flip: m_def)
  finally show ?thesis .
qed

lemma encode_length:
  "length (fst (ribs_base64_encode src p)) \<le> BASE64_ENCODED_SIZE (length src)"
  "p \<Longrightarrow> length (fst (ribs_base64_encode src p)) = BASE64_ENCODED_SIZE (length src)"
proof -
  let ?n = "length src div 3"
  obtain e s r where q: "src = s @ r" "length s = 3 * ?n" "length r < 3"
    "ribs_base64_encode src p = ((e @ base64_encode_tail r (length r) p) @ [0], length (e @ base64_encode_tail r (length r) p))"
    "length e = 4 * ?n"
    by (rule encode_parts[of src p]) blast
  have l: "length src = 3 * ?n + length r"
    using q(1,2) by simp
  have "(length src + 2) div 3 = ?n + (if r = [] then 0 else 1)"
    using q(3) l by (cases r rule: rev_cases) auto
  moreover have "length (base64_encode_tail r (length r) p) \<le> (if r = [] then 0 else 4)"
    "p \<Longrightarrow> length (base64_encode_tail r (length r) p) = (if r = [] then 0 else 4)"
    using q(3) by (auto simp: base64_encode_tail_def Let_def elim: short_cases)
  ultimately show "length (fst (ribs_base64_encode src p)) \<le> BASE64_ENCODED_SIZE (length src)"
    "p \<Longrightarrow> length (fst (ribs_base64_encode src p)) = BASE64_ENCODED_SIZE (length src)"
    using q(4,5) by (auto simp: BASE64_ENCODED_SIZE_def BASE64_ENCODED_LEN_def)
qed

text \<open>C16. The encoder writes at most \<open>BASE64_ENCODED_SIZE\<close> bytes and with padding exactly that many, the
  decoder at most \<open>BASE64_DECODED_SIZE\<close> bytes, whatever the input; the size reported does not
  count the terminator.\<close>

theorem base64_bounds:
  "length (fst (ribs_base64_encode src padding)) \<le> BASE64_ENCODED_SIZE (length src) \<and>
   length (fst (ribs_base64_encode src True)) = BASE64_ENCODED_SIZE (length src) \<and>
   length (fst (ribs_base64_decode enc)) \<le> BASE64_DECODED_SIZE (length enc) \<and>
   snd (ribs_base64_encode src padding) + 1 = length (fst (ribs_base64_encode src padding)) \<and>
   snd (ribs_base64_decode enc) + 1 = length (fst (ribs_base64_decode enc))"
  using encode_length decode_length
  by (simp add: ribs_base64_encode_def ribs_base64_decode_def Let_def split_beta)

end
