(* ===== verification/Uri.thy ===== *)
theory Uri
  imports Hashtable_Ops
begin

text \<open>
  \<^verbatim>\<open>src/_uri_decode.c\<close> and \<^verbatim>\<open>src/_uri_encode.c\<close>: percent-encoding of URIs and the splitting of a
  query string into a hash table.  A C string is the list of its bytes before the
  terminator; the encoder's output is what it appends to its buffer.
\<close>

section \<open>Characters\<close>

definition ch :: "char \<Rightarrow> byte" where
  "ch c = of_char c"

definition hex_val_char :: "byte \<Rightarrow> byte" where
  "hex_val_char c =
     (if ch (CHR ''0'') \<le> c \<and> c \<le> ch (CHR ''9'') then c - ch (CHR ''0'')
      else if ch (CHR ''A'') \<le> c \<and> c \<le> ch (CHR ''F'') then c - ch (CHR ''A'') + 10
      else if ch (CHR ''a'') \<le> c \<and> c \<le> ch (CHR ''f'') then c - ch (CHR ''a'') + 10
      else 0)"

text \<open>The value of up to two hexadecimal digits, and the string behind them.\<close>

fun hex_val :: "byte list \<Rightarrow> byte \<times> byte list" where
  "hex_val [] = (0, [])"
| "hex_val [a] = (push_bit 4 (hex_val_char a), [])"
| "hex_val (a # b # s) = (push_bit 4 (hex_val_char a) + hex_val_char b, s)"

lemma length_hex_val: "length (snd (hex_val s)) \<le> length s"
  by (cases s rule: hex_val.cases) simp_all

section \<open>Decoding\<close>

text \<open>The bytes written before the terminator.\<close>

function http_uri_decode_loop :: "byte list \<Rightarrow> byte list" where
  "http_uri_decode_loop [] = []"
| "http_uri_decode_loop (c # p1) =
     (if c = ch (CHR ''%'') then fst (hex_val p1) # http_uri_decode_loop (snd (hex_val p1))
      else if c = ch (CHR ''+'') then ch (CHR '' '') # http_uri_decode_loop p1
      else c # http_uri_decode_loop p1)"
  by pat_completeness auto
termination
  by (relation "measure length", rule wf_measure)
    (use length_hex_val in \<open>auto simp: less_Suc_eq_le\<close>)

definition http_uri_decode :: "byte list \<Rightarrow> byte list \<times> nat" where
  "http_uri_decode uri = (let p2 = http_uri_decode_loop uri in (p2 @ [0], length p2 + 1))"

section \<open>Encoding\<close>

definition uri_bits :: "byte list" where
  "uri_bits = [0xFF, 0xFF, 0xFF, 0xFF, 0xFF, 0x9B, 0x00, 0xFC,
               0x01, 0x00, 0x00, 0x78, 0x01, 0x00, 0x00, 0xF8,
               0xFF, 0xFF, 0xFF, 0xFF, 0xFF, 0xFF, 0xFF, 0xFF,
               0xFF, 0xFF, 0xFF, 0xFF, 0xFF, 0xFF, 0xFF, 0xFF]"

definition hex_chars :: "byte list" where
  "hex_chars = map ch ''0123456789ABCDEF''"

definition uri_reserved :: "byte \<Rightarrow> bool" where
  "uri_reserved c \<longleftrightarrow> 0 < uri_bits ! unat (drop_bit 3 c) AND push_bit (unat (c AND 7)) 1"

definition uri_encode_byte :: "byte \<Rightarrow> byte list" where
  "uri_encode_byte c =
     (if c = ch (CHR '' '') then [ch (CHR ''+'')]
      else if uri_reserved c
      then [ch (CHR ''%''), hex_chars ! unat (drop_bit 4 c), hex_chars ! unat (c AND 15)]
      else [c])"

definition http_uri_encode :: "byte list \<Rightarrow> byte list" where
  "http_uri_encode s = concat (map uri_encode_byte s)"

section \<open>Query strings\<close>

definition is_amp :: "byte \<Rightarrow> bool" where
  "is_amp c \<longleftrightarrow> c = ch (CHR ''&'')"

definition is_eq :: "byte \<Rightarrow> bool" where
  "is_eq c \<longleftrightarrow> c = ch (CHR ''='')"

text \<open>Filling a value that was allocated with its record.\<close>

definition ht_write_val :: "hashtable \<Rightarrow> nat \<Rightarrow> byte list \<Rightarrow> hashtable" where
  "ht_write_val ht ofs val =
     (let r = ht_recs ht ofs
      in ht_set_rec ht ofs (r\<lparr>r_data := mem_copy (r_data r) (r_w0 r) val\<rparr>))"

text \<open>The loop: the piece up to the next ampersand, its key up to the first equals sign, and the rest
  of the string.  The bytes the code overwrites while it works are restored at the end of
  each turn, so the string itself does not change.\<close>

function http_uri_decode_query_params :: "kernel \<Rightarrow> byte list \<Rightarrow> hashtable \<Rightarrow> hashtable option" where
  "http_uri_decode_query_params k q params =
     (if q = [] then Some params
      else
        (let piece = takeWhile (\<lambda>c. \<not> is_amp c) q;
             rest = drop (length piece + 1) q;
             key = takeWhile (\<lambda>c. \<not> is_eq c) piece;
             val = drop (length key + 1) piece
         in case hashtable_lookup params key of
              None \<Rightarrow> None
            | Some htofs \<Rightarrow>
                if htofs \<noteq> 0 then http_uri_decode_query_params k rest params
                else
                  (case hashtable_insert_alloc k params key (length val + 1) of
                     None \<Rightarrow> None
                   | Some (htofs, params) \<Rightarrow>
                       http_uri_decode_query_params k rest
                         (ht_write_val params htofs (fst (http_uri_decode val))))))"
  by pat_completeness auto
termination
  by (relation "measure (\<lambda>(k, q, params). length q)", rule wf_measure) (auto simp: neq_Nil_conv)

section \<open>Round trip\<close>

lemma map_hex_val: "map hex_val_char hex_chars = map word_of_nat [0..<16]"
  by (simp add: hex_chars_def hex_val_char_def ch_def upt_rec word_le_nat_alt)

lemma hex_val_digit:
  assumes "i < 16"
  shows "hex_val_char (hex_chars ! i) = word_of_nat i"
proof -
  have "length hex_chars = 16"
    by (simp add: hex_chars_def)
  then show ?thesis
    using arg_cong[OF map_hex_val, of "\<lambda>xs. xs ! i"] assms by simp
qed

lemma two_digits:
  fixes c :: byte
  shows "push_bit 4 (hex_val_char (hex_chars ! unat (drop_bit 4 c))) + hex_val_char (hex_chars ! unat (c AND 15)) = c"
proof -
  have c: "unat c < 256"
    using unsigned_less[of c, where ?'a = nat] by simp
  have hi: "unat (drop_bit 4 c) = unat c div 16"
    by (simp add: drop_bit_eq_div unat_div)
  have lo: "unat (c AND 15) = unat c mod 16"
    using and_mask_mod[of "unat c" 4] by (simp add: unsigned_and_eq)
  have "push_bit 4 (word_of_nat (unat c div 16)) + word_of_nat (unat c mod 16) =
      (word_of_nat (unat c div 16 * 16 + unat c mod 16) :: byte)"
    by (simp only: push_bit_eq_mult of_nat_add of_nat_mult) simp
  also have "\<dots> = c"
    by (simp only: div_mult_mod_eq) simp
  finally show ?thesis
    unfolding hi lo using c by (simp add: hex_val_digit)
qed

lemma special_reserved: "uri_reserved (ch (CHR ''%''))" "uri_reserved (ch (CHR ''+''))"
  by (simp_all add: uri_reserved_def uri_bits_def ch_def)

lemma decode_encoded_byte:
  "http_uri_decode_loop (uri_encode_byte c @ s) = c # http_uri_decode_loop s"
proof -
  have "ch (CHR ''+'') \<noteq> ch (CHR ''%'')"
    by (simp add: ch_def)
  then show ?thesis
    using special_reserved two_digits[of c] by (auto simp: uri_encode_byte_def)
qed

lemma decode_encoded: "http_uri_decode_loop (http_uri_encode s @ t) = s @ http_uri_decode_loop t"
  by (induction s) (simp_all add: http_uri_encode_def decode_encoded_byte del: http_uri_decode_loop.simps)

lemma uri_decode_length: "length (http_uri_decode_loop s) \<le> length s"
proof (induction s rule: http_uri_decode_loop.induct)
  case (2 c p1)
  then show ?case
    using length_hex_val[of p1] by auto
qed simp

text \<open>C17. Decoding inverts encoding: for every string the decoder applied to the encoder's output gives
  the string and its terminator.\<close>

theorem uri_roundtrip: "http_uri_decode (http_uri_encode s) = (s @ [0], length s + 1)"
  using decode_encoded[of s "[]"] by (simp add: http_uri_decode_def Let_def)

text \<open>C18. Decoding never needs more room than its input, terminator included, so that it can be done in
  place; encoding needs at most three bytes for one, the space the encoder reserves.\<close>

theorem uri_bounds:
  "snd (http_uri_decode s) \<le> length s + 1 \<and> length (fst (http_uri_decode s)) = snd (http_uri_decode s) \<and>
   length (http_uri_encode t) \<le> 3 * length t"
proof -
  have "length (http_uri_encode t) \<le> 3 * length t"
    by (induction t) (auto simp: http_uri_encode_def uri_encode_byte_def)
  then show ?thesis
    using uri_decode_length[of s] by (simp add: http_uri_decode_def Let_def)
qed

end
