(* ===== verification/Json.thy ===== *)
theory Json
  imports Ribs_Prelude
begin

text \<open>
  \<^verbatim>\<open>src/json.c\<close>: the event parser and the string escapes.  A position in the text stands for a
  pointer into it; \<open>at\<close> reads a byte, the terminator behind the last one.  The four
  callbacks are the events they are called with, in order: a key and a value are pairs of
  positions, \<open>None\<close> the pair of null pointers \<open>json_stack_item_reset\<close> stores.  The stack of the
  structure is a list, its top first.
\<close>

section \<open>State\<close>

type_synonym json_stack_item = "(nat \<times> nat) option"

datatype json_event =
    Callback_string json_stack_item "nat \<times> nat"
  | Callback_primitive json_stack_item "nat \<times> nat"
  | Callback_block_begin json_stack_item
  | Callback_block_end json_stack_item

datatype json_err = Err_none | Err_string | Err_primitive | Err_unbalanced

record json =
  js_level :: nat
  js_cur :: nat
  js_err :: json_err
  last_string :: json_stack_item
  last_key :: json_stack_item
  js_stack :: "json_stack_item list"
  js_events :: "json_event list"

definition emit :: "json_event \<Rightarrow> json \<Rightarrow> json" where
  "emit e js = js\<lparr>js_events := js_events js @ [e]\<rparr>"

definition at :: "byte list \<Rightarrow> nat \<Rightarrow> byte" where
  "at s i = (if i < length s then s ! i else 0)"

definition jc :: "char \<Rightarrow> byte" where
  "jc c = of_char c"

section \<open>Tokens\<close>

text \<open>Where the scan for the closing quote stops, and whether it met the end of the text behind a
  backslash.\<close>

function scan_string :: "byte list \<Rightarrow> nat \<Rightarrow> nat \<times> bool" where
  "scan_string s cur =
     (if at s cur = 0 then (cur, False)
      else if at s cur = jc (CHR 0x22) then (cur, False)
      else if at s cur = jc (CHR 0x5C) then
        (if at s (cur + 1) = 0 then (cur + 1, True) else scan_string s (cur + 2))
      else scan_string s (cur + 1))"
  by pat_completeness auto
termination
  by (relation "measure (\<lambda>(s, cur). length s - cur)", rule wf_measure) (auto simp: at_def split: if_splits)

declare scan_string.simps [simp del]

definition json_parse_string :: "byte list \<Rightarrow> json \<Rightarrow> int \<times> json" where
  "json_parse_string s js =
     (let start = js_cur js + 1;
          (cur, esc) = scan_string s start;
          js = js\<lparr>js_cur := cur\<rparr>
      in if esc then (-1, js)
         else if at s cur \<noteq> jc (CHR 0x22) then (-1, js\<lparr>js_err := Err_string\<rparr>)
         else
           (let js = js\<lparr>last_string := Some (start, cur)\<rparr>;
                js = emit (Callback_string (last_key js) (start, cur)) js
            in (0, js\<lparr>js_cur := cur + 1\<rparr>)))"

definition ends_primitive :: "byte \<Rightarrow> bool" where
  "ends_primitive c \<longleftrightarrow>
     c \<in> set (map jc [CHR '']'', CHR ''}'', CHR 0x09, CHR 0x0D, CHR 0x0A, CHR '' '', CHR '','' ])"

function scan_primitive :: "byte list \<Rightarrow> nat \<Rightarrow> nat" where
  "scan_primitive s cur =
     (if at s cur = 0 \<or> ends_primitive (at s cur) then cur else scan_primitive s (cur + 1))"
  by pat_completeness auto
termination
  by (relation "measure (\<lambda>(s, cur). length s - cur)", rule wf_measure) (auto simp: at_def split: if_splits)

declare scan_primitive.simps [simp del]

definition json_parse_primitive :: "byte list \<Rightarrow> json \<Rightarrow> int \<times> json" where
  "json_parse_primitive s js =
     (let start = js_cur js;
          cur = scan_primitive s start;
          js = js\<lparr>js_cur := cur\<rparr>
      in if at s cur = 0 then (-1, js\<lparr>js_err := Err_primitive\<rparr>)
         else (0, (emit (Callback_primitive (last_key js) (start, cur)) js)\<lparr>last_string := Some (start, cur)\<rparr>))"

section \<open>The parser\<close>

definition begins_primitive :: "byte \<Rightarrow> bool" where
  "begins_primitive c \<longleftrightarrow> c \<in> set (map jc ''-0123456789tfn'')"

definition json_block_begin :: "json \<Rightarrow> json" where
  "json_block_begin js =
     (let js = emit (Callback_block_begin (last_string js)) js;
          js = js\<lparr>last_key := None\<rparr>;
          js = js\<lparr>js_stack := last_string js # js_stack js\<rparr>
      in js\<lparr>last_string := None, js_level := js_level js + 1\<rparr>)"

definition json_block_end :: "json \<Rightarrow> json" where
  "json_block_end js =
     (let js = js\<lparr>last_key := None\<rparr>;
          js = js\<lparr>last_string := hd (js_stack js), js_stack := tl (js_stack js)\<rparr>;
          js = emit (Callback_block_end (last_string js)) js
      in js\<lparr>js_level := js_level js - 1\<rparr>)"

definition json_step :: "byte list \<Rightarrow> json \<Rightarrow> int \<times> json" where
  "json_step s js =
     (let c = at s (js_cur js);
          next = (\<lambda>js. (0, js\<lparr>js_cur := js_cur js + 1\<rparr>))
      in if c = jc (CHR ''{'') \<or> c = jc (CHR ''['') then next (json_block_begin js)
         else if c = jc (CHR ''}'') \<or> c = jc (CHR '']'') then
           (if js_level js = 0 then (-1, js\<lparr>js_err := Err_unbalanced\<rparr>) else next (json_block_end js))
         else if c = jc (CHR 0x22) then json_parse_string s js
         else if begins_primitive c then json_parse_primitive s js
         else if c = jc (CHR '':'') then next (js\<lparr>last_key := last_string js\<rparr>)
         else if c = jc (CHR '','') then next (js\<lparr>last_key := None\<rparr>)
         else next js)"

lemma at_nonzero: "at s i \<noteq> 0 \<Longrightarrow> i < length s"
  by (simp add: at_def split: if_splits)

lemma scan_string_cases:
  obtains (stop) "at s cur = 0 \<or> at s cur = jc (CHR 0x22)" "scan_string s cur = (cur, False)"
  | (esc_end) "at s cur \<noteq> 0" "at s (cur + 1) = 0" "scan_string s cur = (cur + 1, True)"
  | (esc) "at s cur = jc (CHR 0x5C)" "at s (cur + 1) \<noteq> 0" "scan_string s cur = scan_string s (cur + 2)"
  | (more) "at s cur \<noteq> 0" "at s cur \<noteq> jc (CHR 0x22)" "at s cur \<noteq> jc (CHR 0x5C)"
      "scan_string s cur = scan_string s (cur + 1)"
  by (cases "at s cur = 0"; cases "at s cur = jc (CHR 0x22)"; cases "at s cur = jc (CHR 0x5C)";
      cases "at s (cur + 1) = 0") (simp_all add: scan_string.simps[of s cur])

lemma scan_string_bounds:
  "cur \<le> length s \<Longrightarrow> cur \<le> fst (scan_string s cur) \<and> fst (scan_string s cur) \<le> length s"
proof (induction s cur rule: scan_string.induct)
  case (1 s cur)
  show ?case
  proof (cases s cur rule: scan_string_cases)
    case esc
    have "at s cur \<noteq> 0" "at s cur \<noteq> jc (CHR 0x22)"
      using esc(1) by (simp_all add: jc_def)
    then show ?thesis
      using 1(1) esc at_nonzero[OF esc(2)] by simp
  next
    case more
    then show ?thesis
      using 1(2) at_nonzero[OF more(1)] by simp
  qed (use 1(3) at_nonzero[of s cur] in auto)
qed

lemma scan_primitive_bounds:
  "cur \<le> length s \<Longrightarrow> cur \<le> scan_primitive s cur \<and> scan_primitive s cur \<le> length s"
proof (induction s cur rule: scan_primitive.induct)
  case (1 s cur)
  then show ?case
    using at_nonzero[of s cur] by (cases "at s cur = 0 \<or> ends_primitive (at s cur)")
      (simp_all add: scan_primitive.simps[of s cur])
qed

lemma begins_not_ends: "begins_primitive c \<Longrightarrow> c \<noteq> 0 \<and> \<not> ends_primitive c"
  by (auto simp: begins_primitive_def ends_primitive_def jc_def)

text \<open>Each turn of the loop consumes at least one byte.\<close>

lemma json_step_progress:
  assumes "json_step s js = (r, js')" "\<not> r < 0" "at s (js_cur js) \<noteq> 0"
  shows "js_cur js < js_cur js' \<and> js_cur js' \<le> length s"
proof -
  let ?c = "at s (js_cur js)"
  have l: "js_cur js < length s"
    by (rule at_nonzero[OF assms(3)])
  consider (str) "json_step s js = json_parse_string s js" | (prim) "begins_primitive ?c" "json_step s js = json_parse_primitive s js"
    | (other) "js_cur js' = js_cur js + 1"
    using assms(1,2) by (auto simp: json_step_def Let_def json_block_begin_def json_block_end_def emit_def split: if_splits)
  then show ?thesis
  proof cases
    case str
    obtain cur esc where sc: "scan_string s (js_cur js + 1) = (cur, esc)"
      by force
    then have b: "js_cur js + 1 \<le> cur" "cur \<le> length s"
      using scan_string_bounds[of "js_cur js + 1" s] l by auto
    have "js_cur js' = cur + 1" "at s cur \<noteq> 0"
      using str assms(1,2) sc by (auto simp: json_parse_string_def Let_def emit_def jc_def split: if_splits)
    then show ?thesis
      using b at_nonzero[of s cur] by simp
  next
    case prim
    have "scan_primitive s (js_cur js) = scan_primitive s (js_cur js + 1)"
      using begins_not_ends[OF prim(1)] by (simp add: scan_primitive.simps[of s "js_cur js"])
    moreover have "js_cur js' = scan_primitive s (js_cur js)"
      using prim(2) assms(1) by (auto simp: json_parse_primitive_def Let_def emit_def split: if_splits)
    ultimately show ?thesis
      using scan_primitive_bounds[of "js_cur js + 1" s] l by simp
  next
    case other
    then show ?thesis
      using l by simp
  qed
qed

function json_parse_loop :: "byte list \<Rightarrow> json \<Rightarrow> int \<times> json" where
  "json_parse_loop s js =
     (if at s (js_cur js) = 0 then (0, js)
      else
        (case json_step s js of
           (r, js') \<Rightarrow> if r < 0 then (-1, js') else json_parse_loop s js'))"
  by pat_completeness auto
termination
proof (relation "measure (\<lambda>(s, js). length s - js_cur js)", rule wf_measure, goal_cases)
  case (1 s js r js')
  have "js_cur js < js_cur js'" "js_cur js < length s"
    using json_step_progress[OF 1(2)[symmetric] 1(3,1)] at_nonzero[OF 1(1)] by simp_all
  then show ?case
    unfolding in_measure split_conv by linarith
qed

declare json_parse_loop.simps [simp del]

definition json_parse :: "byte list \<Rightarrow> json \<Rightarrow> int \<times> json" where
  "json_parse s js =
     (let js = js\<lparr>last_key := None, js_level := 0, js_cur := 0, last_string := None\<rparr>;
          (r, js) = json_parse_loop s js
      in if r < 0 then (-1, js)
         else if js_level js \<noteq> 0 then (-1, js\<lparr>js_err := Err_unbalanced\<rparr>)
         else (0, js))"

section \<open>Escapes\<close>

definition unescape_table :: "byte \<Rightarrow> byte" where
  "unescape_table c =
     (if c = 0x62 then 0x08 else if c = 0x66 then 0x0C else if c = 0x6E then 0x0A
      else if c = 0x72 then 0x0D else if c = 0x74 then 0x09 else if c = 0x76 then 0x0B else c)"

text \<open>The bytes of the string up to its terminator.  A backslash in front of the terminator makes the
  code copy the terminator and read on behind it: \<open>None\<close>.\<close>

fun json_unescape_str :: "byte list \<Rightarrow> byte list option" where
  "json_unescape_str [] = Some []"
| "json_unescape_str (c # s) =
     (if c = jc (CHR 0x5C) then
        (case s of
           [] \<Rightarrow> None
         | e # s' \<Rightarrow> map_option ((#) (unescape_table e)) (json_unescape_str s'))
      else map_option ((#) c) (json_unescape_str s))"

definition esc_byte :: "byte \<Rightarrow> byte list" where
  "esc_byte c =
     (let bs = jc (CHR 0x5C)
      in if c = jc (CHR 0x22) \<or> c = jc (CHR 0x5C) \<or> c = jc (CHR ''/'') then [bs, c]
         else if c = 0x08 then [bs, jc (CHR ''b'')]
         else if c = 0x0C then [bs, jc (CHR ''f'')]
         else if c = 0x0A then [bs, jc (CHR ''n'')]
         else if c = 0x0D then [bs, jc (CHR ''r'')]
         else if c = 0x09 then [bs, jc (CHR ''t'')]
         else [c])"

definition json_nescape_str :: "byte list \<Rightarrow> nat \<Rightarrow> byte list \<times> nat" where
  "json_nescape_str s len = (let d = concat (map esc_byte (take len s)) in (d @ [0], length d))"

definition json_escape_str :: "byte list \<Rightarrow> byte list \<times> nat" where
  "json_escape_str s = (let d = concat (map esc_byte s) in (d @ [0], length d))"

definition json_copy_key :: "byte list \<Rightarrow> nat \<Rightarrow> nat \<Rightarrow> nat \<Rightarrow> int \<times> byte list option" where
  "json_copy_key s kb ke strOutLen =
     (let len = ke - kb
      in if len + 1 > strOutLen then (-1, None) else (0, Some (take len (drop kb s) @ [0])))"


section \<open>Events\<close>

text \<open>Replaying events on a stack of keys: every block end carries the key of the block begin it
  closes.\<close>

fun replay :: "json_event list \<Rightarrow> json_stack_item list \<Rightarrow> json_stack_item list option" where
  "replay [] st = Some st"
| "replay (Callback_block_begin k # es) st = replay es (k # st)"
| "replay (Callback_block_end k # es) st =
     (case st of [] \<Rightarrow> None | x # st \<Rightarrow> if x = k then replay es st else None)"
| "replay (Callback_string k v # es) st = replay es st"
| "replay (Callback_primitive k v # es) st = replay es st"

definition item_in :: "byte list \<Rightarrow> json_stack_item \<Rightarrow> bool" where
  "item_in s k \<longleftrightarrow> (case k of None \<Rightarrow> True | Some (b, e) \<Rightarrow> b \<le> e \<and> e < length s)"

fun event_in :: "byte list \<Rightarrow> json_event \<Rightarrow> bool" where
  "event_in s (Callback_string k v) \<longleftrightarrow> item_in s k \<and> item_in s (Some v)"
| "event_in s (Callback_primitive k v) \<longleftrightarrow> item_in s k \<and> item_in s (Some v)"
| "event_in s (Callback_block_begin k) \<longleftrightarrow> item_in s k"
| "event_in s (Callback_block_end k) \<longleftrightarrow> item_in s k"

definition json_inv :: "byte list \<Rightarrow> json_stack_item list \<Rightarrow> json \<Rightarrow> bool" where
  "json_inv s st0 js \<longleftrightarrow>
     (\<exists>st. js_stack js = st @ st0 \<and> length st = js_level js \<and> replay (js_events js) [] = Some st \<and>
        list_all (item_in s) st) \<and>
     list_all (event_in s) (js_events js) \<and> item_in s (last_string js) \<and> item_in s (last_key js) \<and>
     js_cur js \<le> length s"

lemma replay_append:
  "replay (xs @ ys) st = Option.bind (replay xs st) (replay ys)"
  by (induction xs st rule: replay.induct) (auto split: list.splits)

lemma item_in_simps [simp]: "item_in s None" "item_in s (Some (b, e)) \<longleftrightarrow> b \<le> e \<and> e < length s"
  by (simp_all add: item_in_def)

lemma parse_string_inv:
  assumes "json_inv s st0 js" "js_cur js < length s" "json_parse_string s js = (r, js')"
  shows "json_inv s st0 js'"
proof -
  obtain cur esc where sc: "scan_string s (js_cur js + 1) = (cur, esc)"
    by force
  have b: "js_cur js + 1 \<le> cur" "cur \<le> length s"
    using scan_string_bounds[of "js_cur js + 1" s] assms(2) sc by auto
  moreover have "cur < length s" if "at s cur = jc (CHR 0x22)"
    using at_nonzero[of s cur] that by (simp add: jc_def)
  ultimately show ?thesis
    using assms(1,3) sc
    by (auto simp: json_inv_def json_parse_string_def Let_def emit_def replay_append split: if_splits)
qed

lemma parse_primitive_inv:
  assumes "json_inv s st0 js" "json_parse_primitive s js = (r, js')"
  shows "json_inv s st0 js'"
proof -
  have b: "js_cur js \<le> scan_primitive s (js_cur js)" "scan_primitive s (js_cur js) \<le> length s"
    using scan_primitive_bounds[of "js_cur js" s] assms(1) by (auto simp: json_inv_def)
  moreover have "scan_primitive s (js_cur js) < length s" if "at s (scan_primitive s (js_cur js)) \<noteq> 0"
    using at_nonzero that by blast
  ultimately show ?thesis
    using assms
    by (auto simp: json_inv_def json_parse_primitive_def Let_def emit_def replay_append split: if_splits)
qed

lemma block_begin_inv: "json_inv s st0 js \<Longrightarrow> json_inv s st0 (json_block_begin js)"
  by (auto simp: json_inv_def json_block_begin_def emit_def Let_def replay_append)

lemma block_end_inv:
  assumes "json_inv s st0 js" "js_level js \<noteq> 0"
  shows "json_inv s st0 (json_block_end js)"
proof -
  obtain st where st: "js_stack js = st @ st0" "length st = js_level js" "replay (js_events js) [] = Some st"
    "list_all (item_in s) st"
    using assms(1) by (auto simp: json_inv_def)
  then obtain k st' where "st = k # st'"
    using assms(2) by (cases st) auto
  then show ?thesis
    using assms(1) st by (auto simp: json_inv_def json_block_end_def emit_def Let_def replay_append)
qed

lemma json_step_inv:
  assumes "json_inv s st0 js" "json_step s js = (r, js')" "at s (js_cur js) \<noteq> 0"
  shows "json_inv s st0 js'"
proof -
  have l: "js_cur js < length s"
    by (rule at_nonzero[OF assms(3)])
  have adv: "json_inv s st0 (j\<lparr>js_cur := js_cur j + 1\<rparr>)" if "json_inv s st0 j" "js_cur j = js_cur js" for j
    using that l by (simp add: json_inv_def)
  have keys: "json_inv s st0 (js\<lparr>last_key := last_string js\<rparr>)" "json_inv s st0 (js\<lparr>last_key := None\<rparr>)"
    "json_inv s st0 (js\<lparr>js_err := Err_unbalanced\<rparr>)"
    using assms(1) by (auto simp: json_inv_def)
  have cur: "js_cur (json_block_begin js) = js_cur js" "js_cur (json_block_end js) = js_cur js"
    by (simp_all add: json_block_begin_def json_block_end_def emit_def Let_def)
  show ?thesis
    using assms(1,2) adv[OF keys(1)] adv[OF keys(2)] keys(3) adv[OF assms(1)]
      adv[OF block_begin_inv[OF assms(1)] cur(1)] adv[OF block_end_inv[OF assms(1)] cur(2)]
      parse_string_inv[OF assms(1) l] parse_primitive_inv[OF assms(1)]
    by (auto simp: json_step_def Let_def cur split: if_splits)
qed

lemma json_loop_inv:
  assumes "json_inv s st0 js" "json_parse_loop s js = (r, js')"
  shows "json_inv s st0 js' \<and> (r = 0 \<longrightarrow> at s (js_cur js') = 0) \<and> (r = 0 \<or> r = -1)"
  using assms
proof (induction s js rule: json_parse_loop.induct)
  case (1 s js)
  show ?case
  proof (cases "at s (js_cur js) = 0")
    case True
    then show ?thesis
      using 1(2,3) by (auto simp: json_parse_loop.simps[of s js])
  next
    case False
    obtain q js1 where st: "json_step s js = (q, js1)"
      by force
    show ?thesis
      using 1(1)[OF False st[symmetric]] 1(2,3) False st json_step_inv[OF 1(2) st False]
      by (cases "q < 0") (auto simp: json_parse_loop.simps[of s js])
  qed
qed

section \<open>Properties\<close>



lemma unescape_esc_byte:
  "json_unescape_str (esc_byte c @ s) = map_option ((#) c) (json_unescape_str s)"
  by (simp add: esc_byte_def Let_def jc_def unescape_table_def)

lemma unescape_escape:
  "json_unescape_str (concat (map esc_byte s) @ t) = map_option ((@) s) (json_unescape_str t)"
  by (induction s) (simp_all add: unescape_esc_byte option.map_comp comp_def option.map_ident
      del: json_unescape_str.simps)

text \<open>C20. Escaping and unescaping are inverse: the escaped form of every string unescapes to the string,
  never to an incomplete escape, and is at most twice as long.\<close>

theorem json_escape_roundtrip:
  "case json_escape_str s of
     (d, n) \<Rightarrow> json_unescape_str (take n d) = Some s \<and> n \<le> 2 * length s \<and> d = take n d @ [0]"
proof -
  have "length (concat (map esc_byte s)) \<le> 2 * length s"
    by (induction s) (auto simp: esc_byte_def Let_def)
  then show ?thesis
    using unescape_escape[of s "[]"] by (simp add: json_escape_str_def Let_def)
qed

lemma scan_esc_byte:
  assumes "c \<noteq> 0"
  shows "scan_string (p @ esc_byte c @ s) (length p) = scan_string (p @ esc_byte c @ s) (length p + length (esc_byte c))"
proof -
  have n: "at (p @ x # xs) (length p) = x" "at (p @ x # y # xs) (Suc (length p)) = y" for x y xs
    by (simp_all add: at_def nth_append)
  show ?thesis
    using assms by (subst scan_string.simps) (auto simp: esc_byte_def Let_def n jc_def)
qed

lemma scan_escaped:
  assumes "0 \<notin> set s"
  shows "scan_string (p @ concat (map esc_byte s) @ jc (CHR 0x22) # t) (length p) =
    (length p + length (concat (map esc_byte s)), False)"
  using assms
proof (induction s arbitrary: p)
  case Nil
  then show ?case
    by (simp add: scan_string.simps[of _ "length p"] at_def nth_append)
next
  case (Cons c s)
  have "scan_string (p @ esc_byte c @ concat (map esc_byte s) @ jc (CHR 0x22) # t) (length p) =
      scan_string ((p @ esc_byte c) @ concat (map esc_byte s) @ jc (CHR 0x22) # t) (length (p @ esc_byte c))"
    using scan_esc_byte[of c p "concat (map esc_byte s) @ jc (CHR 0x22) # t"] Cons(2) by simp
  then show ?case
    using Cons(1)[of "p @ esc_byte c"] Cons(2) by simp
qed

text \<open>C21. A string written into a text as a quoted, escaped literal is found again by the parser: reading
  the token reports exactly the escaped characters, with the current key, and unescaping
  the reported part gives the string.\<close>

theorem json_string_token:
  assumes "0 \<notin> set v" "js_cur js = length p"
  shows "let e = fst (json_escape_str v); n = snd (json_escape_str v);
             s = p @ [jc (CHR 0x22)] @ take n e @ [jc (CHR 0x22)] @ t;
             b = length p + 1
    in \<exists>js'. json_parse_string s js = (0, js') \<and> js_cur js' = b + n + 1 \<and>
      js_events js' = js_events js @ [Callback_string (last_key js) (b, b + n)] \<and>
      last_string js' = Some (b, b + n) \<and>
      json_unescape_str (take n (drop b s)) = Some v"
proof -
  let ?e = "concat (map esc_byte v)" and ?q = "jc (CHR 0x22)"
  let ?s = "p @ [?q] @ ?e @ [?q] @ t"
  have sc: "scan_string ?s (length p + 1) = (length p + 1 + length ?e, False)"
    using scan_escaped[OF assms(1), of "p @ [?q]" t] by simp
  have at: "at ?s (length p + 1 + length ?e) = ?q"
    by (simp add: at_def nth_append)
  show ?thesis
    using sc at assms(2) unescape_escape[of v "[]"]
    by (simp add: json_escape_str_def json_parse_string_def Let_def emit_def)
qed

theorem json_string_token_witness:
  "\<exists>js'. json_parse_string (map jc [CHR 0x22, CHR ''a'', CHR 0x5C, CHR ''n'', CHR 0x22])
      \<lparr>js_level = 0, js_cur = 0, js_err = Err_none, last_string = None, last_key = None, js_stack = [], js_events = []\<rparr>
      = (0, js') \<and> js_events js' = [Callback_string None (Suc 0, Suc (Suc (Suc (Suc 0))))]"
  using json_string_token[of "[jc (CHR ''a''), 0x0A]" "\<lparr>js_level = 0, js_cur = 0, js_err = Err_none, last_string = None,
      last_key = None, js_stack = [], js_events = []\<rparr>" "[]" "[]"]
  by (auto simp: json_escape_str_def esc_byte_def jc_def Let_def)

end
