(* ===== verification/Vmbuf.thy ===== *)
theory Vmbuf
  imports Memalloc_Props "HOL-Library.Monad_Syntax"
begin

text \<open>
  \<^verbatim>\<open>src/vmbuf.c\<close> and \<^verbatim>\<open>src/_vmbuf.c\<close>: a growing byte buffer whose memory comes from one of four
  providers (anonymous pages, a shared file, fixed shared pages, the chunk pool), reached
  through a table of function pointers.  The table is the record \<open>vmbuf_mem_funcs\<close>, polymorphic
  in the world \<open>'w\<close> its functions act on.  A 16 byte header before the data holds the write
  position and the capacity, so that processes sharing the memory see each other's writes.

  The bytes from \<open>vb_mem\<close> on are the field \<open>vb_data\<close>: a provider's resize keeps them, by the
  contract of \<^verbatim>\<open>mremap\<close> or by the copy in \<^verbatim>\<open>_mem_resize_mp\<close>.  An operation returns \<^term>\<open>None\<close> when
  it touches memory outside its buffer, calls through a null pointer or never ends.
\<close>

section \<open>State\<close>

definition MAP_FAILED :: nat where
  "MAP_FAILED = 2 ^ 64 - 1"

record 'w vmbuf_mem_funcs =
  mem_alloc :: "nat \<Rightarrow> nat \<Rightarrow> int \<Rightarrow> 'w \<Rightarrow> nat \<times> nat \<times> 'w"
  mem_free :: "nat \<Rightarrow> nat \<Rightarrow> int \<Rightarrow> 'w \<Rightarrow> 'w"
  mem_resize :: "nat \<Rightarrow> nat \<Rightarrow> nat \<Rightarrow> nat \<Rightarrow> int \<Rightarrow> bool \<Rightarrow> 'w \<Rightarrow> nat \<times> nat \<times> 'w"

record vmbuf_header =
  vh_wloc :: nat
  vh_capacity :: nat

record 'w vmbuf =
  vb_mem :: nat
  vb_funcs :: "'w vmbuf_mem_funcs option"
  vb_fd :: int
  vb_capacity :: nat
  vb_rloc :: nat
  vb_header :: vmbuf_header
  vb_data :: "nat \<Rightarrow> byte"

type_synonym 'w vst = "'w vmbuf \<times> 'w"

definition HEADER :: nat where
  "HEADER = 16"

definition VMBUF_INITIALIZER :: "'w vmbuf" where
  "VMBUF_INITIALIZER =
     \<lparr>vb_mem = 0, vb_funcs = None, vb_fd = 0, vb_capacity = 0, vb_rloc = 0,
      vb_header = \<lparr>vh_wloc = 0, vh_capacity = 0\<rparr>, vb_data = (\<lambda>_. 0)\<rparr>"

section \<open>The four providers\<close>

text \<open>What the kernel answers to the calls: the address of a new or resized mapping, which may
  be \<open>MAP_FAILED\<close>, and whether the file could be set to a length.\<close>

record vm_kernel =
  vk_mmap :: "nat \<Rightarrow> nat"
  vk_mremap :: "nat \<Rightarrow> nat \<Rightarrow> nat \<Rightarrow> nat"
  vk_ftruncate :: "int \<Rightarrow> nat \<Rightarrow> bool"

definition mem_roundup :: "nat \<Rightarrow> nat" where
  "mem_roundup sz = align_up 4096 sz"

definition mem_alloc_ab :: "vm_kernel \<Rightarrow> nat \<Rightarrow> nat \<Rightarrow> int \<Rightarrow> 'w \<Rightarrow> nat \<times> nat \<times> 'w" where
  "mem_alloc_ab k sz mem fd w =
     (let sz = mem_roundup sz; mem = vk_mmap k sz
      in if mem = MAP_FAILED then (0, mem, w) else (sz, mem, w))"

definition mem_free_ab :: "nat \<Rightarrow> nat \<Rightarrow> int \<Rightarrow> 'w \<Rightarrow> 'w" where
  "mem_free_ab mem sz fd w = w"

definition mem_resize_ab ::
    "vm_kernel \<Rightarrow> nat \<Rightarrow> nat \<Rightarrow> nat \<Rightarrow> nat \<Rightarrow> int \<Rightarrow> bool \<Rightarrow> 'w \<Rightarrow> nat \<times> nat \<times> 'w" where
  "mem_resize_ab k mem old_size new_size new_mem fd sync_only w =
     (let new_size = mem_roundup new_size; new_mem = vk_mremap k mem old_size new_size
      in if new_mem = MAP_FAILED then (0, new_mem, w) else (new_size, new_mem, w))"

definition mem_alloc_sb :: "vm_kernel \<Rightarrow> nat \<Rightarrow> nat \<Rightarrow> int \<Rightarrow> 'w \<Rightarrow> nat \<times> nat \<times> 'w" where
  "mem_alloc_sb k sz mem fd w =
     (let sz = mem_roundup sz
      in if \<not> vk_ftruncate k fd sz then (0, mem, w)
         else (let mem = vk_mmap k sz
               in if mem = MAP_FAILED then (0, mem, w) else (sz, mem, w)))"

definition mem_free_sb :: "nat \<Rightarrow> nat \<Rightarrow> int \<Rightarrow> 'w \<Rightarrow> 'w" where
  "mem_free_sb mem sz fd w = w"

definition mem_resize_sb ::
    "vm_kernel \<Rightarrow> nat \<Rightarrow> nat \<Rightarrow> nat \<Rightarrow> nat \<Rightarrow> int \<Rightarrow> bool \<Rightarrow> 'w \<Rightarrow> nat \<times> nat \<times> 'w" where
  "mem_resize_sb k mem old_size new_size new_mem fd sync_only w =
     (let new_size = mem_roundup new_size
      in if \<not> sync_only \<and> \<not> vk_ftruncate k fd new_size then (0, new_mem, w)
         else (let new_mem = vk_mremap k mem old_size new_size
               in if new_mem = MAP_FAILED then (0, new_mem, w) else (new_size, new_mem, w)))"

definition mem_alloc_sfb :: "vm_kernel \<Rightarrow> nat \<Rightarrow> nat \<Rightarrow> int \<Rightarrow> 'w \<Rightarrow> nat \<times> nat \<times> 'w" where
  "mem_alloc_sfb k sz mem fd w =
     (let sz = mem_roundup sz; mem = vk_mmap k sz
      in if mem = MAP_FAILED then (0, mem, w) else (sz, mem, w))"

definition mem_free_sfb :: "nat \<Rightarrow> nat \<Rightarrow> int \<Rightarrow> 'w \<Rightarrow> 'w" where
  "mem_free_sfb mem sz fd w = w"

definition mem_resize_sfb ::
    "nat \<Rightarrow> nat \<Rightarrow> nat \<Rightarrow> nat \<Rightarrow> int \<Rightarrow> bool \<Rightarrow> 'w \<Rightarrow> nat \<times> nat \<times> 'w" where
  "mem_resize_sfb mem old_size new_size new_mem fd sync_only w = (0, new_mem, w)"

text \<open>The chunk pool's provider acts on the heap; \<open>ma\<close> is the allocator of the current context.
  The old block is given back whether or not a new one was found.\<close>

definition mem_alloc_mp ::
    "mmap_fun \<Rightarrow> memalloc \<Rightarrow> nat \<Rightarrow> nat \<Rightarrow> int \<Rightarrow> heap \<Rightarrow> nat \<times> nat \<times> heap" where
  "mem_alloc_mp mm ma sz mem fd hp =
     (case memalloc_alloc_raw mm ma hp (mem_roundup sz) of
        ((s, a), hp) \<Rightarrow> (s, (case a of Some a \<Rightarrow> a | None \<Rightarrow> mem), hp))"

definition mem_free_mp :: "nat \<Rightarrow> nat \<Rightarrow> int \<Rightarrow> heap \<Rightarrow> heap" where
  "mem_free_mp mem sz fd hp = memalloc_free_raw hp mem"

definition mem_resize_mp ::
    "mmap_fun \<Rightarrow> memalloc \<Rightarrow> nat \<Rightarrow> nat \<Rightarrow> nat \<Rightarrow> nat \<Rightarrow> int \<Rightarrow> bool \<Rightarrow> heap \<Rightarrow> nat \<times> nat \<times> heap" where
  "mem_resize_mp mm ma mem old_size new_size new_mem fd sync_only hp =
     (case memalloc_alloc_raw mm ma hp new_size of
        ((s, a), hp) \<Rightarrow>
          (s, (case a of Some a \<Rightarrow> a | None \<Rightarrow> new_mem), memalloc_free_raw hp mem))"

definition mem_funcs_anon_buf :: "vm_kernel \<Rightarrow> 'w vmbuf_mem_funcs" where
  "mem_funcs_anon_buf k =
     \<lparr>mem_alloc = mem_alloc_ab k, mem_free = mem_free_ab, mem_resize = mem_resize_ab k\<rparr>"

definition mem_funcs_shared_buf :: "vm_kernel \<Rightarrow> 'w vmbuf_mem_funcs" where
  "mem_funcs_shared_buf k =
     \<lparr>mem_alloc = mem_alloc_sb k, mem_free = mem_free_sb, mem_resize = mem_resize_sb k\<rparr>"

definition mem_funcs_shared_fixed_buf :: "vm_kernel \<Rightarrow> 'w vmbuf_mem_funcs" where
  "mem_funcs_shared_fixed_buf k =
     \<lparr>mem_alloc = mem_alloc_sfb k, mem_free = mem_free_sfb, mem_resize = mem_resize_sfb\<rparr>"

definition mem_funcs_mem_pool :: "mmap_fun \<Rightarrow> memalloc \<Rightarrow> heap vmbuf_mem_funcs" where
  "mem_funcs_mem_pool mm ma =
     \<lparr>mem_alloc = mem_alloc_mp mm ma, mem_free = mem_free_mp, mem_resize = mem_resize_mp mm ma\<rparr>"

section \<open>Access to the memory\<close>

definition vb_live :: "'w vmbuf \<Rightarrow> bool" where
  "vb_live v \<longleftrightarrow> vb_mem v \<noteq> 0 \<and> vb_mem v \<noteq> MAP_FAILED"

definition vmbuf_get_header :: "'w vmbuf \<Rightarrow> vmbuf_header option" where
  "vmbuf_get_header v = (if vb_live v then Some (vb_header v) else None)"

definition set_wloc :: "nat \<Rightarrow> 'w vmbuf \<Rightarrow> 'w vmbuf option" where
  "set_wloc n v = (if vb_live v then Some (v\<lparr>vb_header := (vb_header v)\<lparr>vh_wloc := n\<rparr>\<rparr>) else None)"

text \<open>Writing bytes at an offset of the buffer, by \<^verbatim>\<open>memcpy\<close>, \<^verbatim>\<open>memset\<close> or an assignment.\<close>

definition vb_store :: "nat \<Rightarrow> byte list \<Rightarrow> 'w vmbuf \<Rightarrow> 'w vmbuf option" where
  "vb_store ofs xs v =
     (if vb_live v \<and> ofs + length xs \<le> vb_capacity v
      then Some (v\<lparr>vb_data := mem_copy (vb_data v) ofs xs\<rparr>) else None)"

definition vb_load :: "nat \<Rightarrow> 'w vmbuf \<Rightarrow> byte option" where
  "vb_load ofs v = (if vb_live v \<and> ofs < vb_capacity v then Some (vb_data v ofs) else None)"

section \<open>Positions\<close>

definition vmbuf_wlocpos :: "'w vmbuf \<Rightarrow> nat option" where
  "vmbuf_wlocpos v = do { h \<leftarrow> vmbuf_get_header v; Some (vh_wloc h) }"

definition vmbuf_rlocpos :: "'w vmbuf \<Rightarrow> nat" where
  "vmbuf_rlocpos v = vb_rloc v"

definition vmbuf_wreset :: "'w vmbuf \<Rightarrow> 'w vmbuf option" where
  "vmbuf_wreset v = set_wloc 0 v"

definition vmbuf_rreset :: "'w vmbuf \<Rightarrow> 'w vmbuf" where
  "vmbuf_rreset v = v\<lparr>vb_rloc := 0\<rparr>"

definition vmbuf_reset :: "'w vmbuf \<Rightarrow> 'w vmbuf option" where
  "vmbuf_reset v = set_wloc 0 (v\<lparr>vb_rloc := 0\<rparr>)"

definition vmbuf_resetz :: "'w vmbuf \<Rightarrow> 'w vmbuf option" where
  "vmbuf_resetz v = do { v \<leftarrow> vmbuf_reset v; vb_store 0 [0] v }"

definition vmbuf_mem :: "'w vmbuf \<Rightarrow> nat" where
  "vmbuf_mem v = vb_mem v"

definition vmbuf_mem2 :: "'w vmbuf \<Rightarrow> nat \<Rightarrow> nat" where
  "vmbuf_mem2 v ofs = add64 (vb_mem v) ofs"

definition vmbuf_wavail :: "'w vmbuf \<Rightarrow> nat option" where
  "vmbuf_wavail v = do { h \<leftarrow> vmbuf_get_header v; Some (sub64 (vb_capacity v) (vh_wloc h)) }"

definition vmbuf_ravail :: "'w vmbuf \<Rightarrow> nat option" where
  "vmbuf_ravail v = do { h \<leftarrow> vmbuf_get_header v; Some (sub64 (vh_wloc h) (vb_rloc v)) }"

definition vmbuf_wloc2 :: "'w vmbuf \<Rightarrow> nat option" where
  "vmbuf_wloc2 v = do { h \<leftarrow> vmbuf_get_header v; Some (add64 (vb_mem v) (vh_wloc h)) }"

definition vmbuf_rloc2 :: "'w vmbuf \<Rightarrow> nat" where
  "vmbuf_rloc2 v = add64 (vb_mem v) (vb_rloc v)"

definition vmbuf_size :: "'w vmbuf \<Rightarrow> nat option" where
  "vmbuf_size v = vmbuf_wlocpos v"

text \<open>A division by zero traps.\<close>

definition vmbuf_num_elements :: "'w vmbuf \<Rightarrow> nat \<Rightarrow> nat option" where
  "vmbuf_num_elements v size_of_element =
     do { n \<leftarrow> vmbuf_size v; if size_of_element = 0 then None else Some (n div size_of_element) }"

definition vmbuf_wseek_no_resize :: "nat \<Rightarrow> 'w vmbuf \<Rightarrow> 'w vmbuf option" where
  "vmbuf_wseek_no_resize amt v = do { h \<leftarrow> vmbuf_get_header v; set_wloc (add64 (vh_wloc h) amt) v }"

definition vmbuf_rseek :: "nat \<Rightarrow> 'w vmbuf \<Rightarrow> 'w vmbuf" where
  "vmbuf_rseek amt v = v\<lparr>vb_rloc := add64 (vb_rloc v) amt\<rparr>"

definition vmbuf_wlocset :: "nat \<Rightarrow> 'w vmbuf \<Rightarrow> 'w vmbuf option" where
  "vmbuf_wlocset ofs v = set_wloc ofs v"

definition vmbuf_rlocset :: "nat \<Rightarrow> 'w vmbuf \<Rightarrow> 'w vmbuf" where
  "vmbuf_rlocset ofs v = v\<lparr>vb_rloc := ofs\<rparr>"

definition vmbuf_wrewind :: "nat \<Rightarrow> 'w vmbuf \<Rightarrow> 'w vmbuf option" where
  "vmbuf_wrewind amt v = do { h \<leftarrow> vmbuf_get_header v; set_wloc (sub64 (vh_wloc h) amt) v }"

definition vmbuf_rrewind :: "nat \<Rightarrow> 'w vmbuf \<Rightarrow> 'w vmbuf" where
  "vmbuf_rrewind amt v = v\<lparr>vb_rloc := sub64 (vb_rloc v) amt\<rparr>"

definition vmbuf_swap :: "'w vmbuf \<times> 'w vmbuf \<Rightarrow> 'w vmbuf \<times> 'w vmbuf" where
  "vmbuf_swap = (\<lambda>(vmbuf1, vmbuf2). let tmpbuf = vmbuf1; vmbuf1 = vmbuf2; vmbuf2 = tmpbuf in (vmbuf1, vmbuf2))"

definition vmbuf_nul :: "'w vmbuf \<Rightarrow> 'w vmbuf option" where
  "vmbuf_nul v = do { p \<leftarrow> vmbuf_wlocpos v; vb_store p [0] v }"

section \<open>Creating, resizing and freeing\<close>

definition vmbuf_init_mem :: "nat \<Rightarrow> 'w vst \<Rightarrow> (int \<times> 'w vst) option" where
  "vmbuf_init_mem initial_size = (\<lambda>(v, w). do {
     f \<leftarrow> vb_funcs v;
     case mem_alloc f (add64 initial_size HEADER) (vb_mem v) (vb_fd v) w of
       (sz, a, w) \<Rightarrow>
         if sz = 0 then Some (-1, (v\<lparr>vb_mem := a\<rparr>, w))
         else Some (0, (v\<lparr>vb_mem := add64 a HEADER, vb_capacity := sub64 sz HEADER, vb_rloc := 0,
                          vb_header := \<lparr>vh_wloc = 0, vh_capacity = sub64 sz HEADER\<rparr>\<rparr>, w)) })"

definition vmbuf_init :: "vm_kernel \<Rightarrow> nat \<Rightarrow> 'w vst \<Rightarrow> (int \<times> 'w vst) option" where
  "vmbuf_init k initial_size = (\<lambda>(v, w).
     if vb_mem v \<noteq> 0 then do { v \<leftarrow> vmbuf_reset v; Some (0, (v, w)) }
     else vmbuf_init_mem initial_size (v\<lparr>vb_funcs := Some (mem_funcs_anon_buf k)\<rparr>, w))"

definition vmbuf_free :: "'w vst \<Rightarrow> (int \<times> 'w vst) option" where
  "vmbuf_free = (\<lambda>(v, w).
     if vb_mem v = 0 then Some (0, (v, w))
     else do {
       f \<leftarrow> vb_funcs v;
       let w = mem_free f (sub64 (vb_mem v) HEADER) (add64 (vb_capacity v) HEADER) (vb_fd v) w;
       Some (0, (v\<lparr>vb_mem := 0\<rparr>, w)) })"

definition vmbuf_init_tmp :: "mmap_fun \<Rightarrow> memalloc \<Rightarrow> nat \<Rightarrow> heap vst \<Rightarrow> (int \<times> heap vst) option" where
  "vmbuf_init_tmp mm ma initial_size s = do {
     (_, (v, w)) \<leftarrow> vmbuf_free s;
     vmbuf_init_mem initial_size (v\<lparr>vb_funcs := Some (mem_funcs_mem_pool mm ma)\<rparr>, w) }"

text \<open>\<open>fd\<close> is what \<^verbatim>\<open>ribs_create_temp_file\<close> returned.\<close>

definition vmbuf_init_shared :: "vm_kernel \<Rightarrow> int \<Rightarrow> nat \<Rightarrow> 'w vst \<Rightarrow> (int \<times> 'w vst) option" where
  "vmbuf_init_shared k fd initial_size s = do {
     (_, (v, w)) \<leftarrow> vmbuf_free s;
     let v = v\<lparr>vb_funcs := Some (mem_funcs_shared_buf k), vb_fd := fd\<rparr>;
     if fd < 0 then Some (-1, (v, w)) else vmbuf_init_mem initial_size (v, w) }"

definition vmbuf_init_shared_fixed :: "vm_kernel \<Rightarrow> nat \<Rightarrow> 'w vst \<Rightarrow> (int \<times> 'w vst) option" where
  "vmbuf_init_shared_fixed k max_size s = do {
     (_, (v, w)) \<leftarrow> vmbuf_free s;
     vmbuf_init_mem max_size (v\<lparr>vb_funcs := Some (mem_funcs_shared_fixed_buf k)\<rparr>, w) }"

definition vmbuf_change_capacity :: "nat \<Rightarrow> 'w vst \<Rightarrow> (int \<times> 'w vst) option" where
  "vmbuf_change_capacity new_capacity = (\<lambda>(v, w). do {
     f \<leftarrow> vb_funcs v;
     case mem_resize f (sub64 (vb_mem v) HEADER) (add64 (vb_capacity v) HEADER) new_capacity
            (vb_mem v) (vb_fd v) False w of
       (sz, a, w) \<Rightarrow>
         if sz = 0 then Some (-1, (v\<lparr>vb_mem := a\<rparr>, w))
         else Some (0, (v\<lparr>vb_mem := add64 a HEADER, vb_capacity := sub64 sz HEADER,
                          vb_header := (vb_header v)\<lparr>vh_capacity := sub64 sz HEADER\<rparr>\<rparr>, w)) })"

definition vmbuf_add_capacity :: "'w vst \<Rightarrow> (int \<times> 'w vst) option" where
  "vmbuf_add_capacity = (\<lambda>(v, w).
     vmbuf_change_capacity (add64 (shl64 (vb_capacity v) 1) HEADER) (v, w))"

definition vmbuf_resize_to :: "nat \<Rightarrow> 'w vst \<Rightarrow> (int \<times> 'w vst) option" where
  "vmbuf_resize_to sz = vmbuf_change_capacity (add64 sz HEADER)"

definition vmbuf_sync :: "'w vst \<Rightarrow> (int \<times> 'w vst) option" where
  "vmbuf_sync = (\<lambda>(v, w). do {
     h \<leftarrow> vmbuf_get_header v;
     if vb_capacity v \<noteq> vh_capacity h then do {
       f \<leftarrow> vb_funcs v;
       case mem_resize f (sub64 (vb_mem v) HEADER) (add64 (vb_capacity v) HEADER)
              (add64 (vh_capacity h) HEADER) (vb_mem v) (vb_fd v) True w of
         (sz, a, w) \<Rightarrow>
           if sz = 0 then Some (-1, (v\<lparr>vb_mem := a\<rparr>, w))
           else do {
             let v = v\<lparr>vb_mem := add64 a HEADER\<rparr>;
             h \<leftarrow> vmbuf_get_header v;
             Some (0, (v\<lparr>vb_capacity := vh_capacity h\<rparr>, w)) } }
     else Some (0, (v, w)) })"

definition vmbuf_resize_if_full :: "'w vst \<Rightarrow> (int \<times> 'w vst) option" where
  "vmbuf_resize_if_full = (\<lambda>(v, w). do {
     h \<leftarrow> vmbuf_get_header v;
     if vh_wloc h = vb_capacity v then vmbuf_add_capacity (v, w) else Some (0, (v, w)) })"

partial_function (option) vmbuf_resize_if_less :: "nat \<Rightarrow> 'w vst \<Rightarrow> (int \<times> 'w vst) option" where
  "vmbuf_resize_if_less desired_size s = do {
     wavail \<leftarrow> vmbuf_wavail (fst s);
     if wavail < desired_size then do {
       rs \<leftarrow> vmbuf_add_capacity s;
       if fst rs < 0 then Some (-1, snd rs) else vmbuf_resize_if_less desired_size (snd rs) }
     else Some (0, s) }"

definition vmbuf_resize_by :: "nat \<Rightarrow> 'w vst \<Rightarrow> (int \<times> 'w vst) option" where
  "vmbuf_resize_by amt = (\<lambda>(v, w). vmbuf_resize_to (add64 (vb_capacity v) amt) (v, w))"

definition vmbuf_wseek :: "nat \<Rightarrow> 'w vst \<Rightarrow> (int \<times> 'w vst) option" where
  "vmbuf_wseek amt = (\<lambda>(v, w). do { v \<leftarrow> vmbuf_wseek_no_resize amt v; vmbuf_resize_if_full (v, w) })"

section \<open>Writing\<close>

text \<open>\<open>text\<close> is the text the format produces, \<^term>\<open>None\<close> when \<^verbatim>\<open>vsnprintf\<close> reports an error.  Its
  output is cut to the room there is, with the final zero, and its result is the whole length.\<close>

partial_function (option) vmbuf_vsprintf :: "byte list option \<Rightarrow> 'w vst \<Rightarrow> (int \<times> 'w vst) option" where
  "vmbuf_vsprintf txt s = do {
     wav \<leftarrow> vmbuf_wavail (fst s);
     case txt of
       None \<Rightarrow> Some (-1, s)
     | Some t \<Rightarrow> do {
         p \<leftarrow> vmbuf_wlocpos (fst s);
         v \<leftarrow> (if wav = 0 then Some (fst s) else vb_store p (take (wav - 1) t @ [0]) (fst s));
         if length t < wav then do {
           rs \<leftarrow> vmbuf_wseek (length t) (v, snd s);
           Some (0, snd rs) }
         else do {
           rs \<leftarrow> vmbuf_add_capacity (v, snd s);
           if fst rs < 0 then Some (-1, snd rs) else vmbuf_vsprintf txt (snd rs) } } }"

definition vmbuf_sprintf :: "byte list option \<Rightarrow> 'w vst \<Rightarrow> (int \<times> 'w vst) option" where
  "vmbuf_sprintf txt s = vmbuf_vsprintf txt s"

text \<open>\<^verbatim>\<open>strftime\<close> answers 0 both when the text does not fit and when it is empty.\<close>

partial_function (option) vmbuf_strftime :: "byte list \<Rightarrow> 'w vst \<Rightarrow> (int \<times> 'w vst) option" where
  "vmbuf_strftime t s = do {
     wav \<leftarrow> vmbuf_wavail (fst s);
     let n = (if length t < wav then length t else 0);
     if 0 < n then do {
       p \<leftarrow> vmbuf_wlocpos (fst s);
       v \<leftarrow> vb_store p (t @ [0]) (fst s);
       rs \<leftarrow> vmbuf_wseek n (v, snd s);
       Some (0, snd rs) }
     else do {
       rs \<leftarrow> vmbuf_resize_by 4096 s;
       if fst rs < 0 then Some (-1, snd rs) else vmbuf_strftime t (snd rs) } }"

text \<open>\<open>src\<close> is the string without its terminator.\<close>

partial_function (option) vmbuf_strcpy :: "byte list \<Rightarrow> 'w vst \<Rightarrow> (int \<times> 'w vst) option" where
  "vmbuf_strcpy src s = do {
     w \<leftarrow> vmbuf_wlocpos (fst s);
     wav \<leftarrow> vmbuf_wavail (fst s);
     v \<leftarrow> vb_store w (take wav src) (fst s);
     rs \<leftarrow> vmbuf_wseek (length (take wav src)) (v, snd s);
     if fst rs < 0 then Some (-1, snd rs)
     else if drop wav src \<noteq> [] then vmbuf_strcpy (drop wav src) (snd rs)
     else do {
       p \<leftarrow> vmbuf_wlocpos (fst (snd rs));
       v \<leftarrow> vb_store p [0] (fst (snd rs));
       Some (0, (v, snd (snd rs))) } }"

definition vmbuf_replace_last_if :: "byte \<Rightarrow> byte \<Rightarrow> 'w vmbuf \<Rightarrow> (int \<times> 'w vmbuf) option" where
  "vmbuf_replace_last_if c d v = do {
     p \<leftarrow> vmbuf_wlocpos v;
     if 0 < p then do {
       x \<leftarrow> vb_load (p - 1) v;
       if c = x then do { v \<leftarrow> vb_store (p - 1) [d] v; Some (0, v) } else Some (-1, v) }
     else Some (-1, v) }"

definition vmbuf_remove_last_if :: "byte \<Rightarrow> 'w vmbuf \<Rightarrow> 'w vmbuf option" where
  "vmbuf_remove_last_if c v = do {
     (r, v) \<leftarrow> vmbuf_replace_last_if c 0 v;
     if r = 0 then do { p \<leftarrow> vmbuf_wlocpos v; set_wloc (sub64 p 1) v } else Some v }"

definition vmbuf_chrcpy :: "byte \<Rightarrow> 'w vst \<Rightarrow> (int \<times> 'w vst) option" where
  "vmbuf_chrcpy c = (\<lambda>(v, w). do {
     p \<leftarrow> vmbuf_wlocpos v;
     v \<leftarrow> vb_store p [c] v;
     vmbuf_wseek 1 (v, w) })"

definition vmbuf_memcpy :: "byte list \<Rightarrow> 'w vst \<Rightarrow> (int \<times> 'w vst) option" where
  "vmbuf_memcpy src s = do {
     (_, (v, w)) \<leftarrow> vmbuf_resize_if_less (length src) s;
     p \<leftarrow> vmbuf_wlocpos v;
     v \<leftarrow> vb_store p src v;
     vmbuf_wseek (length src) (v, w) }"

definition vmbuf_memset :: "byte \<Rightarrow> nat \<Rightarrow> 'w vst \<Rightarrow> 'w vst option" where
  "vmbuf_memset c n = (\<lambda>(v, w). do {
     (_, (v, w)) \<leftarrow> (if vb_capacity v < n then vmbuf_resize_if_less n (v, w) else Some (0, (v, w)));
     v \<leftarrow> vb_store 0 (replicate n c) v;
     Some (v, w) })"

definition vmbuf_alloc :: "nat \<Rightarrow> 'w vst \<Rightarrow> (nat \<times> 'w vst) option" where
  "vmbuf_alloc n s = do {
     loc \<leftarrow> vmbuf_wlocpos (fst s);
     (r, s) \<leftarrow> vmbuf_resize_if_less n s;
     if r < 0 then Some (2 ^ 64 - 1, s)
     else do {
       (r, s) \<leftarrow> vmbuf_wseek n s;
       if r < 0 then Some (2 ^ 64 - 1, s) else Some (loc, s) } }"

definition vmbuf_alloczero :: "nat \<Rightarrow> 'w vst \<Rightarrow> (nat \<times> 'w vst) option" where
  "vmbuf_alloczero n s = do {
     (loc, (v, w)) \<leftarrow> vmbuf_alloc n s;
     v \<leftarrow> vb_store loc (replicate n 0) v;
     Some (loc, (v, w)) }"

definition vmbuf_alloc_aligned :: "nat \<Rightarrow> 'w vst \<Rightarrow> (nat \<times> 'w vst) option" where
  "vmbuf_alloc_aligned n = (\<lambda>(v, w). do {
     p \<leftarrow> vmbuf_wlocpos v;
     v \<leftarrow> set_wloc (align_up 8 p) v;
     vmbuf_alloc n (v, w) })"

definition vmbuf_allocptr :: "nat \<Rightarrow> 'w vst \<Rightarrow> (nat \<times> 'w vst) option" where
  "vmbuf_allocptr n s = do {
     (loc, (v, w)) \<leftarrow> vmbuf_alloc_aligned n s;
     Some (vmbuf_mem2 v loc, (v, w)) }"

section \<open>Reading from and writing to a descriptor\<close>

text \<open>What the peer makes available: segments of bytes, of which a call takes at most what fits,
  leaving the rest, or the end of the stream or an error.  With nothing left a call would
  block, \<^verbatim>\<open>EAGAIN\<close>.\<close>

datatype rd_item = Rd_data "byte list" | Rd_again | Rd_error

fun sys_read :: "nat \<Rightarrow> rd_item list \<Rightarrow> (int \<times> byte list) \<times> rd_item list" where
  "sys_read n [] = ((-1, []), [])"
| "sys_read n (Rd_data xs # inp) =
     ((int (length (take n xs)), take n xs),
      if length xs \<le> n then inp else Rd_data (drop n xs) # inp)"
| "sys_read n (Rd_again # inp) = ((-1, []), inp)"
| "sys_read n (Rd_error # inp) = ((-2, []), inp)"

text \<open>The result is -1 for \<^verbatim>\<open>EAGAIN\<close> and -2 for another error; an empty segment is the closed peer.\<close>

partial_function (option) vmbuf_read ::
    "rd_item list \<Rightarrow> 'w vst \<Rightarrow> (int \<times> rd_item list \<times> 'w vst) option" where
  "vmbuf_read inp s = do {
     p \<leftarrow> vmbuf_wlocpos (fst s);
     wavail \<leftarrow> vmbuf_wavail (fst s);
     case sys_read wavail inp of
       ((res, xs), inp) \<Rightarrow> do {
         v \<leftarrow> vb_store p xs (fst s);
         if 0 < res then do {
           rs \<leftarrow> vmbuf_wseek (length xs) (v, snd s);
           if fst rs < 0 then Some (-1, inp, snd rs)
           else if length xs < wavail then Some (1, inp, snd rs)
           else vmbuf_read inp (snd rs) }
         else if res < 0 then Some (if res = -1 then 1 else -1, inp, (v, snd s))
         else Some (0, inp, (v, snd s)) } }"

text \<open>What the descriptor accepts: how many bytes a call takes, at most those offered, or an
  error.\<close>

datatype wr_item = Wr nat | Wr_again | Wr_error

fun sys_write :: "nat \<Rightarrow> wr_item list \<Rightarrow> int \<times> wr_item list" where
  "sys_write n [] = (-1, [])"
| "sys_write n (Wr m # out) = (int (min m n), out)"
| "sys_write n (Wr_again # out) = (-1, out)"
| "sys_write n (Wr_error # out) = (-2, out)"

text \<open>Besides the result, the bytes sent.\<close>

partial_function (option) vmbuf_write ::
    "wr_item list \<Rightarrow> byte list \<Rightarrow> 'w vmbuf \<Rightarrow> (int \<times> byte list \<times> wr_item list \<times> 'w vmbuf) option" where
  "vmbuf_write out sent v = do {
     rav \<leftarrow> vmbuf_ravail v;
     if 0 < rav then
       (case sys_write rav out of
          (res, out) \<Rightarrow>
            if res < 0 then Some (if res = -1 then 0 else -1, sent, out, v)
            else if 0 < res then
              vmbuf_write out (sent @ mem_read (vb_data v) (vb_rloc v) (nat res)) (vmbuf_rseek (nat res) v)
            else Some (-1, sent, out, v))
     else Some (1, sent, out, v) }"

section \<open>The contract of a provider\<close>

text \<open>\<open>own m n w\<close>: the provider has given out the \<open>n\<close> bytes at \<open>m\<close>.  A successful resize hands over
  at least what was asked for and not much more than twice that.  The operations are proved
  once against this contract.\<close>

definition vb_same :: "'w vmbuf \<Rightarrow> 'w vmbuf \<Rightarrow> bool" where
  "vb_same v v' \<longleftrightarrow> vh_wloc (vb_header v') = vh_wloc (vb_header v) \<and> vb_rloc v' = vb_rloc v \<and>
     vb_data v' = vb_data v \<and> vb_fd v' = vb_fd v"

definition contents :: "'w vmbuf \<Rightarrow> byte list" where
  "contents v = mem_read (vb_data v) 0 (vh_wloc (vb_header v))"

text \<open>A buffer whose header is in step with it and whose write position is below its capacity;
  \<open>vb_room\<close> allows the position to have just reached it.\<close>

definition vb_room :: "(nat \<Rightarrow> nat \<Rightarrow> 'w \<Rightarrow> bool) \<Rightarrow> 'w vmbuf_mem_funcs \<Rightarrow> 'w vst \<Rightarrow> bool" where
  "vb_room own f s \<longleftrightarrow> (case s of (v, w) \<Rightarrow>
     vb_funcs v = Some f \<and> HEADER < vb_mem v \<and> own (vb_mem v - HEADER) (vb_capacity v + HEADER) w \<and>
     vh_capacity (vb_header v) = vb_capacity v \<and> vh_wloc (vb_header v) \<le> vb_capacity v \<and>
     0 < vb_capacity v \<and> vb_capacity v < 2 ^ 59)"

definition vb_ok :: "(nat \<Rightarrow> nat \<Rightarrow> 'w \<Rightarrow> bool) \<Rightarrow> 'w vmbuf_mem_funcs \<Rightarrow> 'w vst \<Rightarrow> bool" where
  "vb_ok own f s \<longleftrightarrow> vb_room own f s \<and> vh_wloc (vb_header (fst s)) < vb_capacity (fst s)"

text \<open>The provider turns down some request.\<close>

definition refuses :: "'w vmbuf_mem_funcs \<Rightarrow> bool" where
  "refuses f \<longleftrightarrow> (\<exists>m old new nm fd sync w. 0 < new \<and> new < 2 ^ 61 \<and> fst (mem_resize f m old new nm fd sync w) = 0)"

text \<open>The outcome of an operation that appends \<open>xs\<close>: done, or the failure its caller sees.\<close>

definition vb_wrote ::
    "(nat \<Rightarrow> nat \<Rightarrow> 'w \<Rightarrow> bool) \<Rightarrow> 'w vmbuf_mem_funcs \<Rightarrow> byte list \<Rightarrow> 'w vst \<Rightarrow> (int \<times> 'w vst) option \<Rightarrow> bool" where
  "vb_wrote own f xs s res \<longleftrightarrow>
     refuses f \<and> (\<exists>s'. res = Some (-1, s')) \<or>
     (\<exists>s'. res = Some (0, s') \<and> vb_ok own f s' \<and> contents (fst s') = contents (fst s) @ xs \<and>
        vb_rloc (fst s') = vb_rloc (fst s) \<and> vb_fd (fst s') = vb_fd (fst s))"

lemma vb_wrote_after:
  assumes "vb_wrote own f ys s' res" "contents (fst s') = contents (fst s) @ xs"
    and "vb_rloc (fst s') = vb_rloc (fst s)" "vb_fd (fst s') = vb_fd (fst s)"
  shows "vb_wrote own f (xs @ ys) s res"
  using assms unfolding vb_wrote_def by (elim disjE exE conjE) simp_all

lemma vb_wrote_same:
  assumes "vb_wrote own f xs (v', w') res" "vb_same v v'"
  shows "vb_wrote own f xs (v, w) res"
  using vb_wrote_after[OF assms(1), of "(v, w)" "[]"] assms(2) by (simp add: vb_same_def contents_def)

locale vmbuf_memory =
  fixes own :: "nat \<Rightarrow> nat \<Rightarrow> 'w \<Rightarrow> bool"
    and f :: "'w vmbuf_mem_funcs"
  assumes own_range: "own m n w \<Longrightarrow> 0 < m \<and> m + n < 2 ^ 64"
    and resize_own: "own m old w \<Longrightarrow> HEADER < new \<Longrightarrow> new < 2 ^ 61 \<Longrightarrow>
      mem_resize f m old new nm fd sync w = (n, a, w') \<Longrightarrow> n \<noteq> 0 \<Longrightarrow>
      own a n w' \<and> new \<le> n \<and> n \<le> 2 * new + 4096"
begin

lemma room_live: "vb_room own f (v, w) \<Longrightarrow> vb_live v"
  using own_range[of "vb_mem v - HEADER" "vb_capacity v + HEADER" w]
  by (auto simp: vb_room_def vb_live_def MAP_FAILED_def HEADER_def)

lemma room_wloc: "vb_room own f (v, w) \<Longrightarrow> vh_wloc (vb_header v) \<le> vb_capacity v"
  by (simp add: vb_room_def)

lemma room_wlocpos: "vb_room own f (v, w) \<Longrightarrow> vmbuf_wlocpos v = Some (vh_wloc (vb_header v))"
  by (simp add: vmbuf_wlocpos_def vmbuf_get_header_def room_live)

lemma room_wavail:
  "vb_room own f (v, w) \<Longrightarrow> vmbuf_wavail v = Some (vb_capacity v - vh_wloc (vb_header v))"
  by (simp add: vmbuf_wavail_def vmbuf_get_header_def room_live sub64_small) (simp add: vb_room_def sub64_small)

lemma room_store:
  assumes "vb_room own f (v, w)" "p + length xs \<le> vb_capacity v"
  shows "vb_store p xs v = Some (v\<lparr>vb_data := mem_copy (vb_data v) p xs\<rparr>)"
    and "vb_room own f (v\<lparr>vb_data := mem_copy (vb_data v) p xs\<rparr>, w)"
  using assms room_live[OF assms(1)] by (simp_all add: vb_store_def vb_room_def)

lemma change_capacity:
  assumes "vb_room own f (v, w)" "vh_wloc (vb_header v) < c" "c < 2 ^ 60"
  obtains (failed) s' where "vmbuf_change_capacity (c + HEADER) (v, w) = Some (-1, s')" "refuses f"
  | (resized) v' w' where "vmbuf_change_capacity (c + HEADER) (v, w) = Some (0, (v', w'))"
      "vb_same v v'" "c \<le> vb_capacity v'" "vb_capacity v' \<le> 2 * c + 4128"
      "vb_capacity v' < 2 ^ 59 \<Longrightarrow> vb_ok own f (v', w')"
proof -
  obtain n a w' where r: "mem_resize f (sub64 (vb_mem v) HEADER) (add64 (vb_capacity v) HEADER)
      (c + HEADER) (vb_mem v) (vb_fd v) False w = (n, a, w')"
    using prod_cases3 by blast
  note ok = assms(1)[unfolded vb_room_def split_conv]
  have own: "own (vb_mem v - HEADER) (vb_capacity v + HEADER) w" "HEADER < vb_mem v"
    using ok by simp_all
  have rng: "vb_mem v - HEADER + (vb_capacity v + HEADER) < 2 ^ 64"
    using own_range[OF own(1)] by blast
  then have adr: "sub64 (vb_mem v) HEADER = vb_mem v - HEADER"
      "add64 (vb_capacity v) HEADER = vb_capacity v + HEADER"
    using own(2) ok by (simp_all add: sub64_small add64_small HEADER_def)
  show thesis
  proof (cases "n = 0")
    case True
    then have "0 < c + HEADER \<and> c + HEADER < 2 ^ 61 \<and> fst (mem_resize f (sub64 (vb_mem v) HEADER)
        (add64 (vb_capacity v) HEADER) (c + HEADER) (vb_mem v) (vb_fd v) False w) = 0"
      using r assms(3) by (simp add: HEADER_def)
    then have "refuses f"
      unfolding refuses_def by blast
    then show thesis
      using r ok True by (intro failed) (simp_all add: vmbuf_change_capacity_def)
  next
    case False
    have res: "own a n w'" "c + HEADER \<le> n" "n \<le> 2 * (c + HEADER) + 4096"
      using resize_own[OF own(1) _ _ r[unfolded adr] False] assms(2,3) by (simp_all add: HEADER_def)
    have a: "0 < a" "a + n < 2 ^ 64"
      using own_range[OF res(1)] by simp_all
    define v' where "v' = v\<lparr>vb_mem := a + HEADER, vb_capacity := n - HEADER,
       vb_header := (vb_header v)\<lparr>vh_capacity := n - HEADER\<rparr>\<rparr>"
    have "vmbuf_change_capacity (c + HEADER) (v, w) = Some (0, (v', w'))"
      using r ok False a res(2)
      by (simp add: vmbuf_change_capacity_def v'_def add64_small sub64_small HEADER_def)
    moreover have "vb_same v v'" "c \<le> vb_capacity v'" "vb_capacity v' \<le> 2 * c + 4128"
      using res(2,3) by (simp_all add: vb_same_def v'_def HEADER_def)
    moreover have "vb_ok own f (v', w')" if "vb_capacity v' < 2 ^ 59"
      using that res ok a(1) assms(2) by (elim conjE) (auto simp: vb_ok_def vb_room_def v'_def HEADER_def)
    ultimately show thesis
      by (rule resized)
  qed
qed

lemma add_capacity:
  assumes "vb_room own f (v, w)" "vb_capacity v < 2 ^ 56"
  obtains (failed) s' where "vmbuf_add_capacity (v, w) = Some (-1, s')" "refuses f"
  | (resized) v' w' where "vmbuf_add_capacity (v, w) = Some (0, (v', w'))"
      "vb_same v v'" "2 * vb_capacity v \<le> vb_capacity v'" "vb_ok own f (v', w')"
proof -
  have "vmbuf_add_capacity (v, w) = vmbuf_change_capacity (2 * vb_capacity v + HEADER) (v, w)"
    using assms(2) by (simp add: vmbuf_add_capacity_def add64_small shl64_small HEADER_def mult.commute)
  moreover have "vh_wloc (vb_header v) < 2 * vb_capacity v"
    using assms by (simp add: vb_room_def)
  ultimately show thesis
    using change_capacity[OF assms(1), of "2 * vb_capacity v"] failed resized assms(2) by fastforce
qed

lemma resize_if_less:
  assumes "vb_room own f (v, w)" "vh_wloc (vb_header v) + n < 2 ^ 56"
  shows "refuses f \<and> (\<exists>s'. vmbuf_resize_if_less n (v, w) = Some (-1, s')) \<or>
    (\<exists>v' w'. vmbuf_resize_if_less n (v, w) = Some (0, (v', w')) \<and> vb_same v v' \<and>
       vb_room own f (v', w') \<and> vh_wloc (vb_header v) + n \<le> vb_capacity v')"
  using assms
proof (induction "2 ^ 56 - vb_capacity v" arbitrary: v w rule: less_induct)
  case less
  show ?case
  proof (cases "vb_capacity v - vh_wloc (vb_header v) < n")
    case False
    then show ?thesis
      using less.prems room_wloc[OF less.prems(1)]
      by (subst (1 2) vmbuf_resize_if_less.simps) (auto simp: room_wavail[OF less.prems(1)] vb_same_def)
  next
    case True
    then have cap: "vb_capacity v < 2 ^ 56" "0 < vb_capacity v"
      using less.prems by (auto simp: vb_room_def)
    have step: "vmbuf_resize_if_less n (v, w) = do {
        rs \<leftarrow> vmbuf_add_capacity (v, w);
        if fst rs < 0 then Some (-1, snd rs) else vmbuf_resize_if_less n (snd rs) }"
      using True by (subst vmbuf_resize_if_less.simps) (simp add: room_wavail[OF less.prems(1)])
    show ?thesis
    proof (rule add_capacity[OF less.prems(1) cap(1)])
      fix s' assume "vmbuf_add_capacity (v, w) = Some (-1, s')" "refuses f"
      then show ?thesis
        by (simp add: step)
    next
      fix v' w'
      assume ac: "vmbuf_add_capacity (v, w) = Some (0, (v', w'))" "vb_same v v'"
        "2 * vb_capacity v \<le> vb_capacity v'" "vb_ok own f (v', w')"
      have ih: "2 ^ 56 - vb_capacity v' < 2 ^ 56 - vb_capacity v" "vb_room own f (v', w')"
          "vh_wloc (vb_header v') + n < 2 ^ 56"
        using ac cap less.prems(2) by (auto simp: vb_ok_def vb_same_def)
      show ?thesis
        using less.hyps[OF ih] ac(1,2) by (auto simp: step vb_same_def)
    qed
  qed
qed

lemma wseek:
  assumes "vb_room own f (v, w)" "vh_wloc (vb_header v) + n \<le> vb_capacity v"
    and "vh_wloc (vb_header v) + n < 2 ^ 56"
  obtains (failed) s' where "vmbuf_wseek n (v, w) = Some (-1, s')" "refuses f"
  | (moved) v' w' where "vmbuf_wseek n (v, w) = Some (0, (v', w'))" "vb_ok own f (v', w')"
      "vh_wloc (vb_header v') = vh_wloc (vb_header v) + n" "vb_data v' = vb_data v" "vb_rloc v' = vb_rloc v"
      "vb_fd v' = vb_fd v"
proof -
  define u where "u = v\<lparr>vb_header := (vb_header v)\<lparr>vh_wloc := vh_wloc (vb_header v) + n\<rparr>\<rparr>"
  have u: "vb_room own f (u, w)"
    using assms(1,2) by (simp add: vb_room_def u_def)
  have "vmbuf_wseek_no_resize n v = Some u"
    using room_live[OF assms(1)] assms(3)
    by (simp add: vmbuf_wseek_no_resize_def vmbuf_get_header_def set_wloc_def add64_small u_def)
  then have ws: "vmbuf_wseek n (v, w) =
      (if vh_wloc (vb_header v) + n = vb_capacity v then vmbuf_add_capacity (u, w) else Some (0, (u, w)))"
    using room_live[OF u] by (simp add: vmbuf_wseek_def vmbuf_resize_if_full_def vmbuf_get_header_def u_def)
  show thesis
  proof (cases "vh_wloc (vb_header v) + n = vb_capacity v")
    case False
    then show thesis
      using ws u assms(2) by (intro moved[of u w]) (auto simp: vb_ok_def u_def)
  next
    case True
    then have c: "vb_capacity u < 2 ^ 56"
      using assms(3) by (simp add: u_def)
    show thesis
    proof (rule add_capacity[OF u c])
      fix s' assume "vmbuf_add_capacity (u, w) = Some (-1, s')" "refuses f"
      then show thesis
        using ws True failed by simp
    next
      fix v' w'
      assume "vmbuf_add_capacity (u, w) = Some (0, (v', w'))" "vb_same u v'" "vb_ok own f (v', w')"
      then show thesis
        using ws True moved[of v' w'] by (simp add: vb_same_def u_def)
    qed
  qed
qed

lemma contents_copy:
  assumes "length xs = n"
  shows "mem_read (mem_copy d p xs) 0 (p + n) = mem_read d 0 p @ xs"
  using mem_read_append[of "mem_copy d p xs" 0 p n] mem_read_copy_same[of d p xs] assms
  by (simp add: mem_read_copy_disj)

text \<open>Storing bytes at the write position and moving past them.\<close>

lemma store_wseek:
  assumes "vb_room own f (v, w)" "vh_wloc (vb_header v) + length xs + length ys \<le> vb_capacity v"
    and "vh_wloc (vb_header v) + length xs < 2 ^ 56"
  obtains u where "vb_store (vh_wloc (vb_header v)) (xs @ ys) v = Some u"
    "vb_wrote own f xs (v, w) (vmbuf_wseek (length xs) (u, w))"
proof -
  let ?p = "vh_wloc (vb_header v)"
  define u where "u = v\<lparr>vb_data := mem_copy (vb_data v) ?p (xs @ ys)\<rparr>"
  have st: "vb_store ?p (xs @ ys) v = Some u" "vb_room own f (u, w)"
    using room_store[OF assms(1), of ?p "xs @ ys"] assms(2) by (simp_all add: u_def)
  have p: "vh_wloc (vb_header u) + length xs \<le> vb_capacity u" "vh_wloc (vb_header u) + length xs < 2 ^ 56"
    using assms by (simp_all add: u_def)
  have "mem_copy d p (xs @ ys) i = mem_copy d p xs i" if "i < p + length xs" for d p i
    using that by (auto simp: mem_copy_def nth_append)
  then have "mem_read (vb_data u) 0 (?p + length xs) = mem_read (mem_copy (vb_data v) ?p xs) 0 (?p + length xs)"
    by (intro mem_read_cong) (simp add: u_def)
  then have "mem_read (vb_data u) 0 (?p + length xs) = mem_read (vb_data v) 0 ?p @ xs"
    by (simp add: contents_copy)
  then have "vb_wrote own f xs (v, w) (vmbuf_wseek (length xs) (u, w))"
    by (rule_tac wseek[OF st(2) p]) (auto simp: vb_wrote_def contents_def u_def)
  then show thesis
    using st(1) that by blast
qed

lemma chrcpy:
  assumes "vb_ok own f (v, w)" "vh_wloc (vb_header v) + 1 < 2 ^ 56"
  shows "vb_wrote own f [c] (v, w) (vmbuf_chrcpy c (v, w))"
proof -
  have r: "vb_room own f (v, w)" "vh_wloc (vb_header v) + 1 \<le> vb_capacity v"
    using assms(1) by (simp_all add: vb_ok_def)
  obtain u where "vb_store (vh_wloc (vb_header v)) ([c] @ []) v = Some u"
      "vb_wrote own f [c] (v, w) (vmbuf_wseek (length [c]) (u, w))"
    by (rule store_wseek[OF r(1), of "[c]" "[]"]) (use r(2) assms(2) in simp_all)
  then show ?thesis
    by (simp add: vmbuf_chrcpy_def room_wlocpos[OF r(1)])
qed

lemma strcpy:
  assumes "vb_ok own f s" "vh_wloc (vb_header (fst s)) + length src < 2 ^ 56"
  shows "vb_wrote own f src s (vmbuf_strcpy src s)"
  using assms
proof (induction "length src" arbitrary: src s rule: less_induct)
  case less
  obtain v w where s: "s = (v, w)"
    by (cases s)
  let ?p = "vh_wloc (vb_header v)" and ?wav = "vb_capacity v - vh_wloc (vb_header v)"
  let ?now = "take ?wav src" and ?later = "drop ?wav src"
  have r: "vb_room own f (v, w)" "?p < vb_capacity v"
    using less.prems(1) by (simp_all add: vb_ok_def s)
  have fit: "?p + length ?now + length [] \<le> vb_capacity v" "?p + length ?now < 2 ^ 56"
    using r(2) less.prems(2) by (auto simp: s)
  obtain u where u: "vb_store ?p ?now v = Some u" "vb_wrote own f ?now (v, w) (vmbuf_wseek (length ?now) (u, w))"
    using store_wseek[OF r(1) fit] by (metis append_Nil2)
  have step: "vmbuf_strcpy src s = do {
     rs \<leftarrow> vmbuf_wseek (length ?now) (u, w);
     if fst rs < 0 then Some (-1, snd rs)
     else if ?later \<noteq> [] then vmbuf_strcpy ?later (snd rs)
     else do {
       p \<leftarrow> vmbuf_wlocpos (fst (snd rs));
       v \<leftarrow> vb_store p [0] (fst (snd rs));
       Some (0, (v, snd (snd rs))) } }"
    by (subst vmbuf_strcpy.simps) (simp add: s room_wlocpos[OF r(1)] room_wavail[OF r(1)] u(1))
  consider (failed) s' where "refuses f" "vmbuf_wseek (length ?now) (u, w) = Some (-1, s')"
    | (moved) v' w' where "vmbuf_wseek (length ?now) (u, w) = Some (0, (v', w'))" "vb_ok own f (v', w')"
        "contents v' = contents v @ ?now" "vb_rloc v' = vb_rloc v" "vb_fd v' = vb_fd v"
    using u(2) by (auto simp: vb_wrote_def)
  then show ?case
  proof cases
    case failed
    then show ?thesis
      by (simp add: step vb_wrote_def)
  next
    case moved
    have wl: "vh_wloc (vb_header v') = ?p + length ?now"
      using arg_cong[OF moved(3), of length] by (simp add: contents_def)
    show ?thesis
    proof (cases "?later = []")
      case False
      then have "vb_wrote own f ?later (v', w') (vmbuf_strcpy ?later (v', w'))"
        using r(2) less.prems(2) wl by (intro less.hyps moved(2)) (auto simp: s)
      then have "vb_wrote own f (?now @ ?later) (v, w) (vmbuf_strcpy ?later (v', w'))"
        by (rule vb_wrote_after) (use moved in simp_all)
      then show ?thesis
        using moved(1) False by (simp add: step[unfolded s] s)
    next
      case True
      have r': "vb_room own f (v', w')" "vh_wloc (vb_header v') + 1 \<le> vb_capacity v'"
        using moved(2) by (simp_all add: vb_ok_def)
      have "contents (v'\<lparr>vb_data := mem_copy (vb_data v') (vh_wloc (vb_header v')) [0]\<rparr>) = contents v'"
        by (simp add: contents_def mem_read_copy_disj)
      moreover have "?now = src"
        using True by simp
      ultimately show ?thesis
        using moved True room_store[OF r'(1), of "vh_wloc (vb_header v')" "[0]"] r'(2)
        by (simp add: step[unfolded s] s vb_wrote_def room_wlocpos[OF r'(1)] vb_ok_def)
    qed
  qed
qed

lemma memcpy:
  assumes "vb_ok own f s" "vh_wloc (vb_header (fst s)) + length src < 2 ^ 56"
  shows "refuses f \<or> vb_wrote own f src s (vmbuf_memcpy src s)"
proof (cases "refuses f")
  case False
  obtain v w where s: "s = (v, w)"
    by (cases s)
  have r: "vb_room own f (v, w)" "vh_wloc (vb_header v) + length src < 2 ^ 56"
    using assms by (simp_all add: vb_ok_def s)
  obtain v' w' where g: "vmbuf_resize_if_less (length src) (v, w) = Some (0, (v', w'))" "vb_same v v'"
      "vb_room own f (v', w')" "vh_wloc (vb_header v) + length src \<le> vb_capacity v'"
    using resize_if_less[OF r] False by blast
  obtain u where "vb_store (vh_wloc (vb_header v')) (src @ []) v' = Some u"
      "vb_wrote own f src (v', w') (vmbuf_wseek (length src) (u, w'))"
    by (rule store_wseek[OF g(3), of src "[]"]) (use g(2,4) r(2) in \<open>simp_all add: vb_same_def\<close>)
  then show ?thesis
    using vb_wrote_same[OF _ g(2)] g(1) by (simp add: s vmbuf_memcpy_def room_wlocpos[OF g(3)])
qed simp

lemma vsprintf:
  assumes "vb_room own f (v, w)" "vh_wloc (vb_header v) + length t + 1 < 2 ^ 56"
  shows "vb_wrote own f t (v, w) (vmbuf_vsprintf (Some t) (v, w))"
  using assms
proof (induction "2 ^ 56 - vb_capacity v" arbitrary: v w rule: less_induct)
  case less
  let ?p = "vh_wloc (vb_header v)" and ?wav = "vb_capacity v - vh_wloc (vb_header v)"
  note r = less.prems(1)
  have step: "vmbuf_vsprintf (Some t) (v, w) = do {
         v \<leftarrow> (if ?wav = 0 then Some v else vb_store ?p (take (?wav - 1) t @ [0]) v);
         if length t < ?wav then do {
           rs \<leftarrow> vmbuf_wseek (length t) (v, w);
           Some (0, snd rs) }
         else do {
           rs \<leftarrow> vmbuf_add_capacity (v, w);
           if fst rs < 0 then Some (-1, snd rs) else vmbuf_vsprintf (Some t) (snd rs) } }"
    by (subst vmbuf_vsprintf.simps, unfold fst_conv snd_conv) (simp add: room_wavail[OF r] room_wlocpos[OF r])
  show ?case
  proof (cases "length t < ?wav")
    case True
    then have fit: "?p + length t + length [0 :: byte] \<le> vb_capacity v"
      by simp
    obtain u where u: "vb_store ?p (t @ [0]) v = Some u"
        "vb_wrote own f t (v, w) (vmbuf_wseek (length t) (u, w))"
      by (rule store_wseek[OF r fit]) (use less.prems(2) in simp_all)
    have u': "vb_room own f (u, w)" "vh_wloc (vb_header u) + length t < vb_capacity u"
      using room_store[OF r, of ?p "t @ [0]"] u(1) True by auto
    have "vmbuf_wseek (length t) (u, w) = Some (0, (u\<lparr>vb_header := (vb_header u)\<lparr>vh_wloc := vh_wloc (vb_header u) + length t\<rparr>\<rparr>, w))"
      using u' room_live[OF u'(1)] by (simp add: vmbuf_wseek_def vmbuf_wseek_no_resize_def vmbuf_get_header_def
          set_wloc_def add64_small vmbuf_resize_if_full_def vb_live_def vb_room_def)
    moreover have "\<not> vb_capacity v \<le> ?p"
      using True by simp
    ultimately show ?thesis
      using u True by (simp add: step)
  next
    case False
    have c: "vb_capacity v < 2 ^ 56" "0 < vb_capacity v"
      using False less.prems(2) r by (auto simp: vb_room_def)
    obtain u where u: "(if ?wav = 0 then Some v else vb_store ?p (take (?wav - 1) t @ [0]) v) = Some u"
        "vb_room own f (u, w)" "vb_capacity u = vb_capacity v" "vh_wloc (vb_header u) = ?p"
        "contents u = contents v" "vb_rloc u = vb_rloc v" "vb_fd u = vb_fd v"
    proof (cases "?wav = 0")
      case False
      let ?x = "take (?wav - 1) t @ [0]"
      have "?p + length ?x \<le> vb_capacity v"
        using False by auto
      then show thesis
        using False room_store[OF r, of ?p ?x] by (intro that[of "v\<lparr>vb_data := mem_copy (vb_data v) ?p ?x\<rparr>"]) (simp_all add: contents_def mem_read_copy_disj)
    qed (use r that in simp)
    have next_step: "vmbuf_vsprintf (Some t) (v, w) = do {
        rs \<leftarrow> vmbuf_add_capacity (u, w);
        if fst rs < 0 then Some (-1, snd rs) else vmbuf_vsprintf (Some t) (snd rs) }"
      using False u(1) unfolding step by simp
    have cu: "vb_capacity u < 2 ^ 56"
      using c(1) u(3) by simp
    show ?thesis
    proof (rule add_capacity[OF u(2) cu])
      fix s' assume "vmbuf_add_capacity (u, w) = Some (-1, s')" "refuses f"
      then show ?thesis
        by (simp add: next_step vb_wrote_def)
    next
      fix v' w'
      assume ac: "vmbuf_add_capacity (u, w) = Some (0, (v', w'))" "vb_same u v'"
        "2 * vb_capacity u \<le> vb_capacity v'" "vb_ok own f (v', w')"
      have "vb_wrote own f t (v', w') (vmbuf_vsprintf (Some t) (v', w'))"
        using ac c u less.prems(2) by (intro less.hyps) (auto simp: vb_ok_def vb_same_def)
      then have "vb_wrote own f ([] @ t) (v, w) (vmbuf_vsprintf (Some t) (v', w'))"
        by (rule vb_wrote_after) (use ac(2) u in \<open>simp_all add: vb_same_def contents_def\<close>)
      then show ?thesis
        using ac(1) by (simp add: next_step)
    qed
  qed
qed

lemma alloc:
  assumes "vb_room own f (v, w)" "vh_wloc (vb_header v) + n < 2 ^ 56"
  obtains (failed) s' where "refuses f" "vmbuf_alloc n (v, w) = Some (2 ^ 64 - 1, s')"
  | (granted) v' w' where "vmbuf_alloc n (v, w) = Some (vh_wloc (vb_header v), (v', w'))"
      "vb_ok own f (v', w')" "vh_wloc (vb_header v') = vh_wloc (vb_header v) + n" "vb_data v' = vb_data v"
      "vb_rloc v' = vb_rloc v"
  using resize_if_less[OF assms]
proof (elim disjE conjE exE)
  fix s' assume "refuses f" "vmbuf_resize_if_less n (v, w) = Some (-1, s')"
  then show thesis
    using failed by (auto simp: vmbuf_alloc_def room_wlocpos[OF assms(1)])
next
  fix u w'
  assume g: "vmbuf_resize_if_less n (v, w) = Some (0, (u, w'))" "vb_same v u" "vb_room own f (u, w')"
    "vh_wloc (vb_header v) + n \<le> vb_capacity u"
  have fit: "vh_wloc (vb_header u) + n \<le> vb_capacity u" "vh_wloc (vb_header u) + n < 2 ^ 56"
    using g(2,4) assms(2) by (simp_all add: vb_same_def)
  have al: "vmbuf_alloc n (v, w) = do {
      (r, s) \<leftarrow> vmbuf_wseek n (u, w');
      if r < 0 then Some (2 ^ 64 - 1, s) else Some (vh_wloc (vb_header v), s) }"
    using g(1) by (simp add: vmbuf_alloc_def room_wlocpos[OF assms(1)])
  show thesis
    by (rule wseek[OF g(3) fit]) (use al g(2) failed granted in \<open>simp_all add: vb_same_def\<close>)
qed

end

text \<open>The bytes an input still offers.\<close>

fun pending :: "rd_item list \<Rightarrow> byte list" where
  "pending [] = []"
| "pending (Rd_data xs # inp) = xs @ pending inp"
| "pending (_ # inp) = pending inp"

lemma sys_read_spec:
  assumes "sys_read n inp = ((res, xs), inp')" "0 < n"
  shows "pending inp = xs @ pending inp'" "length xs \<le> n" "res = int (length xs) \<or> res < 0 \<and> xs = []"
    and "xs = [] \<longrightarrow> length inp' < length inp \<or> res < 0"
  using assms by (cases "(n, inp)" rule: sys_read.cases; auto split: if_splits)+

context vmbuf_memory
begin

lemma read_ok:
  assumes "vb_ok own f s" "vh_wloc (vb_header (fst s)) + length (pending inp) < 2 ^ 56"
  shows "\<exists>r inp' s'. vmbuf_read inp s = Some (r, inp', s') \<and>
    (refuses f \<and> r = -1 \<or>
     (\<exists>xs. vb_ok own f s' \<and> contents (fst s') = contents (fst s) @ xs \<and> pending inp = xs @ pending inp' \<and>
        vb_rloc (fst s') = vb_rloc (fst s)))"
  using assms
proof (induction "length (pending inp)" arbitrary: inp s rule: less_induct)
  case less
  obtain v w where s: "s = (v, w)"
    by (cases s)
  let ?p = "vh_wloc (vb_header v)" and ?wav = "vb_capacity v - vh_wloc (vb_header v)"
  have r: "vb_room own f (v, w)" "?p < vb_capacity v" "?p + length (pending inp) < 2 ^ 56"
    using less.prems by (simp_all add: vb_ok_def s)
  obtain res xs inp' where sr: "sys_read ?wav inp = ((res, xs), inp')"
    by (metis surj_pair)
  note sp = sys_read_spec[OF sr]
  have fit: "?p + length xs + length [] \<le> vb_capacity v" "?p + length xs < 2 ^ 56"
    using sp(1,2) r(2,3) by simp_all
  obtain u where u: "vb_store ?p (xs @ []) v = Some u" "vb_wrote own f xs (v, w) (vmbuf_wseek (length xs) (u, w))"
    by (rule store_wseek[OF r(1) fit])
  have step: "vmbuf_read inp (v, w) =
      (if 0 < res then do {
         rs \<leftarrow> vmbuf_wseek (length xs) (u, w);
         if fst rs < 0 then Some (-1, inp', snd rs)
         else if length xs < ?wav then Some (1, inp', snd rs)
         else vmbuf_read inp' (snd rs) }
       else if res < 0 then Some (if res = -1 then 1 else -1, inp', (u, w))
       else Some (0, inp', (u, w)))"
    using u(1) by (subst vmbuf_read.simps) (simp add: room_wlocpos[OF r(1)] room_wavail[OF r(1)] sr)
  show ?case
  proof (cases "0 < res")
    case False
    then have "xs = []"
      using sp(3) r(2) by auto
    moreover from this have "u = v"
      using u(1) r(1,2) by (simp add: vb_store_def split: if_splits)
    ultimately show ?thesis
      using False less.prems(1) sp(1) r(2) by (auto simp: step s)
  next
    case True
    consider "refuses f" "\<exists>s'. vmbuf_wseek (length xs) (u, w) = Some (-1, s')"
      | v' w' where "vmbuf_wseek (length xs) (u, w) = Some (0, (v', w'))" "vb_ok own f (v', w')"
          "contents v' = contents v @ xs" "vb_rloc v' = vb_rloc v"
      using u(2) by (auto simp: vb_wrote_def)
    then show ?thesis
    proof cases
      case 1
      then show ?thesis
        using True by (auto simp: step s)
    next
      case 2
      have wl: "vh_wloc (vb_header v') = ?p + length xs"
        using arg_cong[OF 2(3), of length] by (simp add: contents_def)
      have pe: "pending inp = xs @ pending inp'" "0 < length xs"
        using sp True r(2) by auto
      have "\<exists>r i' s'. vmbuf_read inp' (v', w') = Some (r, i', s') \<and> (refuses f \<and> r = -1 \<or>
          (\<exists>ys. vb_ok own f s' \<and> contents (fst s') = contents v' @ ys \<and> pending inp' = ys @ pending i' \<and>
             vb_rloc (fst s') = vb_rloc v'))"
        using less.hyps[of inp' "(v', w')"] 2(2) pe wl r(3) by simp
      then show ?thesis
        using True 2 pe(1) by (cases "length xs < ?wav") (auto simp: step s)
    qed
  qed
qed

lemma room_ravail:
  assumes "vb_room own f (v, w)" "vb_rloc v \<le> vh_wloc (vb_header v)"
  shows "vmbuf_ravail v = Some (vh_wloc (vb_header v) - vb_rloc v)"
  using assms room_live[OF assms(1)]
  by (simp add: vmbuf_ravail_def vmbuf_get_header_def sub64_small vb_room_def)

lemma write_ok:
  assumes "vb_room own f (v, w)" "vb_rloc v \<le> vh_wloc (vb_header v)"
  shows "\<exists>r k out'. k \<le> vh_wloc (vb_header v) - vb_rloc v \<and>
    vmbuf_write out sent v =
      Some (r, sent @ mem_read (vb_data v) (vb_rloc v) k, out', v\<lparr>vb_rloc := vb_rloc v + k\<rparr>) \<and>
    (r = 1 \<longleftrightarrow> k = vh_wloc (vb_header v) - vb_rloc v)"
  using assms
proof (induction out arbitrary: sent v)
  case Nil
  show ?case
    by (subst vmbuf_write.simps) (auto simp: room_ravail[OF Nil] mem_read_def intro!: exI[of _ 0])
next
  case (Cons x out)
  let ?rav = "vh_wloc (vb_header v) - vb_rloc v"
  show ?case
  proof (cases "0 < ?rav \<and> (\<exists>m. x = Wr m \<and> 0 < m)")
    case False
    then show ?thesis
      by (subst vmbuf_write.simps, cases x)
        (auto simp: room_ravail[OF Cons.prems] mem_read_def intro!: exI[of _ 0])
  next
    case True
    then obtain m where m: "x = Wr m" "0 < m" "0 < ?rav"
      by blast
    define j where "j = min m ?rav"
    have j: "0 < j" "j \<le> ?rav"
      using m by (simp_all add: j_def)
    let ?u = "v\<lparr>vb_rloc := vb_rloc v + j\<rparr>"
    have u: "vb_room own f (?u, w)" "vb_rloc ?u \<le> vh_wloc (vb_header ?u)"
      using Cons.prems j by (simp_all add: vb_room_def)
    have "vmbuf_rseek j v = ?u"
      using u Cons.prems(1) by (simp add: vmbuf_rseek_def add64_small vb_room_def)
    then have step: "vmbuf_write (x # out) sent v =
        vmbuf_write out (sent @ mem_read (vb_data v) (vb_rloc v) j) ?u"
      using m j by (subst vmbuf_write.simps) (simp add: room_ravail[OF Cons.prems] j_def)
    obtain r k out' where k: "k \<le> ?rav - j"
        "vmbuf_write (x # out) sent v = Some (r, sent @ mem_read (vb_data v) (vb_rloc v) (j + k), out',
           v\<lparr>vb_rloc := vb_rloc v + (j + k)\<rparr>)" "r = 1 \<longleftrightarrow> k = ?rav - j"
      using Cons.IH[OF u, of "sent @ mem_read (vb_data v) (vb_rloc v) j"]
      unfolding step mem_read_append by (auto simp: add.assoc)
    then show ?thesis
      using j(2) by (intro exI[of _ r] exI[of _ "j + k"] exI[of _ out']) auto
  qed
qed

end

section \<open>The providers keep the contract\<close>

text \<open>What \<^verbatim>\<open>mmap\<close> and \<^verbatim>\<open>mremap\<close> promise: an error, or a range of the address space.\<close>

definition vm_kernel_ok :: "vm_kernel \<Rightarrow> bool" where
  "vm_kernel_ok k \<longleftrightarrow>
     (\<forall>n. vk_mmap k n = MAP_FAILED \<or> 0 < vk_mmap k n \<and> vk_mmap k n + n < 2 ^ 64) \<and>
     (\<forall>m old n. vk_mremap k m old n = MAP_FAILED \<or> 0 < vk_mremap k m old n \<and> vk_mremap k m old n + n < 2 ^ 64)"

definition own_pages :: "vm_kernel \<Rightarrow> nat \<Rightarrow> nat \<Rightarrow> 'w \<Rightarrow> bool" where
  "own_pages k m n w \<longleftrightarrow> vm_kernel_ok k \<and> 0 < m \<and> m + n < 2 ^ 64"

lemma mem_roundup_bounds: "n < 2 ^ 61 \<Longrightarrow> n \<le> mem_roundup n \<and> mem_roundup n < n + 4096"
  by (simp add: mem_roundup_def align_up_ge align_up_lt)

interpretation anon: vmbuf_memory "own_pages k" "mem_funcs_anon_buf k" for k
proof
  fix m old new n a :: nat and nm fd sync and w w' :: 'a
  assume o: "own_pages k m old w" and "new < 2 ^ 61"
    and r: "mem_resize (mem_funcs_anon_buf k) m old new nm fd sync w = (n, a, w')" "n \<noteq> 0"
  have eq: "n = mem_roundup new" "a = vk_mremap k m old n" "a \<noteq> MAP_FAILED"
    using r by (auto simp: mem_funcs_anon_buf_def mem_resize_ab_def Let_def split: if_splits)
  then show "own_pages k a n w' \<and> new \<le> n \<and> n \<le> 2 * new + 4096"
    using o mem_roundup_bounds[OF \<open>new < 2 ^ 61\<close>] by (auto simp: own_pages_def vm_kernel_ok_def)
qed (simp add: own_pages_def)

interpretation shared: vmbuf_memory "own_pages k" "mem_funcs_shared_buf k" for k
proof
  fix m old new n a :: nat and nm fd sync and w w' :: 'a
  assume o: "own_pages k m old w" and "new < 2 ^ 61"
    and r: "mem_resize (mem_funcs_shared_buf k) m old new nm fd sync w = (n, a, w')" "n \<noteq> 0"
  have eq: "n = mem_roundup new" "a = vk_mremap k m old n" "a \<noteq> MAP_FAILED"
    using r by (auto simp: mem_funcs_shared_buf_def mem_resize_sb_def Let_def split: if_splits)
  then show "own_pages k a n w' \<and> new \<le> n \<and> n \<le> 2 * new + 4096"
    using o mem_roundup_bounds[OF \<open>new < 2 ^ 61\<close>] by (auto simp: own_pages_def vm_kernel_ok_def)
qed (simp add: own_pages_def)

interpretation fixed: vmbuf_memory "own_pages k" "mem_funcs_shared_fixed_buf k" for k
  by unfold_locales (simp_all add: own_pages_def mem_funcs_shared_fixed_buf_def mem_resize_sfb_def)

text \<open>A block of the context's allocator, beside its other extents \<open>es\<close> and the rest \<open>L\<close> of the
  pool.\<close>

definition own_block ::
    "mmap_fun \<Rightarrow> memalloc \<Rightarrow> (nat \<times> nat) list \<Rightarrow> (nat \<times> nat) multiset \<Rightarrow> nat \<Rightarrow> nat \<Rightarrow> heap \<Rightarrow> bool" where
  "own_block mm ma es L m n hp \<longleftrightarrow> 24 < m \<and> hp_type hp (m - 24) = MEMALLOC_MEM_TYPE_BUF \<and>
     (\<exists>xs ys. ma_ok mm ma hp (xs @ (m - 24, n + 24) # ys) ((m, n) # es) L)"

lemma ma_ok_swap: "ma_ok mm ma hp bs (e # e' # es) L \<Longrightarrow> ma_ok mm ma hp bs (e' # e # es) L"
  unfolding ma_ok_def ma_extents_def by (simp add: add_mset_commute) blast

lemma alloc_raw_type:
  assumes "memalloc_alloc_raw mm ma hp n = ((k, r), hp')" "hp_type hp b = MEMALLOC_MEM_TYPE_BUF"
  shows "hp_type hp' b = MEMALLOC_MEM_TYPE_BUF"
  using assms by (auto simp: memalloc_alloc_raw_def memalloc_list_check_def block_setup_def Let_def
      split: prod.splits if_splits)

lemma alloc_raw_size:
  assumes "memalloc_alloc_raw mm ma hp n = ((k, Some a), hp')" "0 < n" "n < 2 ^ 62"
  shows "k \<le> 2 * n + 48"
  using assms next_p2_64_bounds[of "n + 24"]
  by (auto simp: memalloc_alloc_raw_def block_setup_def Let_def BLOCK_HEADER_def add64_small
      split: prod.splits if_splits)

interpretation pool: vmbuf_memory "own_block mm ma es L" "mem_funcs_mem_pool mm ma" for mm ma es L
proof
  fix m n and hp :: heap
  assume o: "own_block mm ma es L m n hp"
  then obtain xs ys where "ma_blocks mm ma hp (xs @ (m - 24, n + 24) # ys) L"
    unfolding own_block_def ma_ok_def by blast
  from ma_blocks_mem(2)[OF this, of "m - 24" "n + 24"] show "0 < m \<and> m + n < 2 ^ 64"
    using o by (simp add: own_block_def)
next
  fix m old new nm n a :: nat and fd :: int and sync :: bool and hp hp' :: heap
  assume o: "own_block mm ma es L m old hp" and new: "HEADER < new" "new < 2 ^ 61"
    and r: "mem_resize (mem_funcs_mem_pool mm ma) m old new nm fd sync hp = (n, a, hp')" "n \<noteq> 0"
  obtain xs ys where ok: "ma_ok mm ma hp (xs @ (m - 24, old + 24) # ys) ((m, old) # es) L"
    and m: "24 < m" "hp_type hp (m - 24) = MEMALLOC_MEM_TYPE_BUF"
    using o unfolding own_block_def by blast
  obtain s x h where al: "memalloc_alloc_raw mm ma hp new = ((s, x), h)"
    by (metis surj_pair)
  have le: "new \<le> 2 ^ 62"
    using new(2) by simp
  note ar = memalloc_alloc_raw_ok[OF ok le al]
  obtain b where x: "x = Some b" "n = s" "a = b" "hp' = memalloc_free_raw h m"
    using r al ar by (cases x) (auto simp: mem_funcs_mem_pool_def mem_resize_mp_def)
  have ah: "new \<le> n" "ma_ok mm ma h ((xs @ (m - 24, old + 24) # ys) @ [(a - 24, n + 24)]) ((m, old) # (a, n) # es) L"
      "hp_type h (a - 24) = MEMALLOC_MEM_TYPE_BUF"
    using ar x by (auto intro: ma_ok_swap)
  have h: "hp_type h (m - 24) = MEMALLOC_MEM_TYPE_BUF"
    by (rule alloc_raw_type[OF al m(2)])
  have fr: "ma_ok mm ma hp' (xs @ ys @ [(a - 24, n + 24)]) ((a, n) # es) L"
    using memalloc_free_raw_ok(1)[of mm ma h xs "m - 24" "old + 24" "ys @ [(a - 24, n + 24)]" "(a, n) # es" L]
      ah(2) h m(1) x(4) by simp
  have "24 < a"
    using ma_blocks_mem(1)[of mm ma h _ L "a - 24" "n + 24"] ah(2) unfolding ma_ok_def by fastforce
  moreover have "hp_type hp' = hp_type h"
    by (simp add: x memalloc_free_raw_def Let_def)
  moreover have "n \<le> 2 * new + 4096"
    using alloc_raw_size[of mm ma hp new n a h] al x new by (simp add: HEADER_def)
  ultimately show "own_block mm ma es L a n hp' \<and> new \<le> n \<and> n \<le> 2 * new + 4096"
    using ah(1,3) fr unfolding own_block_def by (metis append.assoc)
qed

section \<open>A buffer as a sink of bytes\<close>

text \<open>What a client that builds a text relies on: each write appends its payload.  A run of writes
  then leaves the concatenation.\<close>

fun run_writes :: "('o \<Rightarrow> 's \<Rightarrow> (int \<times> 's) option) \<Rightarrow> 'o list \<Rightarrow> 's \<Rightarrow> 's option" where
  "run_writes wr [] s = Some s"
| "run_writes wr (x # xs) s =
     do { (r, s) \<leftarrow> wr x s; if r < 0 then None else run_writes wr xs s }"

locale byte_sink =
  fixes ok :: "'s \<Rightarrow> bool"
    and content :: "'s \<Rightarrow> byte list"
    and wr :: "'o \<Rightarrow> 's \<Rightarrow> (int \<times> 's) option"
    and payload :: "'o \<Rightarrow> byte list"
  assumes wr_appends: "ok s \<Longrightarrow> length (content s) + length (payload x) + 1 < 2 ^ 56 \<Longrightarrow>
    \<exists>s'. wr x s = Some (0, s') \<and> ok s' \<and> content s' = content s @ payload x"
begin

lemma run_appends:
  "ok s \<Longrightarrow> length (content s) + length (concat (map payload xs)) + 1 < 2 ^ 56 \<Longrightarrow>
   \<exists>s'. run_writes wr xs s = Some s' \<and> ok s' \<and> content s' = content s @ concat (map payload xs)"
proof (induction xs arbitrary: s)
  case (Cons x xs)
  obtain s1 where "wr x s = Some (0, s1)" "ok s1" "content s1 = content s @ payload x"
    using wr_appends[OF Cons.prems(1), of x] Cons.prems(2) by auto
  then show ?case
    using Cons.IH[of s1] Cons.prems(2) by (simp add: add.assoc)
qed simp

end

datatype vb_write = Memcpy "byte list" | Strcpy "byte list" | Sprintf "byte list" | Chrcpy byte

fun vb_write_op :: "vb_write \<Rightarrow> 'w vst \<Rightarrow> (int \<times> 'w vst) option" where
  "vb_write_op (Memcpy xs) = vmbuf_memcpy xs"
| "vb_write_op (Strcpy xs) = vmbuf_strcpy xs"
| "vb_write_op (Sprintf xs) = vmbuf_sprintf (Some xs)"
| "vb_write_op (Chrcpy c) = vmbuf_chrcpy c"

fun vb_payload :: "vb_write \<Rightarrow> byte list" where
  "vb_payload (Memcpy xs) = xs"
| "vb_payload (Strcpy xs) = xs"
| "vb_payload (Sprintf xs) = xs"
| "vb_payload (Chrcpy c) = [c]"

lemma length_contents [simp]: "length (contents v) = vh_wloc (vb_header v)"
  by (simp add: contents_def)

context vmbuf_memory
begin

lemma write_op:
  assumes "vb_ok own f s" "vh_wloc (vb_header (fst s)) + length (vb_payload x) + 1 < 2 ^ 56"
  shows "refuses f \<or> vb_wrote own f (vb_payload x) s (vb_write_op x s)"
proof (cases s)
  case (Pair v w)
  then have "vb_room own f (v, w)"
    using assms(1) by (simp add: vb_ok_def)
  then show ?thesis
    using assms memcpy[OF assms(1)] strcpy[OF assms(1)] vsprintf[of v w] chrcpy[of v w] Pair
    by (cases x) (simp_all add: vmbuf_sprintf_def)
qed

sublocale sink: byte_sink "\<lambda>s. \<not> refuses f \<and> vb_ok own f s" "\<lambda>s. contents (fst s)" vb_write_op vb_payload
proof
  fix s x
  assume "\<not> refuses f \<and> vb_ok own f s" "length (contents (fst s)) + length (vb_payload x) + 1 < 2 ^ 56"
  then show "\<exists>s'. vb_write_op x s = Some (0, s') \<and> (\<not> refuses f \<and> vb_ok own f s') \<and>
      contents (fst s') = contents (fst s) @ vb_payload x"
    using write_op[of s x] by (auto simp: vb_wrote_def)
qed

end

section \<open>Properties\<close>

lemma vmbuf_init_fresh:
  assumes "vm_kernel_ok k" "vk_mmap k (mem_roundup (n + 16)) \<noteq> MAP_FAILED" "n < 2 ^ 58"
  shows "\<exists>s. vmbuf_init k n (VMBUF_INITIALIZER, w) = Some (0, s) \<and>
    vb_ok (own_pages k) (mem_funcs_anon_buf k) s \<and> contents (fst s) = [] \<and> vb_rloc (fst s) = 0 \<and>
    n \<le> vb_capacity (fst s)"
proof -
  let ?sz = "mem_roundup (n + 16)" and ?a = "vk_mmap k (mem_roundup (n + 16))"
  have a: "0 < ?a" "?a + ?sz < 2 ^ 64"
    using assms(1,2) unfolding vm_kernel_ok_def by metis+
  have sz: "n + 16 \<le> ?sz" "?sz < n + 16 + 4096" "4096 dvd ?sz"
    using mem_roundup_bounds[of "n + 16"] assms(3) by (simp_all add: mem_roundup_def align_up_dvd)
  then have big: "4096 \<le> ?sz"
    by (intro dvd_imp_le) auto
  have al: "mem_alloc_ab k (n + 16) m fd w = (?sz, ?a, w)" for m fd
    using assms(2) by (simp add: mem_alloc_ab_def Let_def)
  have "?a + ?sz - 16 < 2 ^ 64 - 16" "?sz - 16 < 2 ^ 59" "n \<le> ?sz - 16"
    using a(2) sz(1,2) assms(3) by auto
  then show ?thesis
    using a sz(1,2) big assms
    by (simp add: vmbuf_init_def VMBUF_INITIALIZER_def vmbuf_init_mem_def mem_funcs_anon_buf_def HEADER_def
        add64_small sub64_small al vb_ok_def vb_room_def own_pages_def contents_def mem_read_def)
qed


text \<open>A kernel that answers every reasonable request.\<close>

definition calm_kernel :: vm_kernel where
  "calm_kernel = \<lparr>vk_mmap = (\<lambda>n. if n < 2 ^ 62 then 4096 else MAP_FAILED),
     vk_mremap = (\<lambda>_ _ n. if n < 2 ^ 62 then 4096 else MAP_FAILED), vk_ftruncate = (\<lambda>_ _. True)\<rparr>"

lemma calm_kernel_ok: "vm_kernel_ok calm_kernel" "\<forall>m old sz. sz < 2 ^ 62 \<longrightarrow> vk_mremap calm_kernel m old sz \<noteq> MAP_FAILED"
    "n < 2 ^ 61 \<Longrightarrow> vk_mmap calm_kernel (mem_roundup n) \<noteq> MAP_FAILED"
  using mem_roundup_bounds[of n] by (auto simp: calm_kernel_def vm_kernel_ok_def MAP_FAILED_def)


text \<open>C23. Reading a descriptor into a buffer and writing a buffer to a descriptor.  \<^verbatim>\<open>vmbuf_read\<close> always
  returns, and unless the memory runs out the bytes it appends are exactly those it took from the
  input, whatever segments they came in.  \<^verbatim>\<open>vmbuf_write\<close> always returns; it sends a prefix of the
  unread bytes, moves the read position past them, and returns 1 exactly when none is left.\<close>

theorem vmbuf_read_write_correct:
  fixes s :: "'w vst"
  assumes "vb_ok (own_pages k) (mem_funcs_anon_buf k) s" "vb_rloc (fst s) \<le> vh_wloc (vb_header (fst s))"
    and "vh_wloc (vb_header (fst s)) + length (pending inp) < 2 ^ 56"
  shows "\<exists>r inp' s'. vmbuf_read inp s = Some (r, inp', s') \<and>
      (r = -1 \<and> refuses (mem_funcs_anon_buf k :: 'w vmbuf_mem_funcs) \<or>
       (\<exists>xs. contents (fst s') = contents (fst s) @ xs \<and> pending inp = xs @ pending inp' \<and>
          (\<exists>q j out'. vmbuf_write out [] (fst s') =
             Some (q, take j (drop (vb_rloc (fst s)) (contents (fst s'))), out',
                   (fst s')\<lparr>vb_rloc := vb_rloc (fst s) + j\<rparr>) \<and>
             (q = 1 \<longleftrightarrow> vb_rloc (fst s) + j = length (contents (fst s'))))))"
proof -
  obtain r inp' s' where rd: "vmbuf_read inp s = Some (r, inp', s')"
    and cs: "refuses (mem_funcs_anon_buf k :: 'w vmbuf_mem_funcs) \<and> r = -1 \<or>
     (\<exists>xs. vb_ok (own_pages k) (mem_funcs_anon_buf k) s' \<and> contents (fst s') = contents (fst s) @ xs \<and>
        pending inp = xs @ pending inp' \<and> vb_rloc (fst s') = vb_rloc (fst s))"
    using anon.read_ok[OF assms(1,3)] by blast
  from cs show ?thesis
  proof
    assume "\<exists>xs. vb_ok (own_pages k) (mem_funcs_anon_buf k) s' \<and> contents (fst s') = contents (fst s) @ xs \<and>
        pending inp = xs @ pending inp' \<and> vb_rloc (fst s') = vb_rloc (fst s)"
    then obtain xs where xs: "vb_ok (own_pages k) (mem_funcs_anon_buf k) s'"
      "contents (fst s') = contents (fst s) @ xs" "pending inp = xs @ pending inp'"
      "vb_rloc (fst s') = vb_rloc (fst s)"
      by blast
    obtain v' w' where s': "s' = (v', w')"
      by (cases s')
    let ?n = "vh_wloc (vb_header v')"
    have room: "vb_room (own_pages k) (mem_funcs_anon_buf k) (v', w')"
      using xs(1) by (simp add: vb_ok_def s')
    have rl: "vb_rloc v' \<le> ?n"
      using arg_cong[OF xs(2), of length] xs(4) assms(2) by (simp add: s')
    obtain q j out' where w: "j \<le> ?n - vb_rloc v'" "vmbuf_write out [] v' =
        Some (q, [] @ mem_read (vb_data v') (vb_rloc v') j, out', v'\<lparr>vb_rloc := vb_rloc v' + j\<rparr>)"
      "q = 1 \<longleftrightarrow> j = ?n - vb_rloc v'"
      using anon.write_ok[OF room rl] by blast
    have "mem_read (vb_data v') (vb_rloc v') j = take j (drop (vb_rloc v') (contents v'))"
      using w(1) by (intro nth_equalityI) (auto simp: contents_def mem_read_def)
    then show ?thesis
      using rd xs w rl by (auto simp: s')
  qed (use rd in auto)
qed

theorem vmbuf_read_write_correct_witness:
  "\<exists>s r inp' s'. vmbuf_init calm_kernel 100 (VMBUF_INITIALIZER, ()) = Some (0, s) \<and>
    vmbuf_read [Rd_data [1, 2, 3]] s = Some (r, inp', s') \<and>
      (r = -1 \<and> refuses (mem_funcs_anon_buf calm_kernel :: unit vmbuf_mem_funcs) \<or>
       (\<exists>xs. contents (fst s') = contents (fst s) @ xs \<and> pending [Rd_data [1, 2, 3]] = xs @ pending inp' \<and>
          (\<exists>q j out'. vmbuf_write [Wr 2, Wr 5] [] (fst s') =
             Some (q, take j (drop (vb_rloc (fst s)) (contents (fst s'))), out',
                   (fst s')\<lparr>vb_rloc := vb_rloc (fst s) + j\<rparr>) \<and>
             (q = 1 \<longleftrightarrow> vb_rloc (fst s) + j = length (contents (fst s'))))))"
proof -
  obtain s :: "unit vst" where s: "vmbuf_init calm_kernel 100 (VMBUF_INITIALIZER, ()) = Some (0, s)"
      "vb_ok (own_pages calm_kernel) (mem_funcs_anon_buf calm_kernel) s" "contents (fst s) = []" "vb_rloc (fst s) = 0"
    using vmbuf_init_fresh[OF calm_kernel_ok(1) calm_kernel_ok(3), of 100 "()"] by auto
  have lim: "vh_wloc (vb_header (fst s)) + length (pending [Rd_data [1, 2, 3 :: byte]]) < 2 ^ 56"
    using s(3) length_contents[of "fst s"] by simp
  show ?thesis
    using vmbuf_read_write_correct[OF s(2) _ lim, of "[Wr 2, Wr 5]"] s(1,4) by auto
qed

lemma vmbuf_init_tmp_ok:
  assumes "ma_ok mm ma hp bs es L" "n < 2 ^ 57"
  shows "\<exists>r s. vmbuf_init_tmp mm ma n (VMBUF_INITIALIZER, hp) = Some (r, s) \<and>
    (r = -1 \<or> r = 0 \<and> vb_ok (own_block mm ma es L) (mem_funcs_mem_pool mm ma) s \<and> contents (fst s) = [])"
proof -
  let ?n = "mem_roundup (n + 16)"
  have n: "n + 16 \<le> ?n" "?n < n + 16 + 4096"
    using mem_roundup_bounds[of "n + 16"] assms(2) by simp_all
  then have dv: "4096 \<le> ?n"
    by (intro dvd_imp_le) (auto simp: mem_roundup_def align_up_dvd)
  obtain k x h where al: "memalloc_alloc_raw mm ma hp ?n = ((k, x), h)"
    by (metis surj_pair)
  have le: "?n \<le> 2 ^ 62"
    using n(2) assms(2) by simp
  note ar = memalloc_alloc_raw_ok[OF assms(1) le al]
  have init: "vmbuf_init_tmp mm ma n (VMBUF_INITIALIZER, hp) =
      vmbuf_init_mem n (VMBUF_INITIALIZER\<lparr>vb_funcs := Some (mem_funcs_mem_pool mm ma)\<rparr>, hp)"
    by (simp add: vmbuf_init_tmp_def vmbuf_free_def VMBUF_INITIALIZER_def)
  have sz: "add64 n 16 = n + 16"
    using assms(2) by (simp add: add64_small)
  show ?thesis
  proof (cases x)
    case None
    then show ?thesis
      using ar al unfolding init
      by (simp add: vmbuf_init_mem_def HEADER_def sz mem_funcs_mem_pool_def mem_alloc_mp_def VMBUF_INITIALIZER_def)
  next
    case (Some a)
    then have a: "?n \<le> k" "ma_ok mm ma h (bs @ [(a - 24, k + 24)]) ((a, k) # es) L"
        "hp_type h (a - 24) = MEMALLOC_MEM_TYPE_BUF"
      using ar by simp_all
    have b: "0 < a - 24" "a - 24 + (k + 24) < 2 ^ 64"
      using ma_blocks_mem(1,2)[of mm ma h _ L "a - 24" "k + 24"] a(2) unfolding ma_ok_def by fastforce+
    have "k \<le> 2 * ?n + 48"
      using alloc_raw_size[OF al[unfolded Some]] n dv assms(2) by simp
    then have k: "16 < k" "k < 2 ^ 59"
      using a(1) n assms(2) dv by simp_all
    have own: "own_block mm ma es L a k h"
      using a(2,3) b(1) by (auto simp: own_block_def)
    show ?thesis
      using al Some b k own unfolding init
      by (simp add: vmbuf_init_mem_def sz mem_funcs_mem_pool_def mem_alloc_mp_def VMBUF_INITIALIZER_def
          vb_ok_def vb_room_def contents_def mem_read_def HEADER_def add64_small sub64_small)
  qed
qed




definition shared_example :: "unit vmbuf" where
  "shared_example = \<lparr>vb_mem = 4112, vb_funcs = Some (mem_funcs_shared_buf calm_kernel), vb_fd = 3,
     vb_capacity = 8176, vb_rloc = 0, vb_header = \<lparr>vh_wloc = 5, vh_capacity = 8176\<rparr>, vb_data = (\<lambda>_. 65)\<rparr>"


text \<open>C26. Running out of memory in the middle of \<^verbatim>\<open>vmbuf_memcpy\<close> is not an error the caller sees: the
  result of the resize is ignored, and the copy goes through the mapping that is no longer there.\<close>

theorem vmbuf_memcpy_refused:
  fixes s :: "'w vst"
  assumes "vb_ok (own_pages k) (mem_funcs_anon_buf k) s" "\<forall>m old n. vk_mremap k m old n = MAP_FAILED"
    and "vb_capacity (fst s) < vh_wloc (vb_header (fst s)) + length src"
  shows "vmbuf_memcpy src s = None"
proof -
  obtain v w where s: "s = (v, w)"
    by (cases s)
  have room: "vb_room (own_pages k) (mem_funcs_anon_buf k) (v, w)" "vh_wloc (vb_header v) < vb_capacity v"
    using assms(1) by (simp_all add: s vb_ok_def)
  have "vb_funcs v = Some (mem_funcs_anon_buf k)"
    using room(1) by (simp add: vb_room_def)
  then have "vmbuf_add_capacity (v, w) = Some (-1, (v\<lparr>vb_mem := MAP_FAILED\<rparr>, w))"
    using assms(2) by (simp add: vmbuf_add_capacity_def vmbuf_change_capacity_def mem_funcs_anon_buf_def
        mem_resize_ab_def Let_def)
  then have "vmbuf_resize_if_less (length src) (v, w) = Some (-1, (v\<lparr>vb_mem := MAP_FAILED\<rparr>, w))"
    using assms(3) room(2) by (subst vmbuf_resize_if_less.simps) (auto simp: anon.room_wavail[OF room(1)] s)
  then show ?thesis
    by (simp add: s vmbuf_memcpy_def vmbuf_wlocpos_def vmbuf_get_header_def vb_live_def)
qed

definition spent_kernel :: vm_kernel where
  "spent_kernel = calm_kernel\<lparr>vk_mremap := (\<lambda>_ _ _. MAP_FAILED)\<rparr>"

definition spent_example :: "unit vmbuf" where
  "spent_example = \<lparr>vb_mem = 4112, vb_funcs = Some (mem_funcs_anon_buf spent_kernel), vb_fd = 0,
     vb_capacity = 4080, vb_rloc = 0, vb_header = \<lparr>vh_wloc = 4000, vh_capacity = 4080\<rparr>, vb_data = (\<lambda>_. 65)\<rparr>"

theorem vmbuf_memcpy_refused_witness: "vmbuf_memcpy (replicate 100 66) (spent_example, ()) = None"
  by (rule vmbuf_memcpy_refused[of spent_kernel])
    (use calm_kernel_ok(1) in \<open>simp_all add: spent_example_def spent_kernel_def vb_ok_def vb_room_def own_pages_def
      vm_kernel_ok_def HEADER_def\<close>)

end
