(* ===== verification/Vmfile.thy ===== *)
theory Vmfile
  imports Vmbuf
begin

text \<open>
  \<^verbatim>\<open>include/vmfile.h\<close>, \<^verbatim>\<open>src/_vmfile.c\<close> and the template \<^verbatim>\<open>src/_vmbuf_impl.c\<close> instantiated with it: a
  byte buffer over a file mapped into memory.  The file is kept at least as long as the mapping
  and is cut to the bytes written when the buffer is closed.  \<open>vf_file\<close> is the length of the file
  behind the mapping and \<open>vf_data\<close> its bytes; the conventions are those of the other buffer:
  \<^term>\<open>None\<close> is an access outside the mapping or a loop that does not end.  Unmapping a range the
  buffer owns and closing its descriptor succeed.
\<close>

section \<open>State and positions\<close>

record vmfile =
  vf_buf :: nat
  vf_capacity :: nat
  vf_read_loc :: nat
  vf_write_loc :: nat
  vf_fd :: int
  vf_file :: nat
  vf_data :: "nat \<Rightarrow> byte"

definition VMFILE_INITIALIZER :: vmfile where
  "VMFILE_INITIALIZER =
     \<lparr>vf_buf = 0, vf_capacity = 0, vf_read_loc = 0, vf_write_loc = 0, vf_fd = -1, vf_file = 0, vf_data = (\<lambda>_. 0)\<rparr>"

definition RIBS_VM_PAGESIZE :: nat where
  "RIBS_VM_PAGESIZE = 4096"

definition RIBS_VM_ALIGN :: "nat \<Rightarrow> nat" where
  "RIBS_VM_ALIGN x = align_up RIBS_VM_PAGESIZE x"

definition vmfile_make :: "vmfile \<Rightarrow> vmfile" where
  "vmfile_make v = v\<lparr>vf_buf := 0, vf_capacity := 0, vf_read_loc := 0, vf_write_loc := 0, vf_fd := 0\<rparr>"

definition vmfile_reset :: "vmfile \<Rightarrow> vmfile" where
  "vmfile_reset v = v\<lparr>vf_read_loc := 0, vf_write_loc := 0\<rparr>"

definition vmfile_free :: "vmfile \<Rightarrow> int \<times> vmfile" where
  "vmfile_free v = (0, (vmfile_reset v)\<lparr>vf_buf := 0, vf_capacity := 0\<rparr>)"

definition vmfile_free_most :: "vmfile \<Rightarrow> int \<times> vmfile" where
  "vmfile_free_most v =
     (let v = vmfile_reset v
      in if vf_buf v \<noteq> 0 \<and> RIBS_VM_PAGESIZE < vf_capacity v
         then (0, v\<lparr>vf_capacity := RIBS_VM_PAGESIZE\<rparr>) else (0, v))"

definition vmfile_data_ofs :: "vmfile \<Rightarrow> nat \<Rightarrow> nat" where
  "vmfile_data_ofs v loc = add64 (vf_buf v) loc"

definition vmfile_data :: "vmfile \<Rightarrow> nat" where
  "vmfile_data v = vf_buf v"

definition vmfile_wavail :: "vmfile \<Rightarrow> nat" where
  "vmfile_wavail v = sub64 (vf_capacity v) (vf_write_loc v)"

definition vmfile_ravail :: "vmfile \<Rightarrow> nat" where
  "vmfile_ravail v = sub64 (vf_write_loc v) (vf_read_loc v)"

definition vmfile_wloc :: "vmfile \<Rightarrow> nat" where
  "vmfile_wloc v = add64 (vf_buf v) (vf_write_loc v)"

definition vmfile_rloc :: "vmfile \<Rightarrow> nat" where
  "vmfile_rloc v = add64 (vf_buf v) (vf_read_loc v)"

definition vmfile_rlocpos :: "vmfile \<Rightarrow> nat" where
  "vmfile_rlocpos v = vf_read_loc v"

definition vmfile_wlocpos :: "vmfile \<Rightarrow> nat" where
  "vmfile_wlocpos v = vf_write_loc v"

definition vmfile_num_elements :: "vmfile \<Rightarrow> nat \<Rightarrow> nat option" where
  "vmfile_num_elements v size_of_element =
     (if size_of_element = 0 then None else Some (vmfile_wlocpos v div size_of_element))"

definition vmfile_rlocset :: "nat \<Rightarrow> vmfile \<Rightarrow> vmfile" where
  "vmfile_rlocset ofs v = v\<lparr>vf_read_loc := ofs\<rparr>"

definition vmfile_wlocset :: "nat \<Rightarrow> vmfile \<Rightarrow> vmfile" where
  "vmfile_wlocset ofs v = v\<lparr>vf_write_loc := ofs\<rparr>"

definition vmfile_rrewind :: "nat \<Rightarrow> vmfile \<Rightarrow> vmfile" where
  "vmfile_rrewind amt v = v\<lparr>vf_read_loc := sub64 (vf_read_loc v) amt\<rparr>"

definition vmfile_wrewind :: "nat \<Rightarrow> vmfile \<Rightarrow> vmfile" where
  "vmfile_wrewind amt v = v\<lparr>vf_write_loc := sub64 (vf_write_loc v) amt\<rparr>"

definition vmfile_capacity :: "vmfile \<Rightarrow> nat" where
  "vmfile_capacity v = vf_capacity v"

definition vmfile_unsafe_wseek :: "nat \<Rightarrow> vmfile \<Rightarrow> vmfile" where
  "vmfile_unsafe_wseek amt v = v\<lparr>vf_write_loc := add64 (vf_write_loc v) amt\<rparr>"

definition vmfile_rseek :: "nat \<Rightarrow> vmfile \<Rightarrow> vmfile" where
  "vmfile_rseek amt v = v\<lparr>vf_read_loc := add64 (vf_read_loc v) amt\<rparr>"

definition vmfile_rreset :: "vmfile \<Rightarrow> vmfile" where
  "vmfile_rreset v = v\<lparr>vf_read_loc := 0\<rparr>"

definition vmfile_wreset :: "vmfile \<Rightarrow> vmfile" where
  "vmfile_wreset v = v\<lparr>vf_write_loc := 0\<rparr>"

definition vf_store :: "nat \<Rightarrow> byte list \<Rightarrow> vmfile \<Rightarrow> vmfile option" where
  "vf_store ofs xs v =
     (if vf_buf v \<noteq> 0 \<and> ofs + length xs \<le> vf_capacity v
      then Some (v\<lparr>vf_data := mem_copy (vf_data v) ofs xs\<rparr>) else None)"

definition vf_load :: "nat \<Rightarrow> vmfile \<Rightarrow> byte option" where
  "vf_load ofs v = (if vf_buf v \<noteq> 0 \<and> ofs < vf_capacity v then Some (vf_data v ofs) else None)"

section \<open>The file behind the mapping\<close>

definition VMFILE_FTRUNCATE :: "vm_kernel \<Rightarrow> nat \<Rightarrow> vmfile \<Rightarrow> vmfile option" where
  "VMFILE_FTRUNCATE k sz v = (if vk_ftruncate k (vf_fd v) sz then Some (v\<lparr>vf_file := sz\<rparr>) else None)"

definition vmfile_close :: "vm_kernel \<Rightarrow> vmfile \<Rightarrow> int \<times> vmfile" where
  "vmfile_close k v =
     (if vf_fd v < 0 then (0, v)
      else
        (case VMFILE_FTRUNCATE k (vf_write_loc v) v of
           None \<Rightarrow> (-1, v)
         | Some v \<Rightarrow> (0, (snd (vmfile_free v))\<lparr>vf_fd := -1\<rparr>)))"

text \<open>The new file is another one, of length 0 before it is extended.\<close>

definition vmfile_attachfd :: "vm_kernel \<Rightarrow> int \<Rightarrow> nat \<Rightarrow> vmfile \<Rightarrow> int \<times> vmfile" where
  "vmfile_attachfd k fd initial_size v =
     (case vmfile_close k v of
        (r, v) \<Rightarrow>
          if r < 0 then (-1, v)
          else
            (let v = v\<lparr>vf_fd := fd, vf_file := 0\<rparr>; initial_size = RIBS_VM_ALIGN initial_size
             in case VMFILE_FTRUNCATE k initial_size v of
                  None \<Rightarrow> (-1, v)
                | Some v \<Rightarrow>
                    (let buf = vk_mmap k initial_size
                     in if buf = MAP_FAILED then (-1, v\<lparr>vf_buf := 0\<rparr>)
                        else (0, vmfile_reset (v\<lparr>vf_buf := buf, vf_capacity := initial_size\<rparr>)))))"

text \<open>\<open>fd\<close> is what \<^verbatim>\<open>open\<close> returned.\<close>

definition vmfile_init :: "vm_kernel \<Rightarrow> int \<Rightarrow> nat \<Rightarrow> vmfile \<Rightarrow> int \<times> vmfile" where
  "vmfile_init k fd initial_size v = (if fd < 0 then (-1, v) else vmfile_attachfd k fd initial_size v)"

definition vmfile_resize_to :: "vm_kernel \<Rightarrow> nat \<Rightarrow> vmfile \<Rightarrow> int \<times> vmfile" where
  "vmfile_resize_to k new_capacity v =
     (let new_capacity = RIBS_VM_ALIGN new_capacity
      in case VMFILE_FTRUNCATE k new_capacity v of
           None \<Rightarrow> (-1, v)
         | Some v \<Rightarrow>
             (let newaddr = vk_mremap k (vf_buf v) (vf_capacity v) new_capacity
              in if newaddr = MAP_FAILED then (-1, v)
                 else (0, v\<lparr>vf_buf := newaddr, vf_capacity := new_capacity\<rparr>)))"

definition vmfile_resize_by :: "vm_kernel \<Rightarrow> nat \<Rightarrow> vmfile \<Rightarrow> int \<times> vmfile" where
  "vmfile_resize_by k amt v = vmfile_resize_to k (add64 (vf_capacity v) amt) v"

definition vmfile_resize_if_full :: "vm_kernel \<Rightarrow> vmfile \<Rightarrow> int \<times> vmfile" where
  "vmfile_resize_if_full k v =
     (if vf_write_loc v = vf_capacity v then vmfile_resize_to k (shl64 (vf_capacity v) 1) v else (0, v))"

partial_function (option) vmfile_double :: "nat \<Rightarrow> nat \<Rightarrow> nat \<Rightarrow> nat option" where
  "vmfile_double wl n new_capacity =
     (let new_capacity = shl64 new_capacity 1
      in if sub64 new_capacity wl \<le> n then vmfile_double wl n new_capacity else Some new_capacity)"

definition vmfile_resize_no_check :: "vm_kernel \<Rightarrow> nat \<Rightarrow> vmfile \<Rightarrow> (int \<times> vmfile) option" where
  "vmfile_resize_no_check k n v = do {
     new_capacity \<leftarrow> vmfile_double (vf_write_loc v) n (vf_capacity v);
     Some (vmfile_resize_to k new_capacity v) }"

definition vmfile_resize_if_less :: "vm_kernel \<Rightarrow> nat \<Rightarrow> vmfile \<Rightarrow> (int \<times> vmfile) option" where
  "vmfile_resize_if_less k desired_size v =
     (let wa = vmfile_wavail v
      in if desired_size \<le> wa then Some (0, v) else vmfile_resize_no_check k desired_size v)"

definition vmfile_wseek :: "vm_kernel \<Rightarrow> nat \<Rightarrow> vmfile \<Rightarrow> int \<times> vmfile" where
  "vmfile_wseek k amt v = vmfile_resize_if_full k (vmfile_unsafe_wseek amt v)"

section \<open>Writing\<close>

definition vmfile_alloc :: "vm_kernel \<Rightarrow> nat \<Rightarrow> vmfile \<Rightarrow> (nat \<times> vmfile) option" where
  "vmfile_alloc k n v = do {
     let loc = vf_write_loc v;
     (r, v) \<leftarrow> vmfile_resize_if_less k n v;
     if r < 0 then Some (2 ^ 64 - 1, v)
     else (case vmfile_wseek k n v of (r, v) \<Rightarrow> if r < 0 then Some (2 ^ 64 - 1, v) else Some (loc, v)) }"

definition vmfile_alloczero :: "vm_kernel \<Rightarrow> nat \<Rightarrow> vmfile \<Rightarrow> (nat \<times> vmfile) option" where
  "vmfile_alloczero k n v = do {
     (loc, v) \<leftarrow> vmfile_alloc k n v;
     v \<leftarrow> vf_store loc (replicate n 0) v;
     Some (loc, v) }"

definition vmfile_alloc_aligned :: "vm_kernel \<Rightarrow> nat \<Rightarrow> vmfile \<Rightarrow> (nat \<times> vmfile) option" where
  "vmfile_alloc_aligned k n v = vmfile_alloc k n (v\<lparr>vf_write_loc := align_up 8 (vf_write_loc v)\<rparr>)"

definition vmfile_allocptr :: "vm_kernel \<Rightarrow> nat \<Rightarrow> vmfile \<Rightarrow> (nat \<times> vmfile) option" where
  "vmfile_allocptr k n v = do {
     (loc, v) \<leftarrow> vmfile_alloc k n v;
     Some (vmfile_data_ofs v loc, v) }"

partial_function (option) vmfile_vsprintf :: "vm_kernel \<Rightarrow> byte list option \<Rightarrow> vmfile \<Rightarrow> (int \<times> vmfile) option" where
  "vmfile_vsprintf k txt v =
     (let wav = vmfile_wavail v
      in case txt of
           None \<Rightarrow> Some (-1, v)
         | Some t \<Rightarrow> do {
             v \<leftarrow> (if wav = 0 then Some v else vf_store (vf_write_loc v) (take (wav - 1) t @ [0]) v);
             if length t < wav then Some (0, snd (vmfile_wseek k (length t) v))
             else do {
               rv \<leftarrow> vmfile_resize_no_check k (length t) v;
               if fst rv < 0 then Some (-1, snd rv) else vmfile_vsprintf k txt (snd rv) } })"

definition vmfile_sprintf :: "vm_kernel \<Rightarrow> byte list option \<Rightarrow> vmfile \<Rightarrow> (int \<times> vmfile) option" where
  "vmfile_sprintf k txt v = vmfile_vsprintf k txt v"

partial_function (option) vmfile_strcpy :: "vm_kernel \<Rightarrow> byte list \<Rightarrow> vmfile \<Rightarrow> (int \<times> vmfile) option" where
  "vmfile_strcpy k src v = do {
     let wav = vmfile_wavail v;
     v \<leftarrow> vf_store (vf_write_loc v) (take wav src) v;
     case vmfile_wseek k (length (take wav src)) v of
       (r, v) \<Rightarrow>
         if r < 0 then Some (-1, v)
         else if drop wav src \<noteq> [] then vmfile_strcpy k (drop wav src) v
         else do { v \<leftarrow> vf_store (vf_write_loc v) [0] v; Some (0, v) } }"

definition vmfile_replace_last_if :: "byte \<Rightarrow> byte \<Rightarrow> vmfile \<Rightarrow> (int \<times> vmfile) option" where
  "vmfile_replace_last_if c d v =
     (if 0 < vf_write_loc v then do {
        x \<leftarrow> vf_load (vf_write_loc v - 1) v;
        if c = x then do { v \<leftarrow> vf_store (vf_write_loc v - 1) [d] v; Some (0, v) } else Some (-1, v) }
      else Some (-1, v))"

definition vmfile_remove_last_if :: "byte \<Rightarrow> vmfile \<Rightarrow> vmfile option" where
  "vmfile_remove_last_if c v = do {
     (r, v) \<leftarrow> vmfile_replace_last_if c 0 v;
     if r = 0 then Some (v\<lparr>vf_write_loc := sub64 (vf_write_loc v) 1\<rparr>) else Some v }"

definition vmfile_memcpy :: "vm_kernel \<Rightarrow> byte list \<Rightarrow> vmfile \<Rightarrow> (int \<times> vmfile) option" where
  "vmfile_memcpy k src v = do {
     (_, v) \<leftarrow> vmfile_resize_if_less k (length src) v;
     v \<leftarrow> vf_store (vf_write_loc v) src v;
     Some (vmfile_wseek k (length src) v) }"

definition vmfile_memset :: "byte \<Rightarrow> nat \<Rightarrow> vmfile \<Rightarrow> vmfile option" where
  "vmfile_memset c n v = vf_store 0 (replicate n c) v"

partial_function (option) vmfile_strftime :: "vm_kernel \<Rightarrow> byte list \<Rightarrow> vmfile \<Rightarrow> (int \<times> vmfile) option" where
  "vmfile_strftime k t v = do {
     let wav = vmfile_wavail v;
     let n = (if length t < wav then length t else 0);
     if 0 < n then do {
       v \<leftarrow> vf_store (vf_write_loc v) (t @ [0]) v;
       Some (0, snd (vmfile_wseek k n v)) }
     else
       (case vmfile_resize_by k RIBS_VM_PAGESIZE v of
          (r, v) \<Rightarrow> if r < 0 then Some (-1, v) else vmfile_strftime k t v) }"

definition vmfile_chrcpy :: "vm_kernel \<Rightarrow> byte \<Rightarrow> vmfile \<Rightarrow> (int \<times> vmfile) option" where
  "vmfile_chrcpy k c v = do {
     v \<leftarrow> vf_store (vf_write_loc v) [c] v;
     Some (vmfile_wseek k 1 v) }"

definition vmfile_swap :: "vmfile \<times> vmfile \<Rightarrow> vmfile \<times> vmfile" where
  "vmfile_swap = (\<lambda>(vmb1, vmb2). let tmpbuf = vmb1; vmb1 = vmb2; vmb2 = tmpbuf in (vmb1, vmb2))"

partial_function (option) vmfile_read ::
    "vm_kernel \<Rightarrow> rd_item list \<Rightarrow> vmfile \<Rightarrow> (int \<times> rd_item list \<times> vmfile) option" where
  "vmfile_read k inp v = do {
     let wavail = vmfile_wavail v;
     case sys_read wavail inp of
       ((res, xs), inp) \<Rightarrow> do {
         v \<leftarrow> vf_store (vf_write_loc v) xs v;
         if 0 < res then
           (case vmfile_wseek k (length xs) v of
              (r, v) \<Rightarrow>
                if r < 0 then Some (-1, inp, v)
                else if length xs < wavail then Some (1, inp, v)
                else vmfile_read k inp v)
         else if res < 0 then Some (if res = -1 then 1 else -1, inp, v)
         else Some (0, inp, v) } }"

partial_function (option) vmfile_write ::
    "wr_item list \<Rightarrow> byte list \<Rightarrow> vmfile \<Rightarrow> (int \<times> byte list \<times> wr_item list \<times> vmfile) option" where
  "vmfile_write out sent v =
     (let rav = vmfile_ravail v
      in if 0 < rav then
           (case sys_write rav out of
              (res, out) \<Rightarrow>
                if res < 0 then Some (if res = -1 then 0 else -1, sent, out, v)
                else if 0 < res then
                  vmfile_write out (sent @ mem_read (vf_data v) (vf_read_loc v) (nat res)) (vmfile_rseek (nat res) v)
                else Some (-1, sent, out, v))
         else Some (1, sent, out, v))"

section \<open>Invariant and writes\<close>

definition vf_contents :: "vmfile \<Rightarrow> byte list" where
  "vf_contents v = mem_read (vf_data v) 0 (vf_write_loc v)"

text \<open>The mapping never reaches beyond the end of the file.\<close>

definition vf_room :: "vmfile \<Rightarrow> bool" where
  "vf_room v \<longleftrightarrow> vf_buf v \<noteq> 0 \<and> 0 < vf_capacity v \<and> vf_capacity v < 2 ^ 59 \<and> vf_write_loc v \<le> vf_capacity v \<and>
     vf_capacity v \<le> vf_file v \<and> 0 \<le> vf_fd v"

definition vf_ok :: "vmfile \<Rightarrow> bool" where
  "vf_ok v \<longleftrightarrow> vf_room v \<and> vf_write_loc v < vf_capacity v"

definition vf_same :: "vmfile \<Rightarrow> vmfile \<Rightarrow> bool" where
  "vf_same v v' \<longleftrightarrow> vf_write_loc v' = vf_write_loc v \<and> vf_read_loc v' = vf_read_loc v \<and> vf_data v' = vf_data v \<and>
     vf_fd v' = vf_fd v"

definition vf_wrote :: "byte list \<Rightarrow> vmfile \<Rightarrow> (int \<times> vmfile) option \<Rightarrow> bool" where
  "vf_wrote xs v res \<longleftrightarrow> (\<exists>v'. res = Some (0, v') \<and> vf_ok v' \<and> vf_contents v' = vf_contents v @ xs \<and>
     vf_read_loc v' = vf_read_loc v)"

text \<open>The kernel and the file system have what is asked for.\<close>

definition vm_gives :: "vm_kernel \<Rightarrow> bool" where
  "vm_gives k \<longleftrightarrow> vm_kernel_ok k \<and> (\<forall>n<2 ^ 62. vk_mmap k n \<noteq> MAP_FAILED) \<and>
     (\<forall>m old. \<forall>n<2 ^ 62. vk_mremap k m old n \<noteq> MAP_FAILED) \<and> (\<forall>fd n. vk_ftruncate k fd n)"

lemma vf_store_room:
  assumes "vf_room v" "p + length xs \<le> vf_capacity v"
  shows "vf_store p xs v = Some (v\<lparr>vf_data := mem_copy (vf_data v) p xs\<rparr>)"
    and "vf_room (v\<lparr>vf_data := mem_copy (vf_data v) p xs\<rparr>)"
  using assms by (simp_all add: vf_store_def vf_room_def)

lemma vf_wavail: "vf_room v \<Longrightarrow> vmfile_wavail v = vf_capacity v - vf_write_loc v"
  by (simp add: vmfile_wavail_def vf_room_def sub64_small)

lemma vmfile_align: "n < 2 ^ 61 \<Longrightarrow> n \<le> RIBS_VM_ALIGN n \<and> RIBS_VM_ALIGN n < n + 4096"
  by (simp add: RIBS_VM_ALIGN_def RIBS_VM_PAGESIZE_def align_up_ge align_up_lt)

lemma vmfile_resize_to_ok:
  assumes "vm_gives k" "vf_room v" "vf_write_loc v < c" "c < 2 ^ 58"
  obtains v' where "vmfile_resize_to k c v = (0, v')" "vf_ok v'" "vf_same v v'" "c \<le> vf_capacity v'"
proof -
  let ?n = "RIBS_VM_ALIGN c"
  let ?a = "vk_mremap k (vf_buf v) (vf_capacity v) ?n"
  have n: "c \<le> ?n" "?n < c + 4096"
    using vmfile_align[of c] assms(4) by simp_all
  have "?n < 2 ^ 62"
    using n assms(4) by simp
  then have a: "?a \<noteq> MAP_FAILED" "0 < ?a"
    using assms(1) unfolding vm_gives_def vm_kernel_ok_def by metis+
  let ?v = "v\<lparr>vf_file := ?n, vf_buf := ?a, vf_capacity := ?n\<rparr>"
  have eq: "vmfile_resize_to k c v = (0, ?v)"
    using a assms(1) by (simp add: vmfile_resize_to_def VMFILE_FTRUNCATE_def vm_gives_def Let_def)
  show thesis
    by (rule that[OF eq]) (use n a assms in \<open>simp_all add: vf_ok_def vf_room_def vf_same_def\<close>)
qed

lemma vmfile_double_ok:
  assumes "0 < c" "c \<le> wl + n" "wl \<le> c" "wl + n < 2 ^ 57"
  shows "\<exists>c'. vmfile_double wl n c = Some c' \<and> wl + n < c' \<and> c' \<le> 2 * (wl + n)"
  using assms
proof (induction "2 ^ 58 - c" arbitrary: c rule: less_induct)
  case less
  have d: "shl64 c 1 = 2 * c" "sub64 (2 * c) wl = 2 * c - wl"
    using less.prems by (simp_all add: shl64_small sub64_small mult.commute)
  have step: "vmfile_double wl n c = (if 2 * c - wl \<le> n then vmfile_double wl n (2 * c) else Some (2 * c))"
    by (subst vmfile_double.simps) (simp only: Let_def d)
  show ?case
  proof (cases "2 * c - wl \<le> n")
    case True
    have m: "2 ^ 58 - 2 * c < 2 ^ 58 - c" "2 * c \<le> wl + n"
      using True less.prems by simp_all
    show ?thesis
      using less.hyps[OF m(1) _ m(2)] less.prems True by (simp add: step)
  next
    case False
    then show ?thesis
      using less.prems by (simp add: step)
  qed
qed

lemma vmfile_resize_no_check_ok:
  assumes "vm_gives k" "vf_room v" "vf_capacity v \<le> vf_write_loc v + n" "vf_write_loc v + n < 2 ^ 57"
  obtains v' where "vmfile_resize_no_check k n v = Some (0, v')" "vf_ok v'" "vf_same v v'"
    "vf_write_loc v + n < vf_capacity v'"
proof -
  have pre: "0 < vf_capacity v" "vf_write_loc v \<le> vf_capacity v"
    using assms(2) by (simp_all add: vf_room_def)
  obtain c where c: "vmfile_double (vf_write_loc v) n (vf_capacity v) = Some c" "vf_write_loc v + n < c"
      "c \<le> 2 * (vf_write_loc v + n)"
    using vmfile_double_ok[OF pre(1) assms(3) pre(2) assms(4)] by blast
  obtain v' where "vmfile_resize_to k c v = (0, v')" "vf_ok v'" "vf_same v v'" "c \<le> vf_capacity v'"
    by (rule vmfile_resize_to_ok[OF assms(1,2), of c]) (use c assms(4) in simp_all)
  then show thesis
    using c by (intro that[of v']) (simp_all add: vmfile_resize_no_check_def)
qed

lemma vmfile_wseek_ok:
  assumes "vm_gives k" "vf_room v" "vf_write_loc v + n \<le> vf_capacity v" "vf_write_loc v + n < 2 ^ 57"
  obtains v' where "vmfile_wseek k n v = (0, v')" "vf_ok v'" "vf_write_loc v' = vf_write_loc v + n"
    "vf_data v' = vf_data v" "vf_read_loc v' = vf_read_loc v"
proof (cases "vf_write_loc v + n = vf_capacity v")
  case False
  let ?u = "v\<lparr>vf_write_loc := vf_write_loc v + n\<rparr>"
  have "vmfile_wseek k n v = (0, ?u)"
    using False assms(4) by (simp add: vmfile_wseek_def vmfile_unsafe_wseek_def vmfile_resize_if_full_def add64_small)
  then show thesis
    using False assms(2,3) by (intro that[of ?u]) (auto simp: vf_ok_def vf_room_def)
next
  case True
  let ?u = "v\<lparr>vf_write_loc := vf_write_loc v + n\<rparr>"
  have u: "vf_room ?u"
    using assms(2,3) by (simp add: vf_room_def)
  have c: "vf_write_loc ?u < 2 * vf_capacity v" "2 * vf_capacity v < 2 ^ 58"
    using True assms(2,4) by (simp_all add: vf_room_def)
  obtain v' where "vmfile_resize_to k (2 * vf_capacity v) ?u = (0, v')" "vf_ok v'" "vf_same ?u v'"
    by (rule vmfile_resize_to_ok[OF assms(1) u c])
  then show thesis
    using True assms(4) by (intro that[of v'])
      (simp_all add: vmfile_wseek_def vmfile_unsafe_wseek_def vmfile_resize_if_full_def add64_small shl64_small
        vf_same_def mult.commute)
qed

lemma vmfile_store_wseek:
  assumes "vm_gives k" "vf_room v" "vf_write_loc v + length xs + length ys \<le> vf_capacity v"
    and "vf_write_loc v + length xs < 2 ^ 57"
  obtains u where "vf_store (vf_write_loc v) (xs @ ys) v = Some u" "vf_wrote xs v (Some (vmfile_wseek k (length xs) u))"
    "vf_room u" "vf_same (v\<lparr>vf_data := vf_data u\<rparr>) u" "vf_capacity u = vf_capacity v"
proof -
  let ?p = "vf_write_loc v"
  define u where "u = v\<lparr>vf_data := mem_copy (vf_data v) ?p (xs @ ys)\<rparr>"
  have st: "vf_store ?p (xs @ ys) v = Some u" "vf_room u"
    using vf_store_room[OF assms(2), of ?p "xs @ ys"] assms(3) by (simp_all add: u_def)
  have p: "vf_write_loc u + length xs \<le> vf_capacity u" "vf_write_loc u + length xs < 2 ^ 57"
    using assms(3,4) by (simp_all add: u_def)
  have "mem_copy d p (xs @ ys) i = mem_copy d p xs i" if "i < p + length xs" for d p i
    using that by (auto simp: mem_copy_def nth_append)
  then have "mem_read (vf_data u) 0 (?p + length xs) = mem_read (mem_copy (vf_data v) ?p xs) 0 (?p + length xs)"
    by (intro mem_read_cong) (simp add: u_def)
  then have rd: "mem_read (vf_data u) 0 (?p + length xs) = mem_read (vf_data v) 0 ?p @ xs"
    by (simp add: anon.contents_copy)
  obtain v' where "vmfile_wseek k (length xs) u = (0, v')" "vf_ok v'" "vf_write_loc v' = vf_write_loc u + length xs"
      "vf_data v' = vf_data u" "vf_read_loc v' = vf_read_loc u"
    by (rule vmfile_wseek_ok[OF assms(1) st(2) p])
  then have "vf_wrote xs v (Some (vmfile_wseek k (length xs) u))"
    using rd by (simp add: vf_wrote_def vf_contents_def u_def)
  then show thesis
    using that st by (simp add: u_def vf_same_def)
qed

lemma vf_wrote_after:
  "vf_wrote ys v' res \<Longrightarrow> vf_contents v' = vf_contents v @ xs \<Longrightarrow> vf_read_loc v' = vf_read_loc v \<Longrightarrow>
   vf_wrote (xs @ ys) v res"
  by (auto simp: vf_wrote_def)

lemma vmfile_chrcpy_ok:
  assumes "vm_gives k" "vf_ok v" "vf_write_loc v + 1 < 2 ^ 57"
  shows "vf_wrote [c] v (vmfile_chrcpy k c v)"
proof -
  have r: "vf_room v" "vf_write_loc v + length [c] + length [] \<le> vf_capacity v"
    using assms(2) by (simp_all add: vf_ok_def)
  obtain u where "vf_store (vf_write_loc v) ([c] @ []) v = Some u" "vf_wrote [c] v (Some (vmfile_wseek k (length [c]) u))"
    by (rule vmfile_store_wseek[OF assms(1) r]) (use assms(3) in simp_all)
  then show ?thesis
    by (simp add: vmfile_chrcpy_def)
qed

lemma vmfile_memcpy_ok:
  assumes "vm_gives k" "vf_ok v" "vf_write_loc v + length src < 2 ^ 57"
  shows "vf_wrote src v (vmfile_memcpy k src v)"
proof -
  have r: "vf_room v"
    using assms(2) by (simp add: vf_ok_def)
  obtain v1 where v1: "vmfile_resize_if_less k (length src) v = Some (0, v1)" "vf_room v1" "vf_same v v1"
      "vf_write_loc v1 + length src + length ([] :: byte list) \<le> vf_capacity v1"
  proof (cases "length src \<le> vf_capacity v - vf_write_loc v")
    case True
    then show thesis
      using r by (intro that[of v]) (auto simp: vmfile_resize_if_less_def vf_wavail vf_same_def vf_room_def)
  next
    case False
    obtain v' where "vmfile_resize_no_check k (length src) v = Some (0, v')" "vf_ok v'" "vf_same v v'"
        "vf_write_loc v + length src < vf_capacity v'"
      by (rule vmfile_resize_no_check_ok[OF assms(1) r _ assms(3)]) (use False in simp_all)
    then show thesis
      using False r by (intro that[of v']) (simp_all add: vmfile_resize_if_less_def vf_wavail vf_ok_def vf_same_def)
  qed
  obtain u where "vf_store (vf_write_loc v1) (src @ []) v1 = Some u"
      "vf_wrote src v1 (Some (vmfile_wseek k (length src) u))"
    by (rule vmfile_store_wseek[OF assms(1) v1(2,4)]) (use v1(3) assms(3) in \<open>simp_all add: vf_same_def\<close>)
  then show ?thesis
    using v1 vf_wrote_after[of src v1 _ v "[]"] by (simp add: vmfile_memcpy_def vf_same_def vf_contents_def)
qed

lemma vmfile_strcpy_ok:
  assumes "vm_gives k" "vf_ok v" "vf_write_loc v + length src < 2 ^ 57"
  shows "vf_wrote src v (vmfile_strcpy k src v)"
  using assms(2,3)
proof (induction "length src" arbitrary: src v rule: less_induct)
  case less
  let ?wav = "vf_capacity v - vf_write_loc v"
  let ?now = "take ?wav src" and ?later = "drop ?wav src"
  have r: "vf_room v" "vf_write_loc v < vf_capacity v"
    using less.prems(1) by (simp_all add: vf_ok_def)
  have fit: "vf_write_loc v + length ?now + length [] \<le> vf_capacity v" "vf_write_loc v + length ?now < 2 ^ 57"
    using r(2) less.prems(2) by auto
  obtain u where u: "vf_store (vf_write_loc v) (?now @ []) v = Some u"
      "vf_wrote ?now v (Some (vmfile_wseek k (length ?now) u))"
    by (rule vmfile_store_wseek[OF assms(1) r(1) fit])
  then obtain v' where v': "vmfile_wseek k (length ?now) u = (0, v')" "vf_ok v'" "vf_contents v' = vf_contents v @ ?now"
      "vf_read_loc v' = vf_read_loc v"
    by (auto simp: vf_wrote_def)
  have wl: "vf_write_loc v' = vf_write_loc v + length ?now"
    using arg_cong[OF v'(3), of length] by (simp add: vf_contents_def)
  have step: "vmfile_strcpy k src v = (if ?later \<noteq> [] then vmfile_strcpy k ?later v'
      else do { v \<leftarrow> vf_store (vf_write_loc v') [0] v'; Some (0, v) })"
    using u(1) v'(1) by (subst vmfile_strcpy.simps) (simp add: vf_wavail[OF r(1)] Let_def)
  show ?case
  proof (cases "?later = []")
    case False
    then have "vf_wrote ?later v' (vmfile_strcpy k ?later v')"
      using r(2) less.prems(2) wl by (intro less.hyps v'(2)) auto
    then have "vf_wrote (?now @ ?later) v (vmfile_strcpy k ?later v')"
      by (rule vf_wrote_after) (use v' in simp_all)
    then show ?thesis
      using False unfolding step by simp
  next
    case True
    have "vf_contents (v'\<lparr>vf_data := mem_copy (vf_data v') (vf_write_loc v') [0]\<rparr>) = vf_contents v'"
      by (simp add: vf_contents_def mem_read_copy_disj)
    moreover have "?now = src"
      using True by simp
    ultimately show ?thesis
      using v' True vf_store_room[of v' "vf_write_loc v'" "[0]"] unfolding step by (simp add: vf_wrote_def vf_ok_def)
  qed
qed

lemma vmfile_vsprintf_fits:
  assumes "vm_gives k" "vf_room v" "vf_write_loc v + length t < vf_capacity v" "vf_write_loc v + length t < 2 ^ 57"
  shows "vf_wrote t v (vmfile_vsprintf k (Some t) v)"
proof -
  have fit: "vf_write_loc v + length t + length [0 :: byte] \<le> vf_capacity v"
    using assms(3) by simp
  obtain u where u: "vf_store (vf_write_loc v) (t @ [0]) v = Some u" "vf_wrote t v (Some (vmfile_wseek k (length t) u))"
    by (rule vmfile_store_wseek[OF assms(1,2) fit assms(4)])
  have "vmfile_vsprintf k (Some t) v = Some (0, snd (vmfile_wseek k (length t) u))"
    using assms(3) u(1)
    by (subst vmfile_vsprintf.simps) (simp add: vf_wavail[OF assms(2)] Let_def less_diff_conv add.commute)
  then show ?thesis
    using u(2) by (auto simp: vf_wrote_def)
qed

lemma vmfile_vsprintf_ok:
  assumes "vm_gives k" "vf_ok v" "vf_write_loc v + length t < 2 ^ 57"
  shows "vf_wrote t v (vmfile_vsprintf k (Some t) v)"
proof (cases "vf_write_loc v + length t < vf_capacity v")
  case True
  then show ?thesis
    using vmfile_vsprintf_fits assms by (simp add: vf_ok_def)
next
  case False
  let ?wav = "vf_capacity v - vf_write_loc v" and ?p = "vf_write_loc v"
  let ?x = "take (?wav - 1) t @ [0]"
  let ?u = "v\<lparr>vf_data := mem_copy (vf_data v) ?p ?x\<rparr>"
  have r: "vf_room v" "0 < ?wav" "?p + length ?x \<le> vf_capacity v"
    using assms(2) by (auto simp: vf_ok_def)
  have st: "vf_store ?p ?x v = Some ?u" "vf_room ?u" "vf_contents ?u = vf_contents v"
    using vf_store_room[OF r(1,3)] by (simp_all add: vf_contents_def mem_read_copy_disj)
  obtain v' where v': "vmfile_resize_no_check k (length t) ?u = Some (0, v')" "vf_ok v'" "vf_same ?u v'"
      "vf_write_loc ?u + length t < vf_capacity v'"
    by (rule vmfile_resize_no_check_ok[OF assms(1) st(2), of "length t"]) (use False assms(3) in simp_all)
  have "vmfile_vsprintf k (Some t) v = vmfile_vsprintf k (Some t) v'"
    using r(2) st(1) v'(1) False
    by (subst vmfile_vsprintf.simps) (simp add: vf_wavail[OF r(1)] Let_def less_diff_conv add.commute)
  moreover have "vf_wrote t v' (vmfile_vsprintf k (Some t) v')"
    using v' assms(3) by (intro vmfile_vsprintf_fits[OF assms(1)]) (simp_all add: vf_ok_def vf_same_def)
  ultimately show ?thesis
    using vf_wrote_after[of t v' _ v "[]"] v'(3) st(3) by (simp add: vf_same_def vf_contents_def)
qed

fun vf_write_op :: "vm_kernel \<Rightarrow> vb_write \<Rightarrow> vmfile \<Rightarrow> (int \<times> vmfile) option" where
  "vf_write_op k (Memcpy xs) v = vmfile_memcpy k xs v"
| "vf_write_op k (Strcpy xs) v = vmfile_strcpy k xs v"
| "vf_write_op k (Sprintf xs) v = vmfile_sprintf k (Some xs) v"
| "vf_write_op k (Chrcpy c) v = vmfile_chrcpy k c v"

interpretation vfile: byte_sink "\<lambda>v. vm_gives k \<and> vf_ok v" vf_contents "vf_write_op k" vb_payload for k
proof
  fix v x
  assume ok: "vm_gives k \<and> vf_ok v" and len: "length (vf_contents v) + length (vb_payload x) + 1 < 2 ^ 56"
  have "vf_wrote (vb_payload x) v (vf_write_op k x v)"
    using ok len by (cases x)
      (simp_all add: vmfile_memcpy_ok vmfile_strcpy_ok vmfile_vsprintf_ok vmfile_chrcpy_ok vmfile_sprintf_def vf_contents_def)
  then show "\<exists>v'. vf_write_op k x v = Some (0, v') \<and> (vm_gives k \<and> vf_ok v') \<and> vf_contents v' = vf_contents v @ vb_payload x"
    using ok by (auto simp: vf_wrote_def)
qed



end
