(* ===== verification/Keyed_Table.thy ===== *)
theory Keyed_Table
  imports Hashtable_Ops
begin

text \<open>
  The mapping an open addressing table of keyed records stands for, apart from where a
  program keeps its buckets and records: \<open>T\<close> is the bucket array up to the mask \<open>m\<close>, \<open>keyf\<close> the
  key of a record.  Searching, filling a free bucket, doubling and deleting are related to
  lookup, update and removal in the mapping once for the tables that use them.
\<close>

definition live_recs :: "(nat \<Rightarrow> ht_entry) \<Rightarrow> nat \<Rightarrow> nat list" where
  "live_recs T m = filter (\<lambda>r. r \<noteq> 0) (map (\<lambda>b. e_rec (T b)) [0..<Suc m])"

definition kv_map :: "(nat \<Rightarrow> ht_entry) \<Rightarrow> nat \<Rightarrow> (nat \<Rightarrow> byte list) \<Rightarrow> byte list \<Rightarrow> nat option" where
  "kv_map T m keyf key = find (\<lambda>r. keyf r = key) (live_recs T m)"

definition kv_ok :: "(nat \<Rightarrow> ht_entry) \<Rightarrow> nat \<Rightarrow> (nat \<Rightarrow> byte list) \<Rightarrow> nat \<Rightarrow> bool" where
  "kv_ok T m keyf n \<longleftrightarrow> 1 \<le> n \<and> m = 2 ^ n - 1 \<and> probe_ok T m \<and> 2 * size (bag T m) \<le> m + 1 \<and>
     recs_ok (bag T m) keyf (2 ^ 64) []"

lemma kv_okD:
  assumes "kv_ok T m keyf n"
  shows "probe_ok T m" "recs_ok (bag T m) keyf (2 ^ 64) []" "1 \<le> n" "m = 2 ^ n - 1" "2 * size (bag T m) \<le> m + 1"
  using assms unfolding kv_ok_def by blast+

lemma kv_okI:
  assumes "probe_ok T m" "recs_ok (bag T m) keyf (2 ^ 64) []" "1 \<le> n" "m = 2 ^ n - 1" "2 * size (bag T m) \<le> m + 1"
  shows "kv_ok T m keyf n"
  using assms unfolding kv_ok_def by blast

lemma set_live_recs: "set (live_recs T m) = snd ` set_mset (bag T m)"
proof -
  have "r \<in> set (live_recs T m) \<longleftrightarrow> (\<exists>h. (h, r) \<in># bag T m)" for r
    unfolding in_bag by (auto simp: live_recs_def occ_def less_Suc_eq_le simp del: upt_Suc)
  then show ?thesis
    by force
qed

lemma live_recs_nz: "r \<in> set (live_recs T m) \<Longrightarrow> r \<noteq> 0"
  by (auto simp: live_recs_def simp del: upt_Suc)

lemma kv_map_Some:
  assumes "kv_ok T m keyf n"
  shows "kv_map T m keyf key = Some r \<longleftrightarrow> r \<in> set (live_recs T m) \<and> keyf r = key"
proof
  assume "kv_map T m keyf key = Some r"
  then show "r \<in> set (live_recs T m) \<and> keyf r = key"
    by (auto simp: kv_map_def find_Some_iff)
next
  assume a: "r \<in> set (live_recs T m) \<and> keyf r = key"
  then obtain r' where r': "kv_map T m keyf key = Some r'"
    by (cases "kv_map T m keyf key") (auto simp: kv_map_def find_None_iff)
  then have "r' \<in> set (live_recs T m)" "keyf r' = key"
    by (auto simp: kv_map_def find_Some_iff)
  moreover have "inj_on keyf (set (live_recs T m))"
    using assms by (auto simp: kv_ok_def recs_ok_def set_live_recs)
  ultimately show "kv_map T m keyf key = Some r"
    using a r' by (auto dest: inj_onD)
qed

lemma kv_map_None: "kv_map T m keyf key = None \<longleftrightarrow> (\<forall>r\<in>set (live_recs T m). keyf r \<noteq> key)"
  by (auto simp: kv_map_def find_None_iff)

lemma kv_map_eqI:
  assumes "kv_ok T m keyf n" "\<And>k r. M k = Some r \<longleftrightarrow> r \<in> set (live_recs T m) \<and> keyf r = k"
  shows "kv_map T m keyf = M"
proof (rule ext)
  fix k
  have "kv_map T m keyf k = Some r \<longleftrightarrow> M k = Some r" for r
    using assms kv_map_Some[OF assms(1)] by simp
  then show "kv_map T m keyf k = M k"
    by (metis not_None_eq)
qed

lemma kv_room: "kv_ok T m keyf n \<Longrightarrow> size (bag T m) \<le> m"
proof -
  assume a: "kv_ok T m keyf n"
  then have "(2 :: nat) \<le> 2 ^ n"
    using power_increasing[of 1 n "2 :: nat"] kv_okD(3) by simp
  then show ?thesis
    using kv_okD(4,5)[OF a] by linarith
qed

lemma kv_search:
  assumes ok: "kv_ok T m keyf n"
  obtains b where
    "probe (\<lambda>b. e_rec (T b) = 0 \<or> e_hashcode (T b) = hashcode key \<and> keyf (e_rec (T b)) = key) m (hashcode key AND m) = Some b"
    "b \<le> m" "\<forall>r. kv_map T m keyf key = Some r \<longrightarrow> occ T b \<and> e_rec (T b) = r \<and> e_hashcode (T b) = hashcode key"
    "kv_map T m keyf key = None \<longrightarrow> \<not> occ T b \<and>
       (\<forall>j\<le>m. cyc_between (hashcode key AND m) j b \<and> j \<noteq> b \<longrightarrow> occ T j)"
proof -
  note m = kv_okD(4)[OF ok] and pok = kv_okD(1)[OF ok]
  have hash: "h = hashcode key" if "(h, r) \<in># bag T m" "keyf r = key" for h r
    using ok that unfolding kv_ok_def recs_ok_def by blast
  obtain b where b: "probe (\<lambda>b. e_rec (T b) = 0 \<or> e_hashcode (T b) = hashcode key \<and> keyf (e_rec (T b)) = key) m
        (hashcode key AND m) = Some b" "b \<le> m"
      "occ T b \<longrightarrow> e_hashcode (T b) = hashcode key \<and> keyf (e_rec (T b)) = key"
      "\<not> occ T b \<longrightarrow> (\<forall>h r. (h, r) \<in># bag T m \<longrightarrow> \<not> keyf r = key) \<and>
       (\<forall>j\<le>m. cyc_between (hashcode key AND m) j b \<and> j \<noteq> b \<longrightarrow> occ T j)"
    by (rule probe_search[OF m pok kv_room[OF ok] hash])
  have live: "e_rec (T b) \<in> set (live_recs T m)" if "occ T b"
    using that b(2) by (auto simp: live_recs_def occ_def less_Suc_eq_le simp del: upt_Suc)
  have "occ T b \<Longrightarrow> kv_map T m keyf key = Some (e_rec (T b))"
    using b(3) live kv_map_Some[OF ok] by simp
  moreover have "\<not> occ T b \<Longrightarrow> kv_map T m keyf key = None"
    using b(4) by (force simp: kv_map_None set_live_recs)
  ultimately show ?thesis
    using that[OF b(1,2)] b(3,4) by fastforce
qed

text \<open>A free bucket on the key's probe path is filled.\<close>

lemma kv_insert:
  assumes ok: "kv_ok T m keyf n" and sz: "size (bag T m) \<le> m div 2"
    and b: "b \<le> m" "\<not> occ T b"
    and path: "\<forall>j\<le>m. cyc_between (hashcode key AND m) j b \<and> j \<noteq> b \<longrightarrow> occ T j"
    and new: "kv_map T m keyf key = None" and r: "0 < r" "r < 2 ^ 64" "r \<notin> set (live_recs T m)"
    and T': "\<And>i. i \<le> m \<Longrightarrow> T' i = (T(b := \<lparr>e_hashcode = hashcode key, e_rec = r\<rparr>)) i"
    and key: "keyf' r = key" "\<And>x. x \<in> set (live_recs T m) \<Longrightarrow> keyf' x = keyf x"
  shows "kv_ok T' m keyf' n" "kv_map T' m keyf' = (kv_map T m keyf)(key \<mapsto> r)"
    "size (bag T' m) = size (bag T m) + 1" "set (live_recs T' m) = insert r (set (live_recs T m))"
proof -
  let ?e = "\<lparr>e_hashcode = hashcode key, e_rec = r\<rparr>"
  have "bag T' m = bag (T(b := ?e)) m"
    by (rule bag_cong) (rule T')
  then have bag': "bag T' m = add_mset (hashcode key, r) (bag T m)"
    using bag_fill[OF b, of ?e] r(1) by (simp add: ebag_def)
  then show "size (bag T' m) = size (bag T m) + 1"
    by simp
  show live': "set (live_recs T' m) = insert r (set (live_recs T m))"
    by (simp add: set_live_recs bag')
  note pok = kv_okD[OF ok]
  have "probe_ok T' m"
    using iffD2[OF probe_ok_cong[of m T' "T(b := ?e)", OF T']] probe_ok_fill[OF pok(1) b, of ?e] r(1) path by simp
  moreover have "recs_ok (bag T' m) keyf' (2 ^ 64) []"
    unfolding bag' using new key r by (intro recs_ok_add[OF pok(2)]) (auto simp: kv_map_None set_live_recs[symmetric])
  moreover have "2 * size (bag T' m) \<le> m + 1"
  proof -
    obtain q where q: "(2 :: nat) ^ n = 2 * q"
      using pok(3) by (cases n) auto
    have "0 < (2 :: nat) ^ n"
      by simp
    then have "m + 1 = 2 * q" "m div 2 < q"
      using pok(4) unfolding q by presburger+
    then show ?thesis
      using sz bag' by simp
  qed
  ultimately show ok': "kv_ok T' m keyf' n"
    using pok(3,4) by (intro kv_okI)
  show "kv_map T' m keyf' = (kv_map T m keyf)(key \<mapsto> r)"
    by (rule kv_map_eqI[OF ok']) (use kv_map_Some[OF ok] new key live' in \<open>auto simp: kv_map_None\<close>)
qed

text \<open>The record in a key's bucket is replaced by another one of the same key.\<close>

lemma bag_replace:
  assumes b: "b \<le> m" "occ T b" and r: "0 < r"
  obtains B where "bag T m = add_mset (e_hashcode (T b), e_rec (T b)) B"
    "bag (T(b := (T b)\<lparr>e_rec := r\<rparr>)) m = add_mset (e_hashcode (T b), r) B"
proof -
  let ?T = "T(b := (T b)\<lparr>e_rec := 0\<rparr>)"
  have "bag T m = bag ?T m + ebag (T b)"
    using bag_fill[of b m ?T "T b"] b(1) by (simp add: occ_def)
  moreover have "bag (?T(b := (T b)\<lparr>e_rec := r\<rparr>)) m = bag ?T m + ebag ((T b)\<lparr>e_rec := r\<rparr>)"
    using bag_fill[of b m ?T "(T b)\<lparr>e_rec := r\<rparr>"] b(1) by (simp add: occ_def)
  ultimately show thesis
    using that[of "bag ?T m"] b(2) r by (simp add: ebag_def occ_def)
qed

lemma kv_replace:
  assumes ok: "kv_ok T m keyf n" and b: "b \<le> m" "occ T b" "keyf (e_rec (T b)) = key"
    and r: "0 < r" "r < 2 ^ 64" "r \<notin> set (live_recs T m)"
    and T': "\<And>i. i \<le> m \<Longrightarrow> T' i = (T(b := (T b)\<lparr>e_rec := r\<rparr>)) i"
    and key: "keyf' r = key" "\<And>x. x \<in> set (live_recs T m) \<Longrightarrow> keyf' x = keyf x"
  shows "kv_ok T' m keyf' n" "kv_map T' m keyf' = (kv_map T m keyf)(key \<mapsto> r)"
    "size (bag T' m) = size (bag T m)"
    "set (live_recs T' m) = insert r (set (live_recs T m) - {e_rec (T b)})"
proof -
  let ?o = "e_rec (T b)" and ?h = "e_hashcode (T b)"
  obtain B where B: "bag T m = add_mset (?h, ?o) B" "bag (T(b := (T b)\<lparr>e_rec := r\<rparr>)) m = add_mset (?h, r) B"
    by (rule bag_replace[OF b(1,2) r(1)])
  have "bag T' m = bag (T(b := (T b)\<lparr>e_rec := r\<rparr>)) m"
    by (rule bag_cong) (rule T')
  then have bag': "bag T' m = add_mset (?h, r) B"
    using B(2) by simp
  note pok = kv_okD(1)[OF ok] kv_okD(2)[OF ok, unfolded B(1)] kv_okD(3-5)[OF ok]
  then have h: "?h = hashcode key"
    using b(3) by (simp add: recs_ok_def)
  have liveB: "x \<in> set (live_recs T m)" if "x \<in> snd ` set_mset B" for x
    using that B(1) by (auto simp: set_live_recs)
  note rm = recs_ok_remove[OF pok(2) refl]
  have rB: "recs_ok B keyf (2 ^ 64) []"
    using rm(1) by (simp add: recs_ok_def)
  have kB: "key \<notin> keyf ` snd ` set_mset B"
    using pok(2) rm(2) b(3) by (auto simp: recs_ok_def inj_on_def)
  have "recs_ok (add_mset (hashcode key, r) B) keyf' (2 ^ 64) []"
    by (rule recs_ok_add[OF rB]) (use r liveB key kB in auto)
  then have "recs_ok (bag T' m) keyf' (2 ^ 64) []"
    using bag' h by simp
  moreover have "probe_ok T' m"
  proof -
    have "probe_ok (T(b := (T b)\<lparr>e_rec := r\<rparr>)) m"
      using pok(1) b(2) r(1) by (auto simp: probe_ok_def occ_def home_def)
    then show ?thesis
      using iffD2[OF probe_ok_cong[of m T' "T(b := (T b)\<lparr>e_rec := r\<rparr>)", OF T']] by blast
  qed
  moreover show sz: "size (bag T' m) = size (bag T m)"
    using bag' B(1) by simp
  ultimately show ok': "kv_ok T' m keyf' n"
    using pok(3-5) by (intro kv_okI) simp_all
  show live': "set (live_recs T' m) = insert r (set (live_recs T m) - {?o})"
    using rm(2) by (auto simp: set_live_recs bag' B(1))
  have inj: "inj_on keyf (set (live_recs T m))" "?o \<in> set (live_recs T m)"
    using ok B(1) by (auto simp: kv_ok_def recs_ok_def set_live_recs)
  then have "keyf x \<noteq> key" if "x \<in> set (live_recs T m)" "x \<noteq> ?o" for x
    using that b(3) by (auto dest: inj_onD)
  then show "kv_map T' m keyf' = (kv_map T m keyf)(key \<mapsto> r)"
    by (intro kv_map_eqI[OF ok']) (use kv_map_Some[OF ok] key live' r(3) b(3) in auto)
qed

lemma kv_remove:
  assumes ok: "kv_ok T m keyf n" and pok: "probe_ok T' m"
    and bag: "bag T m = add_mset (h, r) (bag T' m)" and key: "keyf r = key"
  shows "kv_ok T' m keyf n" "kv_map T' m keyf = (kv_map T m keyf)(key := None)"
    "size (bag T' m) + 1 = size (bag T m)" "set (live_recs T m) = insert r (set (live_recs T' m))"
    "r \<notin> set (live_recs T' m)"
proof -
  note o = kv_okD(2)[OF ok, unfolded bag] kv_okD(3-5)[OF ok]
  note rm = recs_ok_remove[OF o(1) refl]
  show ok': "kv_ok T' m keyf n"
    by (rule kv_okI[OF pok _ o(2,3)]) (use rm(1) o(4) bag in \<open>simp_all add: recs_ok_def\<close>)
  show "size (bag T' m) + 1 = size (bag T m)" "set (live_recs T m) = insert r (set (live_recs T' m))"
      "r \<notin> set (live_recs T' m)"
    using bag rm(2) by (simp_all add: set_live_recs)
  have "keyf x \<noteq> key" if "x \<in> set (live_recs T' m)" for x
    using that rm(2) key o(1) by (force simp: recs_ok_def inj_on_def set_live_recs)
  then show "kv_map T' m keyf = (kv_map T m keyf)(key := None)"
    by (intro kv_map_eqI[OF ok']) (use kv_map_Some[OF ok] bag key in \<open>auto simp: set_live_recs\<close>)
qed

lemma kv_double:
  assumes ok: "kv_ok T m keyf n" and pok: "probe_ok T' m'" and m': "m' = 2 * m + 1"
    and bag: "bag T' m' = bag T m"
  shows "kv_ok T' m' keyf (Suc n)" "kv_map T' m' keyf = kv_map T m keyf"
    "set (live_recs T' m') = set (live_recs T m)"
proof -
  show live: "set (live_recs T' m') = set (live_recs T m)"
    by (simp add: set_live_recs bag)
  show ok': "kv_ok T' m' keyf (Suc n)"
  proof (rule kv_okI[OF pok])
    have "0 < (2 :: nat) ^ n"
      by simp
    then show "m' = 2 ^ Suc n - 1"
      unfolding m' using kv_okD(4)[OF ok] by (simp only: power_Suc)
  qed (use kv_okD[OF ok] m' bag in simp_all)
  show "kv_map T' m' keyf = kv_map T m keyf"
    by (rule kv_map_eqI[OF ok']) (use kv_map_Some[OF ok] live in simp)
qed

lemma kv_cong:
  assumes "kv_ok T m keyf n" "\<And>x. x \<in> set (live_recs T m) \<Longrightarrow> keyf' x = keyf x"
  shows "kv_ok T m keyf' n" "kv_map T m keyf' = kv_map T m keyf"
proof -
  have "x \<in> set (live_recs T m)" if "(h, x) \<in># bag T m" for h x
    using that by (force simp: set_live_recs)
  then show ok': "kv_ok T m keyf' n"
    using assms unfolding kv_ok_def recs_ok_def by (auto simp: set_live_recs inj_on_def)
  show "kv_map T m keyf' = kv_map T m keyf"
    by (rule kv_map_eqI[OF ok']) (use kv_map_Some[OF assms(1)] assms(2) in auto)
qed

end
