(* ===== verification/Arena.thy ===== *)
theory Arena
  imports Context
begin

text \<open>
  What the containers that live in a context's memory rely on: an allocation always returns,
  and memory it hands out is new, disjoint from every extent handed out before it.  The
  contract is the locale \<open>arena\<close>; the allocator of the current context provides it.
\<close>

locale arena =
  fixes alloc :: "nat \<Rightarrow> 'w \<Rightarrow> (nat \<times> 'w) option"
    and own :: "(nat \<times> nat) list \<Rightarrow> 'w \<Rightarrow> bool"
  assumes alloc_new: "own es w \<Longrightarrow> 0 < n \<Longrightarrow>
      \<exists>a w'. alloc n w = Some (a, w') \<and> (if a = 0 then own es w' else own ((a, n) # es) w')"
    and own_apart: "own (e # es) w \<Longrightarrow> d \<in> set es \<Longrightarrow> apart e d"
    and own_range: "own es w \<Longrightarrow> (a, n) \<in> set es \<Longrightarrow> 0 < a \<and> 0 < n \<and> a + n < 2 ^ 64"
begin

lemma alloc_fresh:
  assumes "own es w" "0 < n" "alloc n w = Some (a, w')" "a \<noteq> 0"
  shows "own ((a, n) # es) w'" "d \<in> set es \<Longrightarrow> apart (a, n) d" "a < 2 ^ 64"
proof -
  show o: "own ((a, n) # es) w'"
    using alloc_new[OF assms(1,2)] assms(3,4) by auto
  show "d \<in> set es \<Longrightarrow> apart (a, n) d"
    by (rule own_apart[OF o])
  show "a < 2 ^ 64"
    using own_range[OF o, of a n] by simp
qed

lemma alloc_not_old:
  assumes "own es w" "0 < n" "alloc n w = Some (a, w')" "a \<noteq> 0" "(b, m) \<in> set es"
  shows "a \<noteq> b"
  using alloc_fresh(2)[OF assms(1-4) assms(5)] own_range[OF assms(1,5)] assms(2) by auto

end

definition own_ctx :: "mmap_fun \<Rightarrow> (nat \<times> nat) multiset \<Rightarrow> (nat \<times> nat) list \<Rightarrow> ribs \<Rightarrow> bool" where
  "own_ctx mm L es w \<longleftrightarrow>
     (\<exists>bs. ma_ok mm (ctx_memalloc (rb_ctx w (current_ctx w))) (rb_heap w) bs es L)"

lemma ribs_malloc_own:
  assumes "own_ctx mm L es w" "0 < n"
  shows "\<exists>a w'. ribs_malloc mm w n = Some (a, w') \<and> (if a = 0 then own_ctx mm L es w' else own_ctx mm L ((a, n) # es) w')"
proof -
  obtain bs where "ma_ok mm (ctx_memalloc (rb_ctx w (current_ctx w))) (rb_heap w) bs es L"
    using assms(1) by (auto simp: own_ctx_def)
  then obtain a ma' hp' bs' where r: "memalloc_alloc mm (ctx_memalloc (rb_ctx w (current_ctx w))) (rb_heap w) n = Some (a, ma', hp')"
      "if a = 0 then ma_ok mm ma' hp' bs' es L else ma_ok mm ma' hp' bs' ((a, n) # es) L"
    using memalloc_alloc_ok[OF _ assms(2)] by blast
  then have "ribs_malloc mm w n = Some (a, put_memalloc w (current_ctx w) ma' hp')"
    using assms(2) by (simp add: ribs_malloc_def ribs_malloc2_def on_memalloc_def)
  then show ?thesis
    using r(2) by (auto simp: own_ctx_def put_memalloc_def)
qed

interpretation ctx: arena "\<lambda>n w. ribs_malloc mm w n" "own_ctx mm L" for mm L
proof
  fix es w n
  assume "own_ctx mm L es w" "0 < (n :: nat)"
  then show "\<exists>a w'. ribs_malloc mm w n = Some (a, w') \<and> (if a = 0 then own_ctx mm L es w' else own_ctx mm L ((a, n) # es) w')"
    by (rule ribs_malloc_own)
next
  fix e es w d
  assume "own_ctx mm L (e # es) w" "d \<in> set es"
  then obtain bs ma hp where "ma_ok mm ma hp bs (e # es) L"
    by (auto simp: own_ctx_def)
  then show "apart e d"
    using extent_apart(1)[of mm ma hp bs e es L] \<open>d \<in> set es\<close> apart_sym by blast
next
  fix es w a n
  assume o: "own_ctx mm L es w" "(a, n) \<in> set es"
  then obtain bs ma hp where ok: "ma_ok mm ma hp bs es L"
    by (auto simp: own_ctx_def)
  then have "0 < n" "\<exists>r \<in> set bs. inside (a, n) r"
    using o(2) unfolding ma_ok_def ma_extents_def by fastforce+
  then obtain b s where b: "(b, s) \<in> set bs" "inside (a, n) (b, s)"
    by (metis surj_pair)
  then show "0 < a \<and> 0 < n \<and> a + n < 2 ^ 64"
    using ma_blocks_mem(1,2)[of mm ma hp bs L b s] ok \<open>0 < n\<close> by (auto simp: ma_ok_def inside_def)
qed

lemma own_ctx_bytes:
  "own_ctx mm L es (w\<lparr>rb_heap := (rb_heap w)\<lparr>hp_bytes := m\<rparr>\<rparr>) = own_ctx mm L es w"
  by (simp add: own_ctx_def)

lemma ribs_calloc_own:
  assumes "own_ctx mm L es w" "0 < mul64 n s" "ribs_calloc mm w n s = Some (a, w')"
  shows "a \<noteq> 0" "own_ctx mm L ((a, mul64 n s) # es) w'" "d \<in> set es \<Longrightarrow> apart (a, mul64 n s) d"
proof -
  obtain a1 w1 where m: "ribs_malloc mm w (mul64 n s) = Some (a1, w1)"
      "if a1 = 0 then own_ctx mm L es w1 else own_ctx mm L ((a1, mul64 n s) # es) w1"
    using ribs_malloc_own[OF assms(1,2)] by blast
  show o: "a \<noteq> 0" "own_ctx mm L ((a, mul64 n s) # es) w'"
    using assms(2,3) m by (auto simp: ribs_calloc_def ribs_calloc2_def ribs_malloc_def Let_def own_ctx_bytes split: if_splits)
  show "d \<in> set es \<Longrightarrow> apart (a, mul64 n s) d"
    by (rule ctx.own_apart[OF o(2)])
qed

end
