(* ===== verification/Thashtable.thy ===== *)
theory Thashtable
  imports Keyed_Table Arena "HOL-Library.Monad_Syntax"
begin

text \<open>
  \<^verbatim>\<open>src/thashtable.c\<close> and \<^verbatim>\<open>src/_thashtable.c\<close>: the temporary hash table, whose bucket vectors and
  records are allocated in the current context and vanish with it.  \<open>tht_ents\<close> and \<open>tht_recs\<close> are
  the context's memory read as bucket entries and as records, by address.  The probing loops are
  those of the other tables; the allocations are those of the context.  An operation that would
  write through a null pointer or run forever has the result \<^term>\<open>None\<close>.
\<close>

section \<open>State\<close>

record thashtable =
  tht_mask :: nat
  tht_size :: nat
  tht_buckets :: "nat list"
  tht_ents :: "nat \<Rightarrow> ht_entry"
  tht_recs :: "nat \<Rightarrow> hrec"

definition THASHTABLE_INITIAL_SIZE_BITS :: nat where
  "THASHTABLE_INITIAL_SIZE_BITS = 5"

definition THASHTABLE_INITIAL_SIZE :: nat where
  "THASHTABLE_INITIAL_SIZE = 2 ^ THASHTABLE_INITIAL_SIZE_BITS"

text \<open>\<^verbatim>\<open>sizeof(struct tht_entry)\<close>, \<^verbatim>\<open>sizeof(struct thashtable)\<close> and the offset of a record's data.\<close>

definition THT_ENTRY_SIZE :: nat where
  "THT_ENTRY_SIZE = 16"

definition THT_SIZE :: nat where
  "THT_SIZE = 264"

definition THASHTABLE_REC_SIZE :: nat where
  "THASHTABLE_REC_SIZE = 8"

section \<open>Operations\<close>

text \<open>The table is created over whatever the memory holds, \<open>t\<close>.\<close>

definition thashtable_create :: "mmap_fun \<Rightarrow> thashtable \<Rightarrow> ribs \<Rightarrow> (nat \<times> thashtable \<times> ribs) option" where
  "thashtable_create mm t w = do {
     (a, w) \<leftarrow> ribs_malloc mm w THT_SIZE;
     if a = 0 then None
     else do {
       let t = t\<lparr>tht_mask := THASHTABLE_INITIAL_SIZE - 1, tht_size := 0\<rparr>;
       (v, w) \<leftarrow> ribs_calloc mm w THASHTABLE_INITIAL_SIZE THT_ENTRY_SIZE;
       Some (a, t\<lparr>tht_buckets := (tht_buckets t)[0 := v],
                  tht_ents := zero_entries (tht_ents t) v (THASHTABLE_INITIAL_SIZE * THT_ENTRY_SIZE)\<rparr>, w) } }"

definition thashtable_bucket :: "thashtable \<Rightarrow> nat \<Rightarrow> nat" where
  "thashtable_bucket t bucket =
     (if bucket < THASHTABLE_INITIAL_SIZE then tht_buckets t ! 0 + THT_ENTRY_SIZE * bucket
      else
        (let il2 = ilog2 bucket;
             bucket = bucket - 2 ^ il2
         in tht_buckets t ! (il2 - THASHTABLE_INITIAL_SIZE_BITS + 1) + THT_ENTRY_SIZE * bucket))"

definition tht_get :: "thashtable \<Rightarrow> nat \<Rightarrow> ht_entry" where
  "tht_get t b = tht_ents t (thashtable_bucket t b)"

definition tht_put :: "thashtable \<Rightarrow> nat \<Rightarrow> ht_entry \<Rightarrow> thashtable" where
  "tht_put t b e = t\<lparr>tht_ents := (tht_ents t)(thashtable_bucket t b := e)\<rparr>"

definition thashtable_move_buckets_range :: "thashtable \<Rightarrow> nat \<Rightarrow> nat \<Rightarrow> nat \<Rightarrow> thashtable option" where
  "thashtable_move_buckets_range t new_mask begin_b end_b =
     oa_move_range tht_get tht_put new_mask begin_b end_b t"

definition thashtable_grow :: "mmap_fun \<Rightarrow> thashtable \<Rightarrow> ribs \<Rightarrow> (thashtable \<times> ribs) option" where
  "thashtable_grow mm t w =
     (let capacity = u32 (tht_mask t + 1);
          il2 = ilog2 capacity
      in do {
        (v, w) \<leftarrow> ribs_calloc mm w capacity THT_ENTRY_SIZE;
        let t = t\<lparr>tht_buckets := (tht_buckets t)[il2 - THASHTABLE_INITIAL_SIZE_BITS + 1 := v],
                  tht_ents := zero_entries (tht_ents t) v (capacity * THT_ENTRY_SIZE)\<rparr>;
        let new_mask = u32 (u32 (capacity * 2) + (2 ^ 32 - 1));
        b \<leftarrow> oa_first_free tht_get t 0;
        t \<leftarrow> thashtable_move_buckets_range t new_mask b capacity;
        t \<leftarrow> thashtable_move_buckets_range t new_mask 0 b;
        Some (t\<lparr>tht_mask := new_mask\<rparr>, w) })"

definition thashtable_alloc_rec ::
    "mmap_fun \<Rightarrow> thashtable \<Rightarrow> ribs \<Rightarrow> nat \<Rightarrow> nat \<Rightarrow> nat \<Rightarrow> (nat \<times> thashtable \<times> ribs) option" where
  "thashtable_alloc_rec mm t w b key_len val_len = do {
     (rec, w) \<leftarrow> ribs_malloc mm w (add64 (add64 THASHTABLE_REC_SIZE key_len) val_len);
     Some (rec, tht_put t b ((tht_get t b)\<lparr>e_rec := rec\<rparr>), w) }"

definition thashtable_check_resize :: "mmap_fun \<Rightarrow> thashtable \<Rightarrow> ribs \<Rightarrow> (thashtable \<times> ribs) option" where
  "thashtable_check_resize mm t w =
     (if tht_size t > tht_mask t div 2 then thashtable_grow mm t w else Some (t, w))"

definition tht_set_rec :: "thashtable \<Rightarrow> nat \<Rightarrow> hrec \<Rightarrow> thashtable" where
  "tht_set_rec t a r = t\<lparr>tht_recs := (tht_recs t)(a := r)\<rparr>"

definition thashtable_new_rec ::
    "mmap_fun \<Rightarrow> thashtable \<Rightarrow> ribs \<Rightarrow> nat \<Rightarrow> byte list \<Rightarrow> byte list \<Rightarrow> (nat \<times> thashtable \<times> ribs) option" where
  "thashtable_new_rec mm t w b key val = do {
     (rec, t, w) \<leftarrow> thashtable_alloc_rec mm t w b (length key) (length val);
     if rec = 0 then None
     else
       (let r = tht_recs t rec;
            r = r\<lparr>r_w0 := u32 (length key), r_w1 := u32 (length val)\<rparr>;
            r = r\<lparr>r_data := mem_copy (r_data r) 0 key\<rparr>;
            r = r\<lparr>r_data := mem_copy (r_data r) (length key) val\<rparr>
        in Some (rec, tht_set_rec t rec r, w)) }"

definition trec_key_eq :: "thashtable \<Rightarrow> byte list \<Rightarrow> nat \<Rightarrow> bool" where
  "trec_key_eq t key rec \<longleftrightarrow>
     r_w0 (tht_recs t rec) = length key \<and> mem_read (r_data (tht_recs t rec)) 0 (length key) = key"

text \<open>The loop of every operation: from the key's home bucket to a free one or the key's own.\<close>

definition tht_search :: "thashtable \<Rightarrow> byte list \<Rightarrow> nat option" where
  "tht_search t key =
     (let hc = hashcode key
      in probe (\<lambda>b. e_rec (tht_get t b) = 0 \<or>
                   e_hashcode (tht_get t b) = hc \<and> trec_key_eq t key (e_rec (tht_get t b)))
           (tht_mask t) (hc AND tht_mask t))"

text \<open>The value stored through \<^verbatim>\<open>inserted\<close> comes first.\<close>

definition thashtable_insert ::
    "mmap_fun \<Rightarrow> thashtable \<Rightarrow> ribs \<Rightarrow> byte list \<Rightarrow> byte list \<Rightarrow> (int \<times> nat \<times> thashtable \<times> ribs) option" where
  "thashtable_insert mm t w key val = do {
     (t, w) \<leftarrow> thashtable_check_resize mm t w;
     b \<leftarrow> tht_search t key;
     if e_rec (tht_get t b) = 0 then do {
       let t = tht_put t b ((tht_get t b)\<lparr>e_hashcode := hashcode key\<rparr>);
       let t = t\<lparr>tht_size := u32 (tht_size t + 1)\<rparr>;
       (rec, t, w) \<leftarrow> thashtable_new_rec mm t w b key val;
       Some (1, rec, t, w) }
     else Some (0, e_rec (tht_get t b), t, w) }"

definition thashtable_put ::
    "mmap_fun \<Rightarrow> thashtable \<Rightarrow> ribs \<Rightarrow> byte list \<Rightarrow> byte list \<Rightarrow> (nat \<times> thashtable \<times> ribs) option" where
  "thashtable_put mm t w key val = do {
     (t, w) \<leftarrow> thashtable_check_resize mm t w;
     b \<leftarrow> tht_search t key;
     if e_rec (tht_get t b) = 0 then do {
       let t = tht_put t b ((tht_get t b)\<lparr>e_hashcode := hashcode key\<rparr>);
       let t = t\<lparr>tht_size := u32 (tht_size t + 1)\<rparr>;
       thashtable_new_rec mm t w b key val }
     else thashtable_new_rec mm t w b key val }"

definition thashtable_insert_alloc ::
    "mmap_fun \<Rightarrow> thashtable \<Rightarrow> ribs \<Rightarrow> byte list \<Rightarrow> nat \<Rightarrow> (nat \<times> thashtable \<times> ribs) option" where
  "thashtable_insert_alloc mm t w key val_len = do {
     (t, w) \<leftarrow> thashtable_check_resize mm t w;
     b \<leftarrow> tht_search t key;
     if e_rec (tht_get t b) = 0 then do {
       let t = tht_put t b ((tht_get t b)\<lparr>e_hashcode := hashcode key\<rparr>);
       (rec, t, w) \<leftarrow> thashtable_alloc_rec mm t w b (length key) val_len;
       if rec = 0 then None
       else
         (let r = tht_recs t rec;
              r = r\<lparr>r_w0 := u32 (length key), r_w1 := u32 val_len\<rparr>;
              r = r\<lparr>r_data := mem_copy (r_data r) 0 key\<rparr>;
              t = tht_set_rec t rec r
          in Some (rec, t\<lparr>tht_size := u32 (tht_size t + 1)\<rparr>, w)) }
     else
       (let rec = e_rec (tht_get t b)
        in Some (if r_w1 (tht_recs t rec) = val_len then rec else 0, t, w)) }"

definition thashtable_lookup :: "thashtable \<Rightarrow> byte list \<Rightarrow> nat option" where
  "thashtable_lookup t key = do {
     b \<leftarrow> tht_search t key;
     Some (e_rec (tht_get t b)) }"

definition thashtable_fix_chain_down :: "thashtable \<Rightarrow> nat \<Rightarrow> nat \<Rightarrow> thashtable option" where
  "thashtable_fix_chain_down t msk bucket = oa_fix_chain_down tht_get tht_put msk bucket t"

definition thashtable_remove :: "thashtable \<Rightarrow> byte list \<Rightarrow> (nat \<times> thashtable) option" where
  "thashtable_remove t key = do {
     b \<leftarrow> tht_search t key;
     let rec = e_rec (tht_get t b);
     if rec = 0 then Some (0, t)
     else do {
       let t = tht_put t b ((tht_get t b)\<lparr>e_rec := 0\<rparr>);
       let t = t\<lparr>tht_size := u32 (tht_size t + (2 ^ 32 - 1))\<rparr>;
       t \<leftarrow> thashtable_fix_chain_down t (tht_mask t) (Open_Addressing.nxt (tht_mask t) b);
       Some (rec, t) } }"

fun tht_foreach_vect :: "thashtable \<Rightarrow> (nat \<Rightarrow> int) \<Rightarrow> nat \<Rightarrow> nat \<Rightarrow> bool \<times> nat list" where
  "tht_foreach_vect t func hte 0 = (True, [])"
| "tht_foreach_vect t func hte (Suc n) =
     (let r = e_rec (tht_ents t hte)
      in if 0 < r then
           (if func r < 0 then (False, [r])
            else (let (ok, rs) = tht_foreach_vect t func (hte + THT_ENTRY_SIZE) n in (ok, r # rs)))
         else tht_foreach_vect t func (hte + THT_ENTRY_SIZE) n)"

function tht_foreach_slots :: "thashtable \<Rightarrow> (nat \<Rightarrow> int) \<Rightarrow> nat \<Rightarrow> nat \<Rightarrow> nat \<Rightarrow> int \<times> nat list" where
  "tht_foreach_slots t func b num_buckets vect_size =
     (if b < num_buckets then
        (let (ok, rs) = tht_foreach_vect t func (tht_buckets t ! b) vect_size
         in if \<not> ok then (-1, rs)
            else
              (let vect_size = (if b \<noteq> 0 then u32 (vect_size * 2) else vect_size);
                   (res, rs') = tht_foreach_slots t func (b + 1) num_buckets vect_size
               in (res, rs @ rs')))
      else (0, []))"
  by pat_completeness auto
termination
  by (relation "measure (\<lambda>(t, func, b, num_buckets, vect_size). num_buckets - b)") auto

declare tht_foreach_slots.simps [simp del]

definition thashtable_foreach :: "thashtable \<Rightarrow> (nat \<Rightarrow> int) \<Rightarrow> int \<times> nat list" where
  "thashtable_foreach t func =
     (let capacity = u32 (tht_mask t + 1);
          num_buckets = ilog2 capacity - THASHTABLE_INITIAL_SIZE_BITS + 1
      in tht_foreach_slots t func 0 num_buckets THASHTABLE_INITIAL_SIZE)"

section \<open>Records\<close>

definition thashtable_get_key_size :: "thashtable \<Rightarrow> nat \<Rightarrow> nat" where
  "thashtable_get_key_size t rec = r_w0 (tht_recs t rec)"

definition thashtable_get_key :: "thashtable \<Rightarrow> nat \<Rightarrow> byte list" where
  "thashtable_get_key t rec = mem_read (r_data (tht_recs t rec)) 0 (thashtable_get_key_size t rec)"

definition thashtable_get_val_size :: "thashtable \<Rightarrow> nat \<Rightarrow> nat" where
  "thashtable_get_val_size t rec = r_w1 (tht_recs t rec)"

definition thashtable_get_val :: "thashtable \<Rightarrow> nat \<Rightarrow> byte list" where
  "thashtable_get_val t rec =
     mem_read (r_data (tht_recs t rec)) (thashtable_get_key_size t rec) (thashtable_get_val_size t rec)"

definition thashtable_get_size :: "thashtable \<Rightarrow> nat" where
  "thashtable_get_size t = tht_size t"

definition thashtable_lookup_str :: "thashtable \<Rightarrow> byte list \<Rightarrow> byte list \<Rightarrow> byte list option" where
  "thashtable_lookup_str t key default_val = do {
     rec \<leftarrow> thashtable_lookup t key;
     Some (if rec \<noteq> 0 then thashtable_get_val t rec else default_val) }"

section \<open>Buckets\<close>

lemma tbits [simp]: "THASHTABLE_INITIAL_SIZE = 32" "THASHTABLE_INITIAL_SIZE_BITS = 5" "THT_ENTRY_SIZE = 16"
  by (simp_all add: THASHTABLE_INITIAL_SIZE_def THASHTABLE_INITIAL_SIZE_BITS_def THT_ENTRY_SIZE_def)

definition vec :: "thashtable \<Rightarrow> nat \<Rightarrow> nat \<times> nat" where
  "vec t s = (tht_buckets t ! s, 16 * vsize s)"

definition tht_valid :: "thashtable \<Rightarrow> nat \<Rightarrow> bool" where
  "tht_valid t b \<longleftrightarrow> (\<forall>s\<le>vslot b. \<forall>r\<le>vslot b. s \<noteq> r \<longrightarrow> apart (vec t s) (vec t r))"

definition tht_frame :: "thashtable \<Rightarrow> thashtable" where
  "tht_frame t = t\<lparr>tht_ents := (\<lambda>_. \<lparr>e_hashcode = 0, e_rec = 0\<rparr>)\<rparr>"

lemma thashtable_bucket_eq: "thashtable_bucket t b = tht_buckets t ! vslot b + 16 * vidx b"
  by (simp add: thashtable_bucket_def vslot_def vidx_def Let_def)

lemma thashtable_bucket_inj:
  assumes "tht_valid t i" "tht_valid t j" "thashtable_bucket t i = thashtable_bucket t j"
  shows "i = j"
proof -
  have "vslot i = vslot j"
  proof (rule ccontr)
    assume ne: "vslot i \<noteq> vslot j"
    have "apart (vec t (vslot i)) (vec t (vslot j))"
    proof (cases "vslot i \<le> vslot j")
      case True
      then show ?thesis
        using assms(2) ne by (auto simp: tht_valid_def)
    next
      case False
      then show ?thesis
        using assms(1) ne by (auto simp: tht_valid_def)
    qed
    then show False
      using vidx_lt[of i] vidx_lt[of j] assms(3) by (auto simp: vec_def thashtable_bucket_eq)
  qed
  moreover from this have "vidx i = vidx j"
    using assms(3) by (simp add: thashtable_bucket_eq)
  ultimately show ?thesis
    by (rule vslot_vidx_inj)
qed

lemma thashtable_bucket_put [simp]: "thashtable_bucket (tht_put t i x) j = thashtable_bucket t j"
  by (simp add: tht_put_def thashtable_bucket_def)

interpretation thtb: bucket_array tht_get tht_put tht_valid tht_frame
proof unfold_locales
  fix t i j x
  show "tht_get (tht_put t i x) j = (if j = i then x else tht_get t j)" if "tht_valid t i" "tht_valid t j"
    using thashtable_bucket_inj[OF that(2,1)] by (simp add: tht_get_def) (simp add: tht_put_def)
  show "tht_valid (tht_put t i x) j \<longleftrightarrow> tht_valid t j"
    by (simp add: tht_valid_def tht_put_def vec_def)
  show "tht_frame (tht_put t i x) = tht_frame t"
    by (simp add: tht_frame_def tht_put_def)
qed

section \<open>The invariant\<close>

text \<open>\<open>es\<close> are the extents of the context's memory: the vectors and the records are among them.\<close>

definition tht_ok :: "thashtable \<Rightarrow> (nat \<times> nat) list \<Rightarrow> nat \<Rightarrow> bool" where
  "tht_ok t es n \<longleftrightarrow> 5 \<le> n \<and> n \<le> 31 \<and> length (tht_buckets t) = 32 \<and> (\<forall>s\<le>n - 5. vec t s \<in> set es) \<and>
     tht_valid t (tht_mask t) \<and> kv_ok (tht_get t) (tht_mask t) (thashtable_get_key t) n \<and>
     tht_size t = size (bag (tht_get t) (tht_mask t)) \<and>
     (\<forall>r\<in>set (live_recs (tht_get t) (tht_mask t)). \<exists>l. (r, l) \<in> set es)"

definition tht_map :: "thashtable \<Rightarrow> byte list \<Rightarrow> nat option" where
  "tht_map t = kv_map (tht_get t) (tht_mask t) (thashtable_get_key t)"

definition tht_live :: "thashtable \<Rightarrow> nat list" where
  "tht_live t = live_recs (tht_get t) (tht_mask t)"

lemma tht_okD:
  assumes "tht_ok t es n"
  shows "5 \<le> n" "n \<le> 31" "length (tht_buckets t) = 32" "\<And>s. s \<le> n - 5 \<Longrightarrow> vec t s \<in> set es"
    "tht_valid t (tht_mask t)" "kv_ok (tht_get t) (tht_mask t) (thashtable_get_key t) n"
    "tht_size t = size (bag (tht_get t) (tht_mask t))" "\<And>r. r \<in> set (tht_live t) \<Longrightarrow> \<exists>l. (r, l) \<in> set es"
    "tht_mask t = 2 ^ n - 1"
  using assms kv_okD(4) unfolding tht_ok_def tht_live_def by blast+

lemma tht_valid_mono: "tht_valid t j \<Longrightarrow> i \<le> j \<Longrightarrow> tht_valid t i"
  using vslot_mono[of i j] by (auto simp: tht_valid_def)

lemma trec_key_eq_iff: "trec_key_eq t key r \<longleftrightarrow> thashtable_get_key t r = key"
  by (auto simp: trec_key_eq_def thashtable_get_key_def thashtable_get_key_size_def)

lemma tht_frameD:
  assumes "tht_frame a = tht_frame b"
  shows "tht_mask a = tht_mask b" "tht_size a = tht_size b" "tht_buckets a = tht_buckets b" "tht_recs a = tht_recs b"
proof -
  have "f (tht_frame a) = f (tht_frame b)" for f :: "thashtable \<Rightarrow> 'x"
    using assms by simp
  from this[of tht_mask] this[of tht_size] this[of tht_buckets] this[of tht_recs]
  show "tht_mask a = tht_mask b" "tht_size a = tht_size b" "tht_buckets a = tht_buckets b" "tht_recs a = tht_recs b"
    by (simp_all add: tht_frame_def)
qed

lemma tht_get_key_cong: "tht_recs a = tht_recs b \<Longrightarrow> thashtable_get_key a = thashtable_get_key b"
  by (simp add: fun_eq_iff thashtable_get_key_def thashtable_get_key_size_def)

lemma tht_search_ok:
  assumes "tht_ok t es n"
  obtains b where "tht_search t key = Some b" "b \<le> tht_mask t"
    "\<forall>r. tht_map t key = Some r \<longrightarrow> occ (tht_get t) b \<and> e_rec (tht_get t b) = r \<and> e_hashcode (tht_get t b) = hashcode key"
    "tht_map t key = None \<longrightarrow> \<not> occ (tht_get t) b \<and>
       (\<forall>j\<le>tht_mask t. cyc_between (hashcode key AND tht_mask t) j b \<and> j \<noteq> b \<longrightarrow> occ (tht_get t) j)"
  using kv_search[OF tht_okD(6)[OF assms], of key] that
  unfolding tht_search_def tht_map_def Let_def trec_key_eq_iff by blast

section \<open>Growing\<close>

lemma tht_add_vector:
  assumes ok: "tht_ok t es n" and n: "n < 31" and fresh: "\<And>d. d \<in> set es \<Longrightarrow> apart (v, 16 * 2 ^ n) d"
    and t1: "t1 = t\<lparr>tht_buckets := (tht_buckets t)[n - 4 := v], tht_ents := zero_entries (tht_ents t) v (2 ^ n * 16)\<rparr>"
  shows "tht_valid t1 (2 * 2 ^ n - 1)" "\<And>b. b < 2 ^ n \<Longrightarrow> tht_get t1 b = tht_get t b"
    "\<And>b. 2 ^ n \<le> b \<Longrightarrow> b \<le> 2 * 2 ^ n - 1 \<Longrightarrow> \<not> occ (tht_get t1) b"
    "\<And>s. s \<le> n - 4 \<Longrightarrow> vec t1 s \<in> insert (v, 2 ^ n * 16) (set es)"
proof -
  note l = tht_okD[OF ok]
  have sl: "tht_buckets t1 ! s = (if s = n - 4 then v else tht_buckets t ! s)" if "s < 32" for s
    using l(1,3) n that by (simp add: t1 nth_list_update)
  have old: "vec t1 s = vec t s" if "s \<le> n - 5" for s
    using that sl[of s] l(1) n by (auto simp: vec_def)
  have new: "vec t1 (n - 4) = (v, 16 * 2 ^ n)"
    using sl[of "n - 4"] l(1) n by (simp add: vec_def vsize_def)
  have le: "s \<le> n - 5 \<or> s = n - 4" if "s \<le> n - 4" for s
    using that l(1) by auto
  have vs: "vslot (2 ^ n - 1) = n - 5"
    by (rule vslot_pred_pow[OF l(1)])
  have ap: "apart (vec t1 s) (vec t1 r)" if "s \<le> n - 4" "r \<le> n - 4" "s \<noteq> r" for s r
  proof -
    have *: "apart (vec t1 (n - 4)) (vec t1 r)" if "r \<le> n - 5" for r
      using fresh[OF l(4)[OF that]] old[OF that] new by simp
    consider "s \<le> n - 5" "r \<le> n - 5" | "s = n - 4" "r \<le> n - 5" | "s \<le> n - 5" "r = n - 4"
      using le[OF \<open>s \<le> n - 4\<close>] le[OF \<open>r \<le> n - 4\<close>] \<open>s \<noteq> r\<close> by blast
    then show ?thesis
    proof cases
      case 1
      then show ?thesis
        using l(5,9) old \<open>s \<noteq> r\<close> vs by (simp add: tht_valid_def)
    next
      case 2
      then show ?thesis
        using * by simp
    next
      case 3
      then show ?thesis
        using * apart_sym by blast
    qed
  qed
  have "vslot (2 * 2 ^ n - 1) = n - 4"
    using vslot_pred_pow[of "Suc n"] l(1) by simp
  then show "tht_valid t1 (2 * 2 ^ n - 1)"
    using ap by (simp add: tht_valid_def)
  show "vec t1 s \<in> insert (v, 2 ^ n * 16) (set es)" if "s \<le> n - 4" for s
    using le[OF that] old l(4) new by (auto simp: mult.commute)
  show "tht_get t1 b = tht_get t b" if "b < 2 ^ n" for b
  proof -
    have s: "vslot b \<le> n - 5"
      using vslot_mono[of b "2 ^ n - 1"] vs that by simp
    moreover from this have "thashtable_bucket t1 b = thashtable_bucket t b"
      using old[OF s] by (simp add: thashtable_bucket_eq vec_def)
    moreover have "\<not> (v \<le> thashtable_bucket t b \<and> thashtable_bucket t b < v + 2 ^ n * 16)"
      using fresh[OF l(4)[OF s]] vidx_lt[of b] by (auto simp: vec_def thashtable_bucket_eq)
    ultimately show ?thesis
      by (simp add: tht_get_def) (auto simp: t1 zero_entries_def)
  qed
  show "\<not> occ (tht_get t1) b" if "2 ^ n \<le> b" "b \<le> 2 * 2 ^ n - 1" for b
  proof -
    have "b < 2 * 2 ^ n"
      using that(2) zero_less_power[of "2 :: nat" n] by linarith
    then have "thashtable_bucket t1 b = v + 16 * (b - 2 ^ n)" "b - 2 ^ n < 2 ^ n"
      using vslot_upper[OF l(1) that(1)] sl[of "n - 4"] n that by (simp_all add: thashtable_bucket_eq)
    then show ?thesis
      by (simp add: occ_def tht_get_def) (simp add: t1 zero_entries_def)
  qed
qed

lemma le_pred_pow: "(i :: nat) \<le> 2 ^ n - 1 \<longleftrightarrow> i < 2 ^ n"
proof -
  have "0 < (2 :: nat) ^ n"
    by simp
  then show ?thesis
    by linarith
qed

text \<open>The redistribution that follows the allocation of the new vector.\<close>

lemma tht_redistribute:
  assumes ok: "tht_ok t es n" and n: "n < 31" and fresh: "\<And>d. d \<in> set es \<Longrightarrow> apart (v, 16 * 2 ^ n) d"
    and t1: "t1 = t\<lparr>tht_buckets := (tht_buckets t)[n - 4 := v], tht_ents := zero_entries (tht_ents t) v (2 ^ n * 16)\<rparr>"
  obtains b t2 t3 where "oa_first_free tht_get t1 0 = Some b"
    "oa_move_range tht_get tht_put (2 * 2 ^ n - 1) b (2 ^ n) t1 = Some t2"
    "oa_move_range tht_get tht_put (2 * 2 ^ n - 1) 0 b t2 = Some t3"
    "probe_ok (tht_get t3) (2 * 2 ^ n - 1)" "bag (tht_get t3) (2 * 2 ^ n - 1) = bag (tht_get t) (tht_mask t)"
    "tht_frame t3 = tht_frame t1" "tht_valid t3 (2 * 2 ^ n - 1)"
proof -
  note l = tht_okD[OF ok] and av = tht_add_vector[OF assms]
  let ?m = "2 * 2 ^ n - 1 :: nat"
  have same: "tht_get t1 i = tht_get t i" if "i \<le> 2 ^ n - 1" for i
    using av(2) that unfolding le_pred_pow by blast
  have kv: "kv_ok (tht_get t) (2 ^ n - 1) (thashtable_get_key t) n"
    using l(6) unfolding l(9) .
  have b1: "bag (tht_get t1) (2 ^ n - 1) = bag (tht_get t) (2 ^ n - 1)"
    by (rule bag_cong) (rule same)
  have pok: "probe_ok (tht_get t1) (2 ^ n - 1)"
    using kv_okD(1)[OF kv] probe_ok_cong[of "2 ^ n - 1" "tht_get t1" "tht_get t", OF same] by blast
  have bup: "bag (tht_get t1) ?m = bag (tht_get t1) (2 ^ n - 1)"
    by (rule bag_double) (use av(3) in \<open>auto simp: occ_def\<close>)
  obtain e where e: "e \<le> 2 ^ n - 1" "\<not> occ (tht_get t1) e"
    using ex_empty[of "tht_get t1" "2 ^ n - 1"] kv_room[OF kv] b1 by auto
  obtain b where b: "oa_first_free tht_get t1 0 = Some b" "b \<le> e" "\<not> occ (tht_get t1) b"
    using first_free_ok[of 0 e tht_get t1] e(2) by auto
  have bl: "b < 2 ^ n"
    using b(2) e(1) unfolding le_pred_pow by simp
  obtain t2 t3 where mv: "oa_move_range tht_get tht_put ?m b (2 ^ n) t1 = Some t2"
      "oa_move_range tht_get tht_put ?m 0 b t2 = Some t3" "probe_ok (tht_get t3) ?m"
      "bag (tht_get t3) ?m = bag (tht_get t1) ?m" "tht_frame t3 = tht_frame t1" "\<forall>i. tht_valid t3 i \<longleftrightarrow> tht_valid t1 i"
  proof (rule thtb.double_ok[of "2 ^ n" n ?m t1 b])
    show "tht_valid t1 i" if "i \<le> ?m" for i
      using av(1) that by (rule tht_valid_mono)
  qed (use bl b(3) pok av(3) in simp_all)
  show thesis
    by (rule that[OF b(1) mv(1,2,3) _ mv(5)]) (use mv(4,6) bup b1 av(1) l(9) in simp_all)
qed

lemma thashtable_grow_ok:
  assumes ok: "tht_ok t es n" and n: "n < 29" and own: "own_ctx mm L es w"
    and al: "ribs_calloc mm w (tht_mask t + 1) 16 = Some (v, w')"
  obtains t' where "thashtable_grow mm t w = Some (t', w')" "tht_ok t' ((v, 2 ^ n * 16) # es) (Suc n)"
    "own_ctx mm L ((v, 2 ^ n * 16) # es) w'" "tht_map t' = tht_map t" "tht_recs t' = tht_recs t"
    "tht_size t' = tht_size t" "set (tht_live t') = set (tht_live t)"
proof -
  note l = tht_okD[OF ok]
  have m1: "tht_mask t + 1 = 2 ^ n"
    using l(9) by simp
  have "(2 :: nat) ^ n < 2 ^ 31"
    using n by (intro power_strict_increasing) simp_all
  then have p: "mul64 (2 ^ n) 16 = 2 ^ n * 16"
    by (simp add: mul64_small)
  note ca = ribs_calloc_own[OF own _ al, unfolded m1 p]
  have own': "own_ctx mm L ((v, 2 ^ n * 16) # es) w'"
    using ca(2) by simp
  have fresh: "\<And>d. d \<in> set es \<Longrightarrow> apart (v, 16 * 2 ^ n) d"
    using ca(3) by (simp add: mult.commute)
  have n31: "n < 31"
    using n by simp
  define t1 where "t1 = t\<lparr>tht_buckets := (tht_buckets t)[n - 4 := v], tht_ents := zero_entries (tht_ents t) v (2 ^ n * 16)\<rparr>"
  let ?m = "2 * 2 ^ n - 1 :: nat"
  obtain b t2 t3 where rd: "oa_first_free tht_get t1 0 = Some b" "oa_move_range tht_get tht_put ?m b (2 ^ n) t1 = Some t2"
      "oa_move_range tht_get tht_put ?m 0 b t2 = Some t3" "probe_ok (tht_get t3) ?m"
      "bag (tht_get t3) ?m = bag (tht_get t) (tht_mask t)" "tht_frame t3 = tht_frame t1" "tht_valid t3 ?m"
    by (rule tht_redistribute[OF ok n31 fresh t1_def])
  note fr = tht_frameD[OF rd(6)]
  define t' where "t' = t3\<lparr>tht_mask := ?m\<rparr>"
  have idx: "Suc (n - 5) = n - 4"
    using l(1) by simp
  have grow: "thashtable_grow mm t w = Some (t', w')"
    unfolding thashtable_grow_def Let_def m1 grow_masks[OF n] tbits ilog2_pow
    using rd(1-3) al unfolding m1 by (simp add: idx thashtable_move_buckets_range_def t'_def t1_def)
  have get': "tht_get t' = tht_get t3"
    by (simp add: t'_def tht_get_def thashtable_bucket_def fun_eq_iff)
  have key': "thashtable_get_key t' = thashtable_get_key t"
    by (rule tht_get_key_cong) (simp add: t'_def fr t1_def)
  have mm: "tht_mask t' = ?m" "?m = 2 * tht_mask t + 1"
    using m1 by (simp_all add: t'_def)
  note kv = kv_double[OF l(6) rd(4) mm(2) rd(5)]
  have vecs: "vec t' s = vec t1 s" for s
    by (simp add: vec_def t'_def fr)
  have "tht_ok t' ((v, 2 ^ n * 16) # es) (Suc n)"
    unfolding tht_ok_def get' key' mm(1)
  proof (intro conjI allI impI ballI)
    show "vec t' s \<in> set ((v, 2 ^ n * 16) # es)" if "s \<le> Suc n - 5" for s
      using tht_add_vector(4)[OF ok n31 fresh t1_def, of s] that l(1) vecs by simp
    show "tht_valid t' ?m"
      using rd(7) by (simp add: tht_valid_def vec_def t'_def)
    show "\<exists>la. (r, la) \<in> set ((v, 2 ^ n * 16) # es)" if "r \<in> set (live_recs (tht_get t3) ?m)" for r
      using l(8)[of r] that kv(3) by (auto simp: tht_live_def)
  qed (use l n kv(1) rd(5) in \<open>simp_all add: t'_def fr t1_def\<close>)
  moreover have "tht_map t' = tht_map t" "set (tht_live t') = set (tht_live t)"
    using kv by (simp_all add: tht_map_def tht_live_def get' key' mm(1))
  ultimately show thesis
    using that[OF grow _ own'] by (simp add: t'_def fr t1_def)
qed

section \<open>Records\<close>

lemma tht_put_put: "tht_put (tht_put t b x) b y = tht_put t b y"
  by (simp add: tht_put_def thashtable_bucket_def)

lemma tht_get_put_same: "tht_get (tht_put t b x) b = x"
  by (simp add: tht_get_def) (simp add: tht_put_def)

lemma tht_put_size: "(tht_put t b e)\<lparr>tht_size := n\<rparr> = tht_put (t\<lparr>tht_size := n\<rparr>) b e"
  by (simp add: tht_put_def thashtable_bucket_def)

lemma tht_size_put [simp]: "tht_size (tht_put t b e) = tht_size t" "tht_mask (tht_put t b e) = tht_mask t"
  "tht_recs (tht_put t b e) = tht_recs t" "tht_buckets (tht_put t b e) = tht_buckets t"
  by (simp_all add: tht_put_def)

lemma tht_get_upd [simp]:
  "tht_get (t\<lparr>tht_size := n\<rparr>) = tht_get t" "tht_get (t\<lparr>tht_recs := R\<rparr>) = tht_get t" "tht_get (tht_set_rec t a r) = tht_get t"
  "tht_mask (tht_set_rec t a r) = tht_mask t" "tht_size (tht_set_rec t a r) = tht_size t"
  "tht_buckets (tht_set_rec t a r) = tht_buckets t"
  by (simp_all add: tht_get_def thashtable_bucket_def fun_eq_iff tht_set_rec_def)

text \<open>The record a new key and value are written to.\<close>

definition trec :: "hrec \<Rightarrow> byte list \<Rightarrow> byte list \<Rightarrow> hrec" where
  "trec r key val = r\<lparr>r_w0 := length key, r_w1 := length val, r_data := mem_copy (mem_copy (r_data r) 0 key) (length key) val\<rparr>"

lemma trec_key_val:
  assumes "tht_recs t a = trec r key val"
  shows "thashtable_get_key t a = key" "thashtable_get_val t a = val"
  using assms mem_read_copy_prefix[of "r_data r" key val]
  by (simp_all add: thashtable_get_key_def thashtable_get_key_size_def thashtable_get_val_def
      thashtable_get_val_size_def trec_def)

lemma thashtable_new_rec_eq:
  assumes "length key + length val < 2 ^ 31"
    and "ribs_malloc mm w (8 + length key + length val) = Some (a, w')" "a \<noteq> 0"
  shows "thashtable_new_rec mm t w b key val =
    Some (a, tht_set_rec (tht_put t b ((tht_get t b)\<lparr>e_rec := a\<rparr>)) a (trec (tht_recs t a) key val), w')"
proof -
  have "add64 (add64 8 (length key)) (length val) = 8 + length key + length val"
    using assms(1) by (simp add: add64_small)
  moreover have "u32 (length key) = length key" "u32 (length val) = length val"
    using assms(1) by (simp_all add: u32_small)
  ultimately show ?thesis
    using assms(2,3) by (simp add: thashtable_new_rec_def thashtable_alloc_rec_def THASHTABLE_REC_SIZE_def trec_def Let_def)
qed

text \<open>What an insertion promises of the table it leaves: \<open>key\<close> is bound to record \<open>a\<close>, which holds the
  pair, and every other record is as it was.\<close>

definition tht_inserted ::
    "mmap_fun \<Rightarrow> (nat \<times> nat) multiset \<Rightarrow> thashtable \<Rightarrow> byte list \<Rightarrow> byte list \<Rightarrow> nat \<Rightarrow> thashtable \<Rightarrow> ribs \<Rightarrow> bool" where
  "tht_inserted mm L t key val a t' w' \<longleftrightarrow>
     (\<exists>es' n'. tht_ok t' es' n' \<and> own_ctx mm L es' w') \<and> 0 < a \<and> tht_map t' = (tht_map t)(key \<mapsto> a) \<and>
     thashtable_get_key t' a = key \<and> thashtable_get_val t' a = val \<and>
     (\<forall>r\<in>set (tht_live t). tht_recs t' r = tht_recs t r)"

lemma tht_fill:
  assumes ok: "tht_ok t es n" and own: "own_ctx mm L es w" and sz: "tht_size t \<le> tht_mask t div 2"
    and b: "b \<le> tht_mask t" "\<not> occ (tht_get t) b"
    and path: "\<forall>j\<le>tht_mask t. cyc_between (hashcode key AND tht_mask t) j b \<and> j \<noteq> b \<longrightarrow> occ (tht_get t) j"
    and new: "tht_map t key = None" and len: "length key + length val < 2 ^ 31"
    and al: "ribs_malloc mm w (8 + length key + length val) = Some (a, w')" "a \<noteq> 0"
    and t': "t' = (tht_set_rec (tht_put t b \<lparr>e_hashcode = hashcode key, e_rec = a\<rparr>) a x)\<lparr>tht_size := tht_size t + 1\<rparr>"
    and x: "x = trec y key val"
  shows "tht_inserted mm L t key val a t' w'" "tht_size t' = tht_size t + 1"
proof -
  note l = tht_okD[OF ok]
  have pos: "0 < 8 + length key + length val"
    by simp
  have fr: "own_ctx mm L ((a, 8 + length key + length val) # es) w'" "a < 2 ^ 64"
    using ctx.alloc_fresh[OF own pos al] by blast+
  have old: "r \<noteq> a" if "r \<in> set (tht_live t)" for r
    using l(8)[OF that] ctx.alloc_not_old[OF own pos al] by metis
  have val: "tht_valid t i" if "i \<le> tht_mask t" for i
    using l(5) that by (rule tht_valid_mono)
  have get': "tht_get t' i = ((tht_get t)(b := \<lparr>e_hashcode = hashcode key, e_rec = a\<rparr>)) i" if "i \<le> tht_mask t" for i
    using thtb.get_put_upd[of "tht_mask t", OF val b(1) that] by (simp add: t')
  have rec: "tht_recs t' = (tht_recs t)(a := x)"
    by (simp add: t' tht_set_rec_def)
  have kv: "thashtable_get_key t' a = key" "thashtable_get_val t' a = val"
    by (rule trec_key_val[of t' a y]; simp add: rec x)+
  have keys: "thashtable_get_key t' r = thashtable_get_key t r" if "r \<in> set (live_recs (tht_get t) (tht_mask t))" for r
    using old[of r] that by (simp add: thashtable_get_key_def thashtable_get_key_size_def rec tht_live_def)
  have na: "a \<notin> set (live_recs (tht_get t) (tht_mask t))"
    using old by (auto simp: tht_live_def)
  have p: "0 < a"
    using al(2) by simp
  note ki = kv_insert[OF l(6) sz[unfolded l(7)] b path new[unfolded tht_map_def] p fr(2) na get' kv(1) keys]
  have m': "tht_mask t' = tht_mask t" "tht_buckets t' = tht_buckets t"
    by (simp_all add: t')
  have v': "vec t' s = vec t s" for s
    by (simp add: vec_def m')
  have "tht_ok t' ((a, 8 + length key + length val) # es) n"
    unfolding tht_ok_def
  proof (intro conjI allI impI ballI)
    show "\<exists>la. (r, la) \<in> set ((a, 8 + length key + length val) # es)" if "r \<in> set (live_recs (tht_get t') (tht_mask t'))" for r
      using l(8)[of r] that ki(4) by (auto simp: m' tht_live_def)
    show "tht_valid t' (tht_mask t')"
      using l(5) by (simp add: tht_valid_def v' m')
  qed (use l ki in \<open>simp_all add: m' v'\<close>, simp add: t')
  then show "tht_inserted mm L t key val a t' w'"
    unfolding tht_inserted_def using fr(1) p ki(2) kv old rec by (auto simp: tht_map_def m' tht_live_def)
  show "tht_size t' = tht_size t + 1"
    by (simp add: t')
qed

lemma tht_replace:
  assumes ok: "tht_ok t es n" and own: "own_ctx mm L es w"
    and b: "b \<le> tht_mask t" "occ (tht_get t) b" "thashtable_get_key t (e_rec (tht_get t b)) = key"
    and al: "ribs_malloc mm w (8 + length key + length val) = Some (a, w')" "a \<noteq> 0"
    and t': "t' = tht_set_rec (tht_put t b ((tht_get t b)\<lparr>e_rec := a\<rparr>)) a x" and x: "x = trec y key val"
  shows "tht_inserted mm L t key val a t' w'"
proof -
  note l = tht_okD[OF ok]
  have pos: "0 < 8 + length key + length val"
    by simp
  have fr: "own_ctx mm L ((a, 8 + length key + length val) # es) w'" "a < 2 ^ 64"
    using ctx.alloc_fresh[OF own pos al] by blast+
  have old: "r \<noteq> a" if "r \<in> set (tht_live t)" for r
    using l(8)[OF that] ctx.alloc_not_old[OF own pos al] by metis
  have val: "tht_valid t i" if "i \<le> tht_mask t" for i
    using l(5) that by (rule tht_valid_mono)
  have get': "tht_get t' i = ((tht_get t)(b := (tht_get t b)\<lparr>e_rec := a\<rparr>)) i" if "i \<le> tht_mask t" for i
    using thtb.get_put_upd[of "tht_mask t", OF val b(1) that] by (simp add: t')
  have rec: "tht_recs t' = (tht_recs t)(a := x)"
    by (simp add: t' tht_set_rec_def)
  have kv: "thashtable_get_key t' a = key" "thashtable_get_val t' a = val"
    by (rule trec_key_val[of t' a y]; simp add: rec x)+
  have keys: "thashtable_get_key t' r = thashtable_get_key t r" if "r \<in> set (live_recs (tht_get t) (tht_mask t))" for r
    using old[of r] that by (simp add: thashtable_get_key_def thashtable_get_key_size_def rec tht_live_def)
  have na: "a \<notin> set (live_recs (tht_get t) (tht_mask t))"
    using old by (auto simp: tht_live_def)
  have p: "0 < a"
    using al(2) by simp
  note ki = kv_replace[OF l(6) b p fr(2) na get' kv(1) keys]
  have m': "tht_mask t' = tht_mask t" "tht_buckets t' = tht_buckets t" "tht_size t' = tht_size t"
    by (simp_all add: t')
  have v': "vec t' s = vec t s" for s
    by (simp add: vec_def m')
  have "tht_ok t' ((a, 8 + length key + length val) # es) n"
    unfolding tht_ok_def
  proof (intro conjI allI impI ballI)
    show "\<exists>la. (r, la) \<in> set ((a, 8 + length key + length val) # es)" if "r \<in> set (live_recs (tht_get t') (tht_mask t'))" for r
      using l(8)[of r] that ki(4) by (auto simp: m' tht_live_def)
    show "tht_valid t' (tht_mask t')"
      using l(5) by (simp add: tht_valid_def v' m')
  qed (use l ki in \<open>simp_all add: m' v'\<close>)
  then show ?thesis
    unfolding tht_inserted_def using fr(1) p ki(2) kv old rec by (auto simp: tht_map_def m' tht_live_def)
qed

section \<open>Operations keep the table\<close>

definition alloc_ok :: "(nat \<times> ribs) option \<Rightarrow> bool" where
  "alloc_ok res \<longleftrightarrow> (case res of Some (a, w) \<Rightarrow> a \<noteq> 0 | None \<Rightarrow> False)"

text \<open>The context has the memory an insertion of \<open>n\<close> bytes asks for: the record, and before it a new
  vector when the table is half full.\<close>

definition tht_room :: "mmap_fun \<Rightarrow> thashtable \<Rightarrow> ribs \<Rightarrow> nat \<Rightarrow> bool" where
  "tht_room mm t w n \<longleftrightarrow>
     (if tht_size t > tht_mask t div 2 then
        alloc_ok (ribs_calloc mm w (tht_mask t + 1) 16) \<and>
        alloc_ok (ribs_malloc mm (snd (the (ribs_calloc mm w (tht_mask t + 1) 16))) n)
      else alloc_ok (ribs_malloc mm w n))"

lemma tht_check_resize_ok:
  assumes ok: "tht_ok t es n" and own: "own_ctx mm L es w" and sz: "tht_size t < 2 ^ 27" and room: "tht_room mm t w k"
  obtains t1 w1 es1 n1 a w2 where "thashtable_check_resize mm t w = Some (t1, w1)" "tht_ok t1 es1 n1" "own_ctx mm L es1 w1"
    "tht_map t1 = tht_map t" "tht_recs t1 = tht_recs t" "tht_size t1 = tht_size t" "tht_size t1 \<le> tht_mask t1 div 2"
    "set (tht_live t1) = set (tht_live t)" "ribs_malloc mm w1 k = Some (a, w2)" "a \<noteq> 0"
proof (cases "tht_size t > tht_mask t div 2")
  case False
  obtain a w2 where a: "ribs_malloc mm w k = Some (a, w2)" "a \<noteq> 0"
    using room False by (auto simp: tht_room_def alloc_ok_def split: option.splits)
  show thesis
    by (rule that[of t w, OF _ ok own _ _ _ _ _ a]) (use False in \<open>simp_all add: thashtable_check_resize_def\<close>)
next
  case True
  obtain v w1 where v: "ribs_calloc mm w (tht_mask t + 1) 16 = Some (v, w1)" "alloc_ok (ribs_malloc mm w1 k)"
    using room True by (auto simp: tht_room_def alloc_ok_def split: option.splits)
  obtain a w2 where a: "ribs_malloc mm w1 k = Some (a, w2)" "a \<noteq> 0"
    using v(2) by (auto simp: alloc_ok_def split: option.splits)
  note l = tht_okD[OF ok]
  have n29: "n < 29"
  proof (rule ccontr)
    assume "\<not> n < 29"
    then have "(2 :: nat) ^ 29 \<le> 2 ^ n"
      by (intro power_increasing) simp_all
    then have "2 ^ 28 \<le> tht_mask t div 2 + 1"
      unfolding l(9) by simp
    then show False
      using True sz by simp
  qed
  obtain t1 where t1: "thashtable_grow mm t w = Some (t1, w1)" "tht_ok t1 ((v, 2 ^ n * 16) # es) (Suc n)"
      "own_ctx mm L ((v, 2 ^ n * 16) # es) w1" "tht_map t1 = tht_map t" "tht_recs t1 = tht_recs t"
      "tht_size t1 = tht_size t" "set (tht_live t1) = set (tht_live t)"
    by (rule thashtable_grow_ok[OF ok n29 own v(1)])
  have "2 * tht_size t \<le> tht_mask t + 1" "tht_mask t + 1 = 2 ^ n" "tht_mask t1 + 1 = 2 * 2 ^ n"
    using kv_okD(5)[OF l(6)] l(7,9) tht_okD(9)[OF t1(2)] by simp_all
  moreover have "(32 :: nat) \<le> 2 ^ n"
    using power_increasing[OF l(1), of "2 :: nat"] by simp
  ultimately have "tht_size t1 \<le> tht_mask t1 div 2"
    using t1(6) by linarith
  show thesis
    by (rule that[OF _ t1(2,3,4,5,6) \<open>tht_size t1 \<le> tht_mask t1 div 2\<close> t1(7) a])
      (use True t1(1) in \<open>simp add: thashtable_check_resize_def\<close>)
qed

lemma tht_inserted_cong:
  assumes "tht_inserted mm L t1 key val a t' w'" "tht_map t1 = tht_map t" "tht_recs t1 = tht_recs t"
    "set (tht_live t1) = set (tht_live t)"
  shows "tht_inserted mm L t key val a t' w'"
  using assms by (simp add: tht_inserted_def)

lemma tht_occ_key:
  assumes "tht_ok t es n" "tht_map t key = Some r"
  shows "thashtable_get_key t r = key" "r \<in> set (tht_live t)" "r \<noteq> 0"
  using assms(2) kv_map_Some[OF tht_okD(6)[OF assms(1)]] live_recs_nz by (auto simp: tht_map_def tht_live_def)

lemma tht_fill_call:
  assumes ok: "tht_ok t es n" and own: "own_ctx mm L es w" and sz: "tht_size t \<le> tht_mask t div 2" "tht_size t < 2 ^ 27"
    and b: "b \<le> tht_mask t" "\<not> occ (tht_get t) b"
    and path: "\<forall>j\<le>tht_mask t. cyc_between (hashcode key AND tht_mask t) j b \<and> j \<noteq> b \<longrightarrow> occ (tht_get t) j"
    and new: "tht_map t key = None" and len: "length key + length val < 2 ^ 31"
    and al: "ribs_malloc mm w (8 + length key + length val) = Some (a, w')" "a \<noteq> 0"
  shows "\<exists>t'. thashtable_new_rec mm
       ((tht_put t b ((tht_get t b)\<lparr>e_hashcode := hashcode key\<rparr>))\<lparr>tht_size := u32 (tht_size t + 1)\<rparr>) w b key val =
       Some (a, t', w') \<and> tht_inserted mm L t key val a t' w' \<and> tht_size t' = tht_size t + 1"
proof -
  let ?t0 = "(tht_put t b ((tht_get t b)\<lparr>e_hashcode := hashcode key\<rparr>))\<lparr>tht_size := u32 (tht_size t + 1)\<rparr>"
  let ?x = "trec (tht_recs t a) key val"
  let ?t' = "(tht_set_rec (tht_put t b \<lparr>e_hashcode = hashcode key, e_rec = a\<rparr>) a ?x)\<lparr>tht_size := tht_size t + 1\<rparr>"
  have u: "u32 (tht_size t + 1) = tht_size t + 1"
    using sz(2) by (intro u32_small) simp
  have "thashtable_new_rec mm ?t0 w b key val = Some (a, ?t', w')"
    unfolding thashtable_new_rec_eq[OF len al]
    by (simp add: u[simplified] tht_put_size tht_put_put tht_get_put_same ht_entry_upd) (simp add: tht_set_rec_def tht_put_def thashtable_bucket_def)
  then show ?thesis
    using tht_fill[OF ok own sz(1) b path new len al refl refl] by blast
qed

lemma thashtable_create_ok:
  assumes own: "own_ctx mm L es w" and len: "length (tht_buckets t) = 32"
    and al: "ribs_malloc mm w THT_SIZE = Some (a, w1)" "a \<noteq> 0" "ribs_calloc mm w1 32 16 = Some (v, w2)"
  obtains t' where "thashtable_create mm t w = Some (a, t', w2)" "tht_ok t' ((v, 512) # (a, THT_SIZE) # es) 5"
    "own_ctx mm L ((v, 512) # (a, THT_SIZE) # es) w2" "tht_map t' = Map.empty" "tht_size t' = 0" "tht_mask t' = 31"
proof -
  have own1: "own_ctx mm L ((a, THT_SIZE) # es) w1"
    by (rule ctx.alloc_fresh(1)[OF own _ al(1,2)]) (simp add: THT_SIZE_def)
  have m: "mul64 32 16 = 512"
    by (simp add: mul64_small)
  have own2: "own_ctx mm L ((v, 512) # (a, THT_SIZE) # es) w2"
    using ribs_calloc_own(2)[OF own1 _ al(3)] by (simp add: m)
  define t' where "t' = t\<lparr>tht_mask := 31, tht_size := 0, tht_buckets := (tht_buckets t)[0 := v],
      tht_ents := zero_entries (tht_ents t) v 512\<rparr>"
  have cr: "thashtable_create mm t w = Some (a, t', w2)"
    using al by (simp add: thashtable_create_def t'_def)
  have b0: "tht_buckets t' ! 0 = v"
    using len by (simp add: t'_def)
  have "thashtable_bucket t' b = v + 16 * b" if "b \<le> 31" for b
    using that b0 by (simp add: thashtable_bucket_def)
  then have e: "\<not> occ (tht_get t') b" if "b \<le> 31" for b
    using that by (simp add: occ_def tht_get_def) (simp add: t'_def zero_entries_def)
  have bag: "bag (tht_get t') 31 = {#}"
  proof -
    have "{i. i \<le> 31 \<and> occ (tht_get t') i} = {}"
      using e by blast
    then have "size (bag (tht_get t') 31) = 0"
      unfolding size_bag by (simp only: card.empty)
    then show ?thesis
      by (simp only: size_eq_0_iff_empty)
  qed
  have kv: "kv_ok (tht_get t') 31 f 5" for f
    using e bag by (intro kv_okI) (auto simp: probe_ok_def recs_ok_def)
  have mk: "tht_mask t' = 31" "tht_size t' = 0"
    by (simp_all add: t'_def)
  have live: "set (live_recs (tht_get t') 31) = {}"
    by (simp add: set_live_recs bag)
  have "tht_ok t' ((v, 512) # (a, THT_SIZE) # es) 5"
    using kv live bag b0 len by (simp add: tht_ok_def mk) (simp add: tht_valid_def vslot_def vec_def vsize_def t'_def)
  moreover have "tht_map t' = Map.empty"
    using live by (auto simp: tht_map_def mk kv_map_def fun_eq_iff)
  ultimately show thesis
    using that[OF cr _ own2] mk by simp
qed


lemma ribs_malloc_room:
  assumes "n \<le> ma_avail (ctx_memalloc (rb_ctx w (current_ctx w)))" "0 < n"
  shows "ribs_malloc mm w n = Some (ma_mem (ctx_memalloc (rb_ctx w (current_ctx w))),
    put_memalloc w (current_ctx w) (memalloc_seek (ctx_memalloc (rb_ctx w (current_ctx w))) n) (rb_heap w))"
  using assms by (simp add: ribs_malloc_def ribs_malloc2_def on_memalloc_def memalloc_alloc_room)

text \<open>A table created in a context with room in its block.\<close>

definition tht_example :: thashtable where
  "tht_example = \<lparr>tht_mask = 0, tht_size = 0, tht_buckets = replicate 32 0,
     tht_ents = (\<lambda>_. \<lparr>e_hashcode = 0, e_rec = 0\<rparr>), tht_recs = (\<lambda>_. \<lparr>r_w0 = 0, r_w1 = 0, r_data = (\<lambda>_. 0)\<rparr>)\<rparr>"

lemma tht_example_created:
  obtains t w es where "thashtable_create bump_mmap tht_example ribs_example = Some (65562, t, w)" "tht_ok t es 5"
    "own_ctx bump_mmap {#(4096, 4096)#} es w" "tht_map t = Map.empty" "tht_size t = 0" "tht_mask t = 31"
    "0 < ma_mem (ctx_memalloc (rb_ctx w (current_ctx w)))" "1000 \<le> ma_avail (ctx_memalloc (rb_ctx w (current_ctx w)))"
proof -
  let ?L = "{#(4096, 4096)#} :: (nat \<times> nat) multiset"
  have own: "own_ctx bump_mmap ?L [(65560, 2)] ribs_example"
    using ma_ok_example2 by (auto simp: own_ctx_def ribs_example_def)
  obtain w1 where w1: "ribs_malloc bump_mmap ribs_example THT_SIZE = Some (65562, w1)"
      "ma_mem (ctx_memalloc (rb_ctx w1 (current_ctx w1))) = 65826"
      "ma_avail (ctx_memalloc (rb_ctx w1 (current_ctx w1))) = 130782"
    using ribs_malloc_room[of THT_SIZE ribs_example bump_mmap] by (simp add: ribs_example_def ma_example2_def
        THT_SIZE_def) (simp add: put_memalloc_def memalloc_seek_def add64_small sub64_small)
  have m: "mul64 32 16 = 512"
    by (simp add: mul64_small)
  obtain w2 where w2: "ribs_calloc bump_mmap w1 32 16 = Some (65826, w2)"
      "ma_mem (ctx_memalloc (rb_ctx w2 (current_ctx w2))) = 66338"
      "ma_avail (ctx_memalloc (rb_ctx w2 (current_ctx w2))) = 130270"
    using w1(2,3) ribs_malloc_room[of 512 w1 bump_mmap]
    by (simp add: ribs_calloc_def ribs_calloc2_def m ribs_malloc_def Let_def)
      (simp add: put_memalloc_def memalloc_seek_def add64_small sub64_small)
  have len: "length (tht_buckets tht_example) = 32"
    by (simp add: tht_example_def)
  show thesis
    by (rule thashtable_create_ok[OF own len w1(1) _ w2(1)]) (use that w2 in auto)
qed


text \<open>C29. \<^verbatim>\<open>thashtable_lookup\<close> always ends with the record bound to the key or 0, and \<^verbatim>\<open>thashtable_remove\<close>
  always ends, returns the same record and unbinds exactly that key: the compaction of the
  cluster behind the emptied bucket keeps every other key reachable.\<close>

theorem thashtable_remove_correct:
  assumes "tht_ok t es n"
  shows "thashtable_lookup t key = Some (case tht_map t key of Some r \<Rightarrow> r | None \<Rightarrow> 0) \<and>
    (\<exists>t'. thashtable_remove t key = Some (case tht_map t key of Some r \<Rightarrow> r | None \<Rightarrow> 0, t') \<and> tht_ok t' es n \<and>
       tht_map t' = (tht_map t)(key := None) \<and> tht_recs t' = tht_recs t)"
proof -
  obtain b where b: "tht_search t key = Some b" "b \<le> tht_mask t"
    "\<forall>r. tht_map t key = Some r \<longrightarrow> occ (tht_get t) b \<and> e_rec (tht_get t b) = r \<and> e_hashcode (tht_get t b) = hashcode key"
    "tht_map t key = None \<longrightarrow> \<not> occ (tht_get t) b \<and>
       (\<forall>j\<le>tht_mask t. cyc_between (hashcode key AND tht_mask t) j b \<and> j \<noteq> b \<longrightarrow> occ (tht_get t) j)"
    by (rule tht_search_ok[OF assms])
  note l = tht_okD[OF assms]
  show ?thesis
  proof (cases "tht_map t key")
    case None
    then have "(tht_map t)(key := None) = tht_map t"
      by auto
    then show ?thesis
      using None b(1,4) assms by (auto simp: thashtable_lookup_def thashtable_remove_def occ_def)
  next
    case (Some r)
    have o: "occ (tht_get t) b" "e_rec (tht_get t b) = r" "r \<noteq> 0" "thashtable_get_key t r = key"
      using Some b(3) tht_occ_key[OF assms Some] by auto
    let ?s = "t\<lparr>tht_size := tht_size t - 1\<rparr>"
    have v: "tht_valid ?s i" if "i \<le> tht_mask t" for i
      using tht_valid_mono[OF l(5) that] by (simp add: tht_valid_def vec_def)
    obtain t' where d: "oa_fix_chain_down tht_get tht_put (tht_mask t) (Open_Addressing.nxt (tht_mask t) b)
        (tht_put ?s b ((tht_get ?s b)\<lparr>e_rec := 0\<rparr>)) = Some t'" "probe_ok (tht_get t') (tht_mask t)"
        "bag (tht_get t) (tht_mask t) = add_mset (e_hashcode (tht_get t b), r) (bag (tht_get t') (tht_mask t))"
        "tht_frame t' = tht_frame ?s" "\<And>i. tht_valid t' i \<longleftrightarrow> tht_valid ?s i"
      using thtb.delete_ok[OF l(9) v, of b] kv_okD(1)[OF l(6)] kv_room[OF l(6)] b(2) o(1,2) by auto
    note fr = tht_frameD[OF d(4)]
    note kv = kv_remove[OF l(6) d(2,3) o(4)]
    have key': "thashtable_get_key t' = thashtable_get_key t"
      by (rule tht_get_key_cong) (simp add: fr)
    have "u32 (tht_size t + (2 ^ 32 - 1)) = tht_size t - 1"
    proof (rule u32_pred)
      show "0 < tht_size t"
        using l(7) d(3) by simp
      have "(2 :: nat) ^ n \<le> 2 ^ 31"
        using l(2) by (intro power_increasing) simp_all
      then show "tht_size t < 2 ^ 32"
        using kv_okD(5)[OF l(6)] l(7,9) by simp
    qed
    then have call: "thashtable_remove t key = Some (r, t')"
      using b(1) o d(1) by (simp add: thashtable_remove_def thashtable_fix_chain_down_def tht_put_size)
    have "tht_ok t' es n"
      unfolding tht_ok_def
    proof (intro conjI allI impI ballI)
      show "\<exists>la. (x, la) \<in> set es" if "x \<in> set (live_recs (tht_get t') (tht_mask t'))" for x
        using l(8)[of x] that kv(4) by (auto simp: tht_live_def fr)
      show "tht_valid t' (tht_mask t')"
        using d(5) v[of "tht_mask t"] by (simp add: fr)
      show "vec t' s \<in> set es" if "s \<le> n - 5" for s
        using l(4)[OF that] by (simp add: vec_def fr)
      show "tht_size t' = size (bag (tht_get t') (tht_mask t'))"
        using kv(3) l(7) fr by simp
    qed (use l(1-3) kv(1) fr key' in simp_all)
    moreover have "tht_map t' = (tht_map t)(key := None)"
      using kv(2) by (simp add: tht_map_def fr key')
    ultimately show ?thesis
      using call Some b(1) o fr by (simp add: thashtable_lookup_def)
  qed
qed

theorem thashtable_remove_correct_witness:
  "\<exists>t w. thashtable_create bump_mmap tht_example ribs_example = Some (65562, t, w) \<and>
    thashtable_lookup t [97] = Some 0 \<and> (\<exists>t'. thashtable_remove t [97] = Some (0, t') \<and> tht_map t' = Map.empty)"
proof -
  obtain t w es where t: "thashtable_create bump_mmap tht_example ribs_example = Some (65562, t, w)" "tht_ok t es 5"
    "own_ctx bump_mmap {#(4096, 4096)#} es w" "tht_map t = Map.empty"
    by (rule tht_example_created) blast
  then show ?thesis
    using thashtable_remove_correct[OF t(2), of "[97]"] by auto
qed

end
