(* ===== verification/Pqueue.thy ===== *)
theory Pqueue
  imports Vmfile "HOL-Library.Multiset"
begin

text \<open>
  \<^verbatim>\<open>src/heap.c\<close> and \<^verbatim>\<open>src/_heap.c\<close>: a binary heap of user data, largest on top.  The data stays where
  it was put; the array \<open>ofs\<close> of data indices is what is kept in heap order, and each data entry
  has a \<open>key\<close> meant to be its position in that array.  The two buffers are the fields \<open>h_ofs\<close>, \<open>h_key\<close>
  and \<open>h_user\<close>, meaningful below \<open>h_max_size\<close>.
\<close>

section \<open>State and operations\<close>

record pqueue =
  h_ofs :: "nat \<Rightarrow> nat"
  h_key :: "nat \<Rightarrow> nat"
  h_user :: "nat \<Rightarrow> byte list"
  h_el_size :: nat
  h_max_size :: nat
  h_num_items :: nat
  h_compar :: "byte list \<Rightarrow> byte list \<Rightarrow> int"

definition HEAP_DEFAULT_INITIAL_SIZE :: nat where
  "HEAP_DEFAULT_INITIAL_SIZE = 128"

text \<open>The \<^verbatim>\<open>uint32_t\<close> value of -1.\<close>

definition NO_KEY :: nat where
  "NO_KEY = 2 ^ 32 - 1"

text \<open>The \<^verbatim>\<open>int\<close> a pointer leads to: four bytes, lowest first, in two's complement.\<close>

definition load_int :: "byte list \<Rightarrow> int" where
  "load_int bs =
     (let v = foldr (\<lambda>b acc. uint b + 256 * acc) (take 4 bs) 0 in if v < 2 ^ 31 then v else v - 2 ^ 32)"

definition heap_int_compar :: "byte list \<Rightarrow> byte list \<Rightarrow> int" where
  "heap_int_compar a b =
     (let aa = load_int a; bb = load_int b in if aa < bb then -1 else if bb < aa then 1 else 0)"

definition h_data :: "pqueue \<Rightarrow> nat \<Rightarrow> byte list" where
  "h_data h i = h_user h (h_ofs h i)"

definition heap_top :: "pqueue \<Rightarrow> byte list" where
  "heap_top h = h_user h (h_ofs h 0)"

partial_function (option) heap_fix_down :: "nat \<Rightarrow> pqueue \<Rightarrow> pqueue option" where
  "heap_fix_down i h =
     (let child = u32 (u32 (2 * i) + 1)
      in if child < h_num_items h then
           (let child = (if child + 1 < h_num_items h \<and> h_compar h (h_data h child) (h_data h (child + 1)) < 0
                         then child + 1 else child);
                parent_ofs = h_ofs h i;
                child_ofs = h_ofs h child
            in if h_compar h (h_user h parent_ofs) (h_user h child_ofs) < 0 then
                 heap_fix_down child
                   (h\<lparr>h_key := (h_key h)(child_ofs := parent_ofs, parent_ofs := child_ofs),
                      h_ofs := (h_ofs h)(child := parent_ofs, i := child_ofs)\<rparr>)
               else Some h)
         else Some h)"

definition heap_remove_item :: "nat \<Rightarrow> pqueue \<Rightarrow> pqueue option" where
  "heap_remove_item index h =
     (if index < h_num_items h then
        (let h = h\<lparr>h_num_items := h_num_items h - 1\<rparr>;
             o' = h_ofs h index;
             h = h\<lparr>h_key := (h_key h)(o' := NO_KEY)\<rparr>;
             h = h\<lparr>h_ofs := (h_ofs h)(index := h_ofs h (h_num_items h))\<rparr>;
             h = h\<lparr>h_key := (h_key h)(h_ofs h index := index)\<rparr>;
             h = h\<lparr>h_ofs := (h_ofs h)(h_num_items h := o')\<rparr>
         in heap_fix_down index h)
      else Some h)"

definition heap_remove :: "nat \<Rightarrow> pqueue \<Rightarrow> pqueue option" where
  "heap_remove loc h = heap_remove_item (h_key h loc) h"

definition heap_full :: "pqueue \<Rightarrow> bool" where
  "heap_full h \<longleftrightarrow> h_num_items h = h_max_size h"

definition heap_empty :: "pqueue \<Rightarrow> bool" where
  "heap_empty h \<longleftrightarrow> 0 = h_num_items h"

text \<open>The loop runs from \<open>i\<close> down to 0.\<close>

fun heap_build_loop :: "nat \<Rightarrow> pqueue \<Rightarrow> pqueue option" where
  "heap_build_loop 0 h = heap_fix_down 0 h"
| "heap_build_loop (Suc i) h = do { h \<leftarrow> heap_fix_down (Suc i) h; heap_build_loop i h }"

definition heap_build :: "pqueue \<Rightarrow> pqueue option" where
  "heap_build h = heap_build_loop (h_num_items h div 2) h"

definition heap_remove_top :: "pqueue \<Rightarrow> pqueue option" where
  "heap_remove_top h =
     (if h_num_items h = 0 then Some h
      else
        (let h = h\<lparr>h_num_items := h_num_items h - 1\<rparr>;
             first = h_ofs h 0;
             last = h_ofs h (h_num_items h);
             h = h\<lparr>h_key := (h_key h)(first := u32 (h_key h first + (2 ^ 32 - 1)))\<rparr>;
             h = h\<lparr>h_ofs := (h_ofs h)(0 := last)\<rparr>;
             h = h\<lparr>h_ofs := (h_ofs h)(h_num_items h := first)\<rparr>;
             h = h\<lparr>h_key := (h_key h)(last := 0)\<rparr>
         in heap_fix_down 0 h))"

text \<open>\<open>bufs\<close> are the results of \<^verbatim>\<open>vmbuf_init\<close> for the two buffers; \<open>mem\<close> is what their memory holds.\<close>

definition heap_init ::
    "bool \<Rightarrow> pqueue \<Rightarrow> nat \<Rightarrow> nat \<Rightarrow> (byte list \<Rightarrow> byte list \<Rightarrow> int) option \<Rightarrow> int \<times> pqueue" where
  "heap_init bufs mem initial_size el_size compar =
     (if el_size = 0 then (-1, mem)
      else
        (let initial_size = (if initial_size = 0 then HEAP_DEFAULT_INITIAL_SIZE else initial_size);
             h = mem\<lparr>h_el_size := u32 (el_size + 4),
                     h_compar := (case compar of Some f \<Rightarrow> f | None \<Rightarrow> heap_int_compar),
                     h_num_items := 0, h_max_size := u32 initial_size\<rparr>
         in if \<not> bufs then (-1, h)
            else (0, h\<lparr>h_ofs := (\<lambda>i. if i < initial_size then i else h_ofs h i),
                       h_key := (\<lambda>i. if i < initial_size then NO_KEY else h_key h i)\<rparr>)))"

text \<open>\<open>room\<close> is whether both buffers could be extended; otherwise the new entries are written outside
  them.\<close>

definition heap_grow :: "bool \<Rightarrow> pqueue \<Rightarrow> pqueue option" where
  "heap_grow room h =
     (if heap_full h then
        (let new_size = u32 (2 * h_max_size h);
             new = (\<lambda>i. h_max_size h \<le> i \<and> i < new_size)
         in if \<not> room then None
            else Some (h\<lparr>h_ofs := (\<lambda>i. if new i then i else h_ofs h i),
                         h_key := (\<lambda>i. if new i then NO_KEY else h_key h i), h_max_size := new_size\<rparr>))
      else Some h)"

function heap_sift_up :: "byte list \<Rightarrow> nat \<Rightarrow> pqueue \<Rightarrow> nat \<times> pqueue" where
  "heap_sift_up user_data pos h =
     (if 0 < pos then
        (let parent = (pos - 1) div 2
         in if h_compar h (h_data h parent) user_data < 0 then
              (let ofs_pos = h_ofs h pos; ofs_parent = h_ofs h parent
               in heap_sift_up user_data parent
                    (h\<lparr>h_key := (h_key h)(ofs_pos := ofs_parent, ofs_parent := ofs_pos),
                       h_ofs := (h_ofs h)(pos := ofs_parent, parent := ofs_pos)\<rparr>))
            else (pos, h))
      else (pos, h))"
  by pat_completeness auto
termination
  by (relation "measure (\<lambda>(user_data, pos, h). pos)") auto

declare heap_sift_up.simps [simp del]

definition heap_insert :: "bool \<Rightarrow> byte list \<Rightarrow> pqueue \<Rightarrow> (nat \<times> pqueue) option" where
  "heap_insert room user_data h = do {
     h \<leftarrow> heap_grow room h;
     let (pos, h) = heap_sift_up user_data (h_num_items h) h;
     let loc = h_ofs h pos;
     let h = h\<lparr>h_key := (h_key h)(loc := pos)\<rparr>;
     let h = h\<lparr>h_user := (h_user h)(loc := take (h_el_size h - 4) user_data)\<rparr>;
     Some (loc, h\<lparr>h_num_items := u32 (h_num_items h + 1)\<rparr>) }"

section \<open>Heap order\<close>

text \<open>What a comparison function must satisfy: negative is a strict weak order.\<close>

locale comparison =
  fixes c :: "'a \<Rightarrow> 'a \<Rightarrow> int"
  assumes asym: "c a b < 0 \<Longrightarrow> \<not> c b a < 0"
    and ge_trans: "\<not> c a b < 0 \<Longrightarrow> \<not> c b d < 0 \<Longrightarrow> \<not> c a d < 0"

interpretation int_compar: comparison heap_int_compar
  by unfold_locales (auto simp: heap_int_compar_def Let_def split: if_splits)

definition par :: "nat \<Rightarrow> nat" where
  "par i = (i - 1) div 2"

text \<open>The first \<open>n\<close> values are in heap order below every position from \<open>k\<close> on.\<close>

definition ordered :: "('a \<Rightarrow> 'a \<Rightarrow> int) \<Rightarrow> (nat \<Rightarrow> 'a) \<Rightarrow> nat \<Rightarrow> nat \<Rightarrow> bool" where
  "ordered c V n k \<longleftrightarrow> (\<forall>i<n. 0 < i \<and> k \<le> par i \<longrightarrow> \<not> c (V (par i)) (V i) < 0)"

text \<open>In order but for position \<open>p\<close>, which may be too large for its parent, or too small for its
  children.\<close>

definition ordered_up :: "('a \<Rightarrow> 'a \<Rightarrow> int) \<Rightarrow> (nat \<Rightarrow> 'a) \<Rightarrow> nat \<Rightarrow> nat \<Rightarrow> bool" where
  "ordered_up c V n p \<longleftrightarrow> (\<forall>i<n. 0 < i \<and> i \<noteq> p \<longrightarrow> \<not> c (V (par i)) (V i) < 0) \<and>
     (\<forall>i<n. 0 < i \<and> par i = p \<and> 0 < p \<longrightarrow> \<not> c (V (par p)) (V i) < 0)"

definition ordered_down :: "('a \<Rightarrow> 'a \<Rightarrow> int) \<Rightarrow> (nat \<Rightarrow> 'a) \<Rightarrow> nat \<Rightarrow> nat \<Rightarrow> nat \<Rightarrow> bool" where
  "ordered_down c V n k p \<longleftrightarrow>
     (\<forall>i<n. 0 < i \<and> k \<le> par i \<and> par i \<noteq> p \<longrightarrow> \<not> c (V (par i)) (V i) < 0) \<and>
     (\<forall>i<n. 0 < i \<and> par i = p \<and> 0 < p \<and> k \<le> par p \<longrightarrow> \<not> c (V (par p)) (V i) < 0)"

lemma par_lt: "0 < i \<Longrightarrow> par i < i"
  by (simp add: par_def)

lemma par_child: "0 < i \<Longrightarrow> par i = p \<longleftrightarrow> i = 2 * p + 1 \<or> i = 2 * p + 2"
  by (auto simp: par_def)

context comparison
begin

lemma up_step:
  assumes "ordered_up c V n p" "0 < p" "p < n" "c (V (par p)) (V p) < 0"
  shows "ordered_up c (V(p := V (par p), par p := V p)) n (par p)"
proof -
  let ?q = "par p" and ?W = "V(p := V (par p), par p := V p)"
  have q: "?q < p"
    by (rule par_lt[OF assms(2)])
  have old: "\<not> c (V (par i)) (V i) < 0" if "i < n" "0 < i" "i \<noteq> p" for i
    using assms(1) that by (simp add: ordered_up_def)
  have up: "\<not> c (V ?q) (V i) < 0" if "i < n" "0 < i" "par i = p" for i
    using assms(1,2) that by (simp add: ordered_up_def)
  have 1: "\<not> c (?W (par i)) (?W i) < 0" if i: "i < n" "0 < i" "i \<noteq> ?q" for i
  proof -
    consider "i = p" | "i \<noteq> p" "par i = p" | "i \<noteq> p" "par i = ?q" "par i \<noteq> p" | "i \<noteq> p" "par i \<noteq> p" "par i \<noteq> ?q"
      by blast
    then show ?thesis
    proof cases
      case 1
      then show ?thesis
        using asym[OF assms(4)] q by simp
    next
      case 2
      then show ?thesis
        using up[of i] i q by simp
    next
      case 3
      then show ?thesis
        using ge_trans[OF asym[OF assms(4)] old[of i, unfolded 3(2)]] i q by simp
    next
      case 4
      then show ?thesis
        using old[of i] i by simp
    qed
  qed
  have 2: "\<not> c (?W (par ?q)) (?W i) < 0" if i: "i < n" "0 < i" "par i = ?q" "0 < ?q" for i
  proof -
    have g: "\<not> c (V (par ?q)) (V ?q) < 0" "par ?q < ?q"
      using old[of ?q] that(4) q assms(3) par_lt[of ?q] by simp_all
    then show ?thesis
      using i q old[of i, unfolded i(3)] ge_trans[OF g(1)] par_lt[of i] by (cases "i = p") auto
  qed
  show ?thesis
    unfolding ordered_up_def using 1 2 by blast
qed

lemma up_done:
  assumes "ordered_up c V n p" "p = 0 \<or> \<not> c (V (par p)) (V p) < 0"
  shows "ordered c V n 0"
  using assms by (auto simp: ordered_up_def ordered_def)

lemma down_step:
  assumes o: "ordered_down c V n k p" and ch: "ch < n" "0 < ch" "par ch = p" and k: "k \<le> p"
    and lt: "c (V p) (V ch) < 0" and best: "\<And>i. i < n \<Longrightarrow> 0 < i \<Longrightarrow> par i = p \<Longrightarrow> \<not> c (V ch) (V i) < 0"
  shows "ordered_down c (V(ch := V p, p := V ch)) n k ch"
proof -
  let ?W = "V(ch := V p, p := V ch)"
  have q: "p < ch"
    using par_lt[OF ch(2)] ch(3) by simp
  have old: "\<not> c (V (par i)) (V i) < 0" if "i < n" "0 < i" "k \<le> par i" "par i \<noteq> p" for i
    using o that by (simp add: ordered_down_def)
  have up: "\<not> c (V (par p)) (V i) < 0" if "i < n" "0 < i" "par i = p" "0 < p" "k \<le> par p" for i
    using o that by (simp add: ordered_down_def)
  have 1: "\<not> c (?W (par i)) (?W i) < 0" if i: "i < n" "0 < i" "k \<le> par i" "par i \<noteq> ch" for i
  proof (cases "par i = p")
    case True
    then show ?thesis
      using best[of i] asym[OF lt] i q par_lt[of i] by (cases "i = ch") auto
  next
    case False
    show ?thesis
    proof (cases "i = p")
      case True
      then show ?thesis
        using up[OF ch] i q par_lt[of p] by auto
    next
      case False
      then show ?thesis
        using old[of i] i \<open>par i \<noteq> p\<close> ch(3) by auto
    qed
  qed
  have 2: "\<not> c (?W (par ch)) (?W i) < 0" if i: "i < n" "0 < i" "par i = ch" "0 < ch" for i
    using old[of i] i q k ch(3) par_lt[of i] by auto
  show ?thesis
    unfolding ordered_down_def using 1 2 by blast
qed

lemma down_done:
  assumes "ordered_down c V n k p" "\<And>i. i < n \<Longrightarrow> 0 < i \<Longrightarrow> par i = p \<Longrightarrow> \<not> c (V p) (V i) < 0"
  shows "ordered c V n k"
  using assms by (auto simp: ordered_down_def ordered_def)

lemma refl_ge: "\<not> c a a < 0"
  using asym[of a a] by blast

lemma top_max:
  assumes "ordered c V n 0"
  shows "i < n \<Longrightarrow> \<not> c (V 0) (V i) < 0"
proof (induction i rule: less_induct)
  case (less i)
  show ?case
  proof (cases "i = 0")
    case False
    then have "\<not> c (V 0) (V (par i)) < 0" "\<not> c (V (par i)) (V i) < 0"
      using less par_lt[of i] assms by (simp_all add: ordered_def)
    then show ?thesis
      by (rule ge_trans)
  qed (simp add: refl_ge)
qed

end

section \<open>The array of positions\<close>

text \<open>\<open>ofs\<close> is a permutation of the data slots; the live data are the slots of the first
  \<open>num_items\<close> positions.\<close>

definition pq_shape :: "pqueue \<Rightarrow> bool" where
  "pq_shape h \<longleftrightarrow> 0 < h_max_size h \<and> h_max_size h < 2 ^ 31 \<and> h_num_items h \<le> h_max_size h \<and>
     inj_on (h_ofs h) {..<h_max_size h} \<and> (\<forall>i<h_max_size h. h_ofs h i < h_max_size h)"

definition pq_items :: "pqueue \<Rightarrow> byte list multiset" where
  "pq_items h = mset (map (h_data h) [0..<h_num_items h])"

definition pq_ok :: "pqueue \<Rightarrow> bool" where
  "pq_ok h \<longleftrightarrow> pq_shape h \<and> ordered (h_compar h) (h_data h) (h_num_items h) 0"

text \<open>What moving entries about leaves alone.\<close>

definition pq_moved :: "pqueue \<Rightarrow> pqueue \<Rightarrow> bool" where
  "pq_moved h h' \<longleftrightarrow> h_user h' = h_user h \<and> h_num_items h' = h_num_items h \<and> h_max_size h' = h_max_size h \<and>
     h_compar h' = h_compar h \<and> h_el_size h' = h_el_size h"

lemma pq_moved_refl [simp]: "pq_moved h h"
  by (simp add: pq_moved_def)

lemma pq_moved_trans: "pq_moved h h' \<Longrightarrow> pq_moved h' h'' \<Longrightarrow> pq_moved h h''"
  by (simp add: pq_moved_def)

lemma map_fun_upd_upt: "map (V(i := x)) [0..<n] = (map V [0..<n])[i := x]"
  by (rule nth_equalityI) (auto simp: nth_list_update)

lemma mset_swap_upt:
  assumes "i < n" "j < n"
  shows "mset (map (V(i := V j, j := V i)) [0..<n]) = mset (map V [0..<n])"
  using mset_swap[of j "map V [0..<n]" i] assms by (simp add: map_fun_upd_upt)

lemma mset_map_upt_cong:
  assumes "\<And>i. i < n \<Longrightarrow> V i = W i"
  shows "mset (map V [0..<n]) = mset (map W [0..<n])"
  using assms by (intro arg_cong[where f = mset] map_cong) auto

lemma inj_on_swap:
  assumes "inj_on f A" "i \<in> A" "j \<in> A"
  shows "inj_on (f(i := f j, j := f i)) A"
  using assms by (auto simp: inj_on_def)

lemma pq_shape_swap:
  assumes "pq_shape h" "i < h_max_size h" "j < h_max_size h"
  shows "pq_shape (h\<lparr>h_key := k, h_ofs := (h_ofs h)(i := h_ofs h j, j := h_ofs h i)\<rparr>)"
  using assms inj_on_swap[of "h_ofs h" "{..<h_max_size h}" i j] by (auto simp: pq_shape_def)

lemma h_data_swap:
  "h_data (h\<lparr>h_key := k, h_ofs := (h_ofs h)(i := h_ofs h j, j := h_ofs h i)\<rparr>) =
     (h_data h)(i := h_data h j, j := h_data h i)"
  by (auto simp: h_data_def fun_eq_iff)

section \<open>Sifting\<close>

definition fixed_down :: "nat \<Rightarrow> pqueue \<Rightarrow> pqueue \<Rightarrow> bool" where
  "fixed_down k h h' \<longleftrightarrow> pq_shape h' \<and> pq_moved h h' \<and> pq_items h' = pq_items h \<and>
     ordered (h_compar h) (h_data h') (h_num_items h) k"

lemma larger_child:
  assumes "comparison c" "2 * i + 1 < n"
    and "ch = (if 2 * i + 2 < n \<and> c (V (2 * i + 1)) (V (2 * i + 2)) < 0 then 2 * i + 2 else 2 * i + 1)"
  shows "ch < n" "0 < ch" "par ch = i" "j < n \<Longrightarrow> 0 < j \<Longrightarrow> par j = i \<Longrightarrow> \<not> c (V ch) (V j) < 0"
  using assms(2,3) comparison.asym[OF assms(1)] comparison.refl_ge[OF assms(1)]
  by (auto simp: par_child split: if_splits)

lemma heap_fix_down_ok:
  assumes c: "comparison (h_compar h)"
  shows "pq_shape h \<Longrightarrow> k \<le> i \<Longrightarrow> i < 2 ^ 31 \<Longrightarrow> ordered_down (h_compar h) (h_data h) (h_num_items h) k i \<Longrightarrow>
     \<exists>h'. heap_fix_down i h = Some h' \<and> fixed_down k h h'"
  using c
proof (induction "h_num_items h - i" arbitrary: i h rule: less_induct)
  case less
  let ?n = "h_num_items h" and ?c = "h_compar h" and ?V = "h_data h"
  have w: "u32 (Suc (u32 (2 * i))) = Suc (2 * i)"
    using less.prems(3) by (simp add: u32_def)
  show ?case
  proof (cases "2 * i + 1 < ?n")
    case False
    then have "ordered ?c ?V ?n k"
      using comparison.down_done[OF less.prems(5,4)] by (simp add: par_child)
    then show ?thesis
      using False less.prems(1) w by (subst heap_fix_down.simps) (simp add: fixed_down_def Let_def)
  next
    case True
    define ch where "ch = (if 2 * i + 2 < ?n \<and> ?c (?V (2 * i + 1)) (?V (2 * i + 2)) < 0 then 2 * i + 2 else 2 * i + 1)"
    note lc = larger_child[where V = ?V, OF less.prems(5) True ch_def]
    let ?h = "h\<lparr>h_key := (h_key h)(h_ofs h ch := h_ofs h i, h_ofs h i := h_ofs h ch),
                h_ofs := (h_ofs h)(ch := h_ofs h i, i := h_ofs h ch)\<rparr>"
    have step: "heap_fix_down i h = (if ?c (?V i) (?V ch) < 0 then heap_fix_down ch ?h else Some h)"
      using True by (subst heap_fix_down.simps) (simp add: w Let_def ch_def h_data_def)
    have iv: "i < ch" "ch < h_max_size h"
      using par_lt[OF lc(2)] lc less.prems(1) by (auto simp: pq_shape_def)
    show ?thesis
    proof (cases "?c (?V i) (?V ch) < 0")
      case False
      have "ordered ?c ?V ?n k"
        using comparison.down_done[OF less.prems(5,4)] comparison.ge_trans[OF less.prems(5) False] lc(4) by blast
      then show ?thesis
        using False less.prems(1) step by (simp add: fixed_down_def)
    next
      case lt: True
      have sh: "pq_shape ?h"
        by (rule pq_shape_swap[OF less.prems(1)]) (use iv in simp_all)
      have "ordered_down ?c (h_data ?h) ?n k ch"
        unfolding h_data_swap by (rule comparison.down_step[OF less.prems(5,4) lc(1-3) less.prems(2) lt lc(4)])
      then have "\<exists>h'. heap_fix_down ch ?h = Some h' \<and> fixed_down k ?h h'"
        using iv lc(1) less.prems(1,2,5) by (intro less.hyps sh) (auto simp: pq_shape_def)
      then obtain h' where h': "heap_fix_down ch ?h = Some h'" "fixed_down k ?h h'"
        by blast
      moreover have "pq_items ?h = pq_items h"
        unfolding pq_items_def h_data_swap using mset_swap_upt[of ch ?n i ?V] iv lc(1) by simp
      ultimately show ?thesis
        using lt step by (auto simp: fixed_down_def pq_moved_def)
    qed
  qed
qed

definition sifted :: "byte list \<Rightarrow> pqueue \<Rightarrow> nat \<Rightarrow> pqueue \<Rightarrow> nat \<Rightarrow> bool" where
  "sifted x h pos h' pos' \<longleftrightarrow> pq_shape h' \<and> pq_moved h h' \<and> pos' \<le> h_num_items h \<and>
     ordered (h_compar h) ((h_data h')(pos' := x)) (Suc (h_num_items h)) 0 \<and>
     mset (map ((h_data h')(pos' := x)) [0..<Suc (h_num_items h)]) =
       mset (map ((h_data h)(pos := x)) [0..<Suc (h_num_items h)])"

lemma sifted_stop:
  assumes "comparison (h_compar h)" "pq_shape h" "pos \<le> h_num_items h"
    and "ordered_up (h_compar h) ((h_data h)(pos := x)) (Suc (h_num_items h)) pos"
    and "pos = 0 \<or> \<not> h_compar h (h_data h (par pos)) x < 0"
  shows "sifted x h pos h pos"
proof -
  have "pos = 0 \<or> \<not> h_compar h (((h_data h)(pos := x)) (par pos)) (((h_data h)(pos := x)) pos) < 0"
    using assms(5) par_lt[of pos] by auto
  then show ?thesis
    using comparison.up_done[OF assms(1,4)] assms(2,3) by (simp add: sifted_def)
qed

lemma sifted_step:
  assumes "sifted x h' q h'' p"
    and "mset (map ((h_data h')(q := x)) [0..<Suc (h_num_items h)]) =
      mset (map ((h_data h)(pos := x)) [0..<Suc (h_num_items h)])"
    and "pq_moved h h'"
  shows "sifted x h pos h'' p"
  using assms pq_moved_trans[of h h' h''] by (simp add: sifted_def pq_moved_def del: upt_Suc)

lemma heap_sift_up_ok:
  assumes "pq_shape h" "pos \<le> h_num_items h" "h_num_items h < h_max_size h" "comparison (h_compar h)"
    and "ordered_up (h_compar h) ((h_data h)(pos := x)) (Suc (h_num_items h)) pos"
  shows "sifted x h pos (snd (heap_sift_up x pos h)) (fst (heap_sift_up x pos h))"
  using assms
proof (induction x pos h rule: heap_sift_up.induct)
  case (1 x pos h)
  let ?n = "Suc (h_num_items h)" and ?c = "h_compar h" and ?V = "(h_data h)(pos := x)" and ?q = "par pos"
  show ?case
  proof (cases "0 < pos \<and> ?c (h_data h ?q) x < 0")
    case False
    then have "heap_sift_up x pos h = (pos, h)"
      by (subst heap_sift_up.simps) (auto simp: par_def Let_def)
    then show ?thesis
      using sifted_stop[OF 1(5,2,3,6)] False by auto
  next
    case True
    let ?h = "h\<lparr>h_key := (h_key h)(h_ofs h pos := h_ofs h ?q, h_ofs h ?q := h_ofs h pos),
                h_ofs := (h_ofs h)(pos := h_ofs h ?q, ?q := h_ofs h pos)\<rparr>"
    have q: "?q < pos"
      using True par_lt by simp
    have step: "heap_sift_up x pos h = heap_sift_up x ?q ?h"
      using True by (subst heap_sift_up.simps) (simp add: par_def Let_def)
    have V: "(h_data ?h)(?q := x) = ?V(pos := ?V ?q, ?q := ?V pos)"
      using q by (auto simp: h_data_swap fun_eq_iff)
    have up: "ordered_up ?c ((h_data ?h)(?q := x)) ?n ?q"
      unfolding V by (rule comparison.up_step[OF 1(5,6)]) (use True q 1(3) in simp_all)
    have "sifted x ?h ?q (snd (heap_sift_up x ?q ?h)) (fst (heap_sift_up x ?q ?h))"
      by (rule 1(1)[of ?q "h_ofs h pos" "h_ofs h ?q"])
        (use True up q 1(3-5) pq_shape_swap[OF 1(2), of pos ?q] in \<open>simp_all add: par_def del: fun_upd_apply\<close>)
    moreover have "mset (map ((h_data ?h)(?q := x)) [0..<?n]) = mset (map ?V [0..<?n])"
      unfolding V by (rule mset_swap_upt) (use q 1(3) in auto)
    ultimately show ?thesis
      unfolding step by (rule sifted_step) (simp add: pq_moved_def)
  qed
qed

section \<open>Operations\<close>

lemma ordered_cong:
  assumes "\<And>i. i < n \<Longrightarrow> V i = W i"
  shows "ordered c V n k \<longleftrightarrow> ordered c W n k"
  using assms par_lt by (auto simp: ordered_def) (metis less_trans)+

lemma heap_grow_ok:
  assumes "pq_ok h" "heap_full h \<longrightarrow> room \<and> 2 * h_max_size h < 2 ^ 31"
  obtains h' where "heap_grow room h = Some h'" "pq_shape h'" "h_num_items h' < h_max_size h'"
    "\<And>i. i < h_num_items h \<Longrightarrow> h_data h' i = h_data h i" "h_num_items h' = h_num_items h"
    "h_compar h' = h_compar h" "h_el_size h' = h_el_size h"
proof (cases "heap_full h")
  case False
  then show ?thesis
    using assms(1) that[of h] by (auto simp: heap_grow_def heap_full_def pq_ok_def pq_shape_def)
next
  case True
  let ?m = "h_max_size h"
  let ?new = "\<lambda>i. ?m \<le> i \<and> i < 2 * ?m"
  let ?h = "h\<lparr>h_ofs := (\<lambda>i. if ?new i then i else h_ofs h i),
              h_key := (\<lambda>i. if ?new i then NO_KEY else h_key h i), h_max_size := 2 * ?m\<rparr>"
  have "pq_shape h"
    using assms(1) by (simp add: pq_ok_def)
  then have "pq_shape ?h"
    using assms(2) True unfolding pq_shape_def inj_on_def
    by (simp add: trans_less_add1 flip: mult_2) (metis leI linorder_not_less trans_less_add1 mult_2)
  moreover have "heap_grow room h = Some ?h"
    using assms(2) True by (simp add: heap_grow_def Let_def u32_def)
  ultimately show ?thesis
    using that[of ?h] True \<open>pq_shape h\<close> by (auto simp: heap_full_def pq_shape_def h_data_def)
qed

lemma ordered_up_fresh:
  assumes "ordered c V n 0"
  shows "ordered_up c (V(n := x)) (Suc n) n"
  using assms par_lt by (auto simp: ordered_up_def ordered_def less_Suc_eq) (metis less_asym less_trans)+

lemma heap_insert_ok:
  assumes ok: "pq_ok h" and c: "comparison (h_compar h)" and len: "length x = h_el_size h - 4"
    and room: "heap_full h \<longrightarrow> room \<and> 2 * h_max_size h < 2 ^ 31"
  obtains loc h' where "heap_insert room x h = Some (loc, h')" "pq_ok h'" "pq_items h' = add_mset x (pq_items h)"
    "h_user h' loc = x" "h_compar h' = h_compar h" "h_el_size h' = h_el_size h"
proof -
  let ?n = "h_num_items h"
  obtain g where g: "heap_grow room h = Some g" "pq_shape g" "h_num_items g < h_max_size g"
    "\<And>i. i < ?n \<Longrightarrow> h_data g i = h_data h i" "h_num_items g = ?n" "h_compar g = h_compar h" "h_el_size g = h_el_size h"
    using heap_grow_ok[OF ok room] by blast
  have "ordered (h_compar h) (h_data g) ?n 0"
    using ok ordered_cong[of ?n "h_data g" "h_data h"] g(4) by (simp add: pq_ok_def)
  then have "ordered_up (h_compar g) ((h_data g)(?n := x)) (Suc (h_num_items g)) ?n"
    using ordered_up_fresh g(5,6) by simp
  then have "sifted x g ?n (snd (heap_sift_up x ?n g)) (fst (heap_sift_up x ?n g))"
    using heap_sift_up_ok[OF g(2) _ g(3)] c g(5,6) by simp
  then obtain p s where s: "heap_sift_up x ?n g = (p, s)" "sifted x g ?n s p"
    by (metis prod.collapse)
  define u where "u = s\<lparr>h_key := (h_key s)(h_ofs s p := p), h_user := (h_user s)(h_ofs s p := x), h_num_items := Suc ?n\<rparr>"
  have mv: "h_num_items s = ?n" "h_max_size s = h_max_size g" "h_el_size s = h_el_size h" "h_compar s = h_compar h"
    "pq_shape s" "p \<le> ?n"
    using s(2) g(5-7) by (simp_all add: sifted_def pq_moved_def)
  have dat: "h_data u i = ((h_data s)(p := x)) i" if "i < Suc ?n" for i
    using mv(5,6,2) g(3,5) that by (auto simp: u_def h_data_def pq_shape_def inj_on_def)
  have "ordered (h_compar u) (h_data u) (h_num_items u) 0"
    using ordered_cong[of "Suc ?n" "h_data u" "(h_data s)(p := x)"] dat s(2) g(5,6) mv(4)
    by (simp add: u_def sifted_def del: fun_upd_apply)
  moreover have "pq_shape u"
    using mv(1,2,5) g(3,5) by (simp add: u_def pq_shape_def)
  moreover have "pq_items u = add_mset x (pq_items h)"
  proof -
    have "pq_items u = mset (map (h_data u) [0..<Suc ?n])"
      by (simp add: pq_items_def u_def)
    also have "\<dots> = mset (map ((h_data s)(p := x)) [0..<Suc ?n])"
      by (rule mset_map_upt_cong[OF dat])
    also have "\<dots> = mset (map ((h_data g)(?n := x)) [0..<Suc ?n])"
      using s(2) g(5) by (simp add: sifted_def del: upt_Suc)
    also have "\<dots> = add_mset x (pq_items h)"
      using mset_map_upt_cong[of ?n "(h_data g)(?n := x)" "h_data h"] g(4) by (simp add: pq_items_def)
    finally show ?thesis .
  qed
  moreover have "heap_insert room x h = Some (h_ofs s p, u)"
  proof -
    have "u32 (Suc ?n) = Suc ?n"
      using g(2,3,5) by (simp add: pq_shape_def u32_def)
    then show ?thesis
      using g(1,5) s(1) mv(1,3) len by (simp add: heap_insert_def u_def Let_def)
  qed
  ultimately show ?thesis
    using that[of "h_ofs s p" u] mv(3,4) by (simp add: u_def pq_ok_def)
qed

lemma mset_upt_last_first:
  "mset (map (V(0 := V m)) [0..<m]) = mset (map V [0..<Suc m]) - {#V 0#}"
proof (cases "m = 0")
  case False
  let ?W = "V(m := V 0, 0 := V m)"
  have "mset (map V [0..<Suc m]) = mset (map ?W [0..<Suc m])"
    using mset_swap_upt[of m "Suc m" 0 V] by simp
  also have "\<dots> = add_mset (V 0) (mset (map ?W [0..<m]))"
    using False by simp
  also have "mset (map ?W [0..<m]) = mset (map (V(0 := V m)) [0..<m])"
    by (rule mset_map_upt_cong) simp
  finally show ?thesis
    by simp
qed simp

lemma ordered_down_last:
  assumes "ordered c V n 0"
  shows "ordered_down c (V(0 := V (n - 1), n - 1 := V 0)) (n - 1) 0 0"
proof -
  have "\<not> c (V (par i)) (V i) < 0" "par i < n - 1" "par i \<noteq> n - 1" if "i < n - 1" "0 < i" for i
    using assms that par_lt[of i] by (simp_all add: ordered_def)
  then show ?thesis
    by (auto simp: ordered_down_def)
qed

lemma heap_remove_top_ok:
  assumes ok: "pq_ok h" and c: "comparison (h_compar h)" and n: "0 < h_num_items h"
  obtains h' where "heap_remove_top h = Some h'" "pq_ok h'" "pq_items h' = pq_items h - {#heap_top h#}"
    "h_compar h' = h_compar h" "h_el_size h' = h_el_size h" "h_max_size h' = h_max_size h"
proof -
  let ?n = "h_num_items h - 1"
  define k where "k = (h_key h)(h_ofs h 0 := u32 (h_key h (h_ofs h 0) + (2 ^ 32 - 1)), h_ofs h ?n := 0)"
  define g where "g = h\<lparr>h_num_items := ?n, h_ofs := (h_ofs h)(0 := h_ofs h ?n, ?n := h_ofs h 0), h_key := k\<rparr>"
  have rt: "heap_remove_top h = heap_fix_down 0 g"
    using n by (simp add: heap_remove_top_def Let_def g_def k_def)
  have "pq_shape (h\<lparr>h_key := k, h_ofs := (h_ofs h)(0 := h_ofs h ?n, ?n := h_ofs h 0)\<rparr>)"
    by (rule pq_shape_swap) (use ok n in \<open>auto simp: pq_ok_def pq_shape_def\<close>)
  then have sh: "pq_shape g"
    by (auto simp: g_def pq_shape_def)
  have V: "h_data g = (h_data h)(0 := h_data h ?n, ?n := h_data h 0)"
    by (auto simp: g_def h_data_def fun_eq_iff)
  have "ordered_down (h_compar g) (h_data g) ?n 0 0"
    unfolding V using ordered_down_last[of "h_compar h" "h_data h" "h_num_items h"] ok by (simp add: g_def pq_ok_def)
  then have "\<exists>h'. heap_fix_down 0 g = Some h' \<and> fixed_down 0 g h'"
    by (intro heap_fix_down_ok sh) (use c in \<open>simp_all add: g_def\<close>)
  then obtain h' where h': "heap_fix_down 0 g = Some h'" "fixed_down 0 g h'"
    by blast
  have "pq_items g = mset (map ((h_data h)(0 := h_data h ?n)) [0..<?n])"
    unfolding pq_items_def V by (auto simp: g_def intro!: arg_cong[where f = mset])
  then have "pq_items g = pq_items h - {#heap_top h#}"
    using mset_upt_last_first[of "h_data h" ?n] n by (simp add: pq_items_def heap_top_def flip: h_data_def)
  then show ?thesis
    using h' rt that[of h'] by (auto simp: fixed_down_def pq_moved_def pq_ok_def g_def)
qed

lemma heap_top_max:
  assumes "pq_ok h" "comparison (h_compar h)" "0 < h_num_items h"
  shows "heap_top h \<in># pq_items h" "y \<in># pq_items h \<Longrightarrow> \<not> h_compar h (heap_top h) y < 0"
  using comparison.top_max[OF assms(2), of "h_data h"] assms(1,3)
  by (auto simp: pq_ok_def pq_items_def heap_top_def simp flip: h_data_def)

lemma heap_build_loop_ok:
  assumes "comparison (h_compar h)" "pq_shape h" "i < 2 ^ 31"
    and "ordered (h_compar h) (h_data h) (h_num_items h) (Suc i)"
  shows "\<exists>h'. heap_build_loop i h = Some h' \<and> fixed_down 0 h h'"
  using assms
proof (induction i arbitrary: h)
  case 0
  then show ?case
    using heap_fix_down_ok[of h 0 0] by (simp add: ordered_down_def ordered_def Suc_le_eq)
next
  case (Suc i)
  have "ordered_down (h_compar h) (h_data h) (h_num_items h) (Suc i) (Suc i)"
    using Suc.prems(4) par_lt[of "Suc i"] by (auto simp: ordered_down_def ordered_def)
  then obtain g where g: "heap_fix_down (Suc i) h = Some g" "fixed_down (Suc i) h g"
    using heap_fix_down_ok[of h "Suc i" "Suc i"] Suc.prems by blast
  then have "\<exists>h'. heap_build_loop i g = Some h' \<and> fixed_down 0 g h'"
    using Suc.prems by (intro Suc.IH) (auto simp: fixed_down_def pq_moved_def)
  then show ?case
    using g by (auto simp: fixed_down_def pq_moved_def)
qed

lemma heap_build_ok:
  assumes "comparison (h_compar h)" "pq_shape h"
  obtains h' where "heap_build h = Some h'" "pq_ok h'" "pq_items h' = pq_items h"
proof -
  have "ordered (h_compar h) (h_data h) (h_num_items h) (Suc (h_num_items h div 2))"
    by (auto simp: ordered_def par_def)
  then have "\<exists>h'. heap_build h = Some h' \<and> fixed_down 0 h h'"
    unfolding heap_build_def using assms by (intro heap_build_loop_ok) (auto simp: pq_shape_def)
  then show ?thesis
    using that by (auto simp: fixed_down_def pq_ok_def pq_moved_def)
qed

lemma heap_init_ok:
  assumes "0 < el_size" "el_size < 2 ^ 31" "initial_size < 2 ^ 31" "heap_init True mem initial_size el_size compar = (r, h)"
  shows "r = 0" "pq_ok h" "pq_items h = {#}" "h_el_size h = el_size + 4"
    "h_compar h = (case compar of Some f \<Rightarrow> f | None \<Rightarrow> heap_int_compar)"
  using assms
  by (auto simp: heap_init_def Let_def pq_ok_def pq_shape_def ordered_def pq_items_def u32_def inj_on_def
      HEAP_DEFAULT_INITIAL_SIZE_def split: if_splits)

section \<open>Properties\<close>


text \<open>A heap made by \<^verbatim>\<open>heap_init\<close> for \<^verbatim>\<open>int\<close>s.\<close>

definition blank_heap :: pqueue where
  "blank_heap = \<lparr>h_ofs = (\<lambda>_. 0), h_key = (\<lambda>_. 0), h_user = (\<lambda>_. []), h_el_size = 0, h_max_size = 0,
     h_num_items = 0, h_compar = (\<lambda>_ _. 0)\<rparr>"

definition pq_example :: pqueue where
  "pq_example = snd (heap_init True blank_heap 4 4 None)"

lemma pq_example_ok:
  "pq_ok pq_example" "h_compar pq_example = heap_int_compar" "h_el_size pq_example = 8"
  "pq_items pq_example = {#}" "h_max_size pq_example = 4" "h_num_items pq_example = 0"
  by (simp_all add: pq_example_def heap_init_def Let_def pq_ok_def pq_shape_def ordered_def pq_items_def
      u32_def inj_on_def)



text \<open>The heap after inserting 1, 2, 3 and 4; the locations are 0, 1, 2 and 3.\<close>

definition heap_1234 :: "(nat list \<times> pqueue) option" where
  "heap_1234 = do {
     a \<leftarrow> heap_insert True [1, 0, 0, 0] pq_example;
     b \<leftarrow> heap_insert True [2, 0, 0, 0] (snd a);
     c \<leftarrow> heap_insert True [3, 0, 0, 0] (snd b);
     d \<leftarrow> heap_insert True [4, 0, 0, 0] (snd c);
     Some ([fst a, fst b, fst c, fst d], snd d) }"

lemma load_small_int [simp]: "load_int [a, 0, 0, 0] = uint a"
  using uint_lt2p[of a] by (simp add: load_int_def)

lemma heap_sift_up_0: "heap_sift_up x 0 h = (0, h)"
  by (simp add: heap_sift_up.simps)

lemma heap_sift_up_step:
  assumes "h_compar h (h_data h ((p - 1) div 2)) x < 0" "0 < p"
  shows "heap_sift_up x p h = heap_sift_up x ((p - 1) div 2)
    (h\<lparr>h_key := (h_key h)(h_ofs h p := h_ofs h ((p - 1) div 2), h_ofs h ((p - 1) div 2) := h_ofs h p),
       h_ofs := (h_ofs h)(p := h_ofs h ((p - 1) div 2), (p - 1) div 2 := h_ofs h p)\<rparr>)"
  using assms by (subst heap_sift_up.simps) (simp add: Let_def)

lemmas heap_eval = heap_insert_def Let_def heap_grow_def heap_full_def u32_def h_data_def heap_int_compar_def
  pq_example_def heap_init_def blank_heap_def heap_sift_up_0 heap_sift_up_step

lemma pq_items_numeral:
  "h_num_items h = 3 \<Longrightarrow> pq_items h = {#h_data h 0, h_data h 1, h_data h 2#}"
  "h_num_items h = 4 \<Longrightarrow> pq_items h = {#h_data h 0, h_data h 1, h_data h 2, h_data h 3#}"
  by (simp_all add: pq_items_def numeral_eq_Suc add_mset_commute)

definition pq_single :: pqueue where
  "pq_single = snd (the (heap_insert True [1, 0, 0, 0] pq_example))"

lemma pq_single_ok: "pq_ok pq_single" "comparison (h_compar pq_single)" "pq_items pq_single = {#[1, 0, 0, 0]#}"
proof -
  have c: "comparison (h_compar pq_example)"
    using int_compar.comparison_axioms pq_example_ok(2) by simp
  have "\<exists>loc h. heap_insert True [1, 0, 0, 0] pq_example = Some (loc, h) \<and> pq_ok h \<and>
      pq_items h = {#[1, 0, 0, 0]#} \<and> h_compar h = h_compar pq_example"
    by (rule heap_insert_ok[OF pq_example_ok(1) c, of "[1, 0, 0, 0]" True]) (auto simp: pq_example_ok)
  then show "pq_ok pq_single" "comparison (h_compar pq_single)" "pq_items pq_single = {#[1, 0, 0, 0]#}"
    using c by (auto simp: pq_single_def)
qed



end
