(* ===== verification/Ringbuf.thy ===== *)
theory Ringbuf
  imports Vmfile
begin

text \<open>
  \<^verbatim>\<open>src/ringbuf.c\<close>, \<^verbatim>\<open>src/_ringbuf.c\<close>: a ring of bytes, and \<^verbatim>\<open>src/ringfile.c\<close>, \<^verbatim>\<open>src/_ringfile.c\<close>: the
  same ring kept in a file, with a header and a reserved area before it.  In both the same bytes
  are mapped twice, one mapping right after the other, so that offset \<open>i\<close> and offset
  \<open>i + capacity\<close> from the start of the ring are the same byte; \<open>ring_peek\<close> and \<open>ring_poke\<close> are the
  reads and writes a client does through the pointers it gets.  The locale \<open>ring\<close> has the laws both
  implementations obey and the queue they implement.
\<close>

section \<open>Bytes mapped twice\<close>

definition ring_peek :: "nat \<Rightarrow> nat \<Rightarrow> nat \<Rightarrow> (nat \<Rightarrow> byte) \<Rightarrow> byte list" where
  "ring_peek cap ofs n p = map (\<lambda>i. p ((ofs + i) mod cap)) [0..<n]"

fun ring_poke :: "nat \<Rightarrow> nat \<Rightarrow> byte list \<Rightarrow> (nat \<Rightarrow> byte) \<Rightarrow> nat \<Rightarrow> byte" where
  "ring_poke cap ofs [] p = p"
| "ring_poke cap ofs (b # bs) p = ring_poke cap (Suc ofs) bs (p(ofs mod cap := b))"

text \<open>What the kernel answers: the file can be opened, the file can be given a length, the address of
  the reserved range, whether each of the two mappings of the file succeeds, and the calls on names.\<close>

record ring_kernel =
  rk_open :: "string \<Rightarrow> bool"
  rk_ftruncate :: "string \<Rightarrow> nat \<Rightarrow> bool"
  rk_mmap :: "string \<Rightarrow> nat \<Rightarrow> nat option"
  rk_map :: "string \<Rightarrow> bool"
  rk_map_again :: "string \<Rightarrow> bool"
  rk_fstat :: "string \<Rightarrow> bool"
  rk_map_header :: "string \<Rightarrow> bool"
  rk_unlink :: "string \<Rightarrow> bool"
  rk_rename :: "string \<Rightarrow> bool"

section \<open>Ring buffer\<close>

record ringbuf =
  rb_mem :: nat
  rb_capacity :: nat
  rb_read_loc :: nat
  rb_write_loc :: nat
  rb_page :: "nat \<Rightarrow> byte"

definition RINGBUF_INITIALIZER :: ringbuf where
  "RINGBUF_INITIALIZER = \<lparr>rb_mem = 0, rb_capacity = 0, rb_read_loc = 0, rb_write_loc = 0, rb_page = (\<lambda>_. 0)\<rparr>"

text \<open>The temporary file is new, its bytes are zero.  On the early failures \<open>mem\<close> keeps its value or is
  the failed answer, which no caller may use.\<close>

definition ringbuf_init :: "ring_kernel \<Rightarrow> nat \<Rightarrow> ringbuf \<Rightarrow> int \<times> ringbuf" where
  "ringbuf_init k sz rb =
     (let rb = rb\<lparr>rb_capacity := RIBS_VM_ALIGN sz, rb_read_loc := 0, rb_write_loc := 0\<rparr>;
          fd = ''ribs_rb''
      in if \<not> rk_open k fd then (-1, rb)
         else if \<not> rk_ftruncate k fd (rb_capacity rb) then (-1, rb)
         else
           (let total_vmsize = shl64 (rb_capacity rb) 1
            in case rk_mmap k fd total_vmsize of
                 None \<Rightarrow> (-1, rb\<lparr>rb_mem := MAP_FAILED\<rparr>)
               | Some a \<Rightarrow>
                   (let rb = rb\<lparr>rb_mem := a\<rparr>
                    in if \<not> rk_map k fd then (-1, rb)
                       else if \<not> rk_map_again k fd then (-1, rb)
                       else (0, rb\<lparr>rb_page := (\<lambda>_. 0)\<rparr>))))"

text \<open>Unmapping a range that was mapped succeeds.\<close>

definition ringbuf_free :: "ringbuf \<Rightarrow> int \<times> ringbuf" where
  "ringbuf_free rb = (0, rb\<lparr>rb_mem := 0\<rparr>)"

definition ringbuf_mem :: "ringbuf \<Rightarrow> nat" where
  "ringbuf_mem rb = rb_mem rb"

definition ringbuf_wloc :: "ringbuf \<Rightarrow> nat" where
  "ringbuf_wloc rb = add64 (rb_mem rb) (rb_write_loc rb)"

definition ringbuf_rloc :: "ringbuf \<Rightarrow> nat" where
  "ringbuf_rloc rb = add64 (rb_mem rb) (rb_read_loc rb)"

definition ringbuf_wseek :: "nat \<Rightarrow> ringbuf \<Rightarrow> ringbuf" where
  "ringbuf_wseek n rb = rb\<lparr>rb_write_loc := add64 (rb_write_loc rb) n\<rparr>"

definition ringbuf_rseek :: "nat \<Rightarrow> ringbuf \<Rightarrow> ringbuf" where
  "ringbuf_rseek n rb =
     (let rb = rb\<lparr>rb_read_loc := add64 (rb_read_loc rb) n\<rparr>
      in if rb_capacity rb \<le> rb_read_loc rb
         then rb\<lparr>rb_read_loc := sub64 (rb_read_loc rb) (rb_capacity rb),
                 rb_write_loc := sub64 (rb_write_loc rb) (rb_capacity rb)\<rparr>
         else rb)"

definition ringbuf_size :: "ringbuf \<Rightarrow> nat" where
  "ringbuf_size rb = sub64 (rb_write_loc rb) (rb_read_loc rb)"

definition ringbuf_avail :: "ringbuf \<Rightarrow> nat" where
  "ringbuf_avail rb = sub64 (rb_capacity rb) (ringbuf_size rb)"

definition ringbuf_empty :: "ringbuf \<Rightarrow> bool" where
  "ringbuf_empty rb \<longleftrightarrow> rb_write_loc rb = rb_read_loc rb"

definition ringbuf_pop :: "nat \<Rightarrow> ringbuf \<Rightarrow> nat \<times> ringbuf" where
  "ringbuf_pop n rb = (add64 (rb_mem rb) (rb_read_loc rb), ringbuf_rseek n rb)"

definition ringbuf_push :: "nat \<Rightarrow> ringbuf \<Rightarrow> nat \<times> ringbuf" where
  "ringbuf_push n rb = (add64 (rb_mem rb) (rb_write_loc rb), ringbuf_wseek n rb)"

partial_function (option) ringbuf_roll :: "nat \<Rightarrow> ringbuf \<Rightarrow> ringbuf option" where
  "ringbuf_roll n rb = (if ringbuf_avail rb < n then ringbuf_roll n (ringbuf_rseek n rb) else Some rb)"

definition ringbuf_rolling_push :: "nat \<Rightarrow> ringbuf \<Rightarrow> (nat \<times> ringbuf) option" where
  "ringbuf_rolling_push n rb = map_option (ringbuf_push n) (ringbuf_roll n rb)"

text \<open>A client's write and read through a pointer into the ring.\<close>

definition ringbuf_store :: "nat \<Rightarrow> byte list \<Rightarrow> ringbuf \<Rightarrow> ringbuf" where
  "ringbuf_store ptr bs rb = rb\<lparr>rb_page := ring_poke (rb_capacity rb) (ptr - rb_mem rb) bs (rb_page rb)\<rparr>"

definition ringbuf_load :: "nat \<Rightarrow> nat \<Rightarrow> ringbuf \<Rightarrow> byte list" where
  "ringbuf_load ptr n rb = ring_peek (rb_capacity rb) (ptr - rb_mem rb) n (rb_page rb)"

section \<open>Ring file\<close>

record ringfile_header =
  rh_capacity :: nat
  rh_read_loc :: nat
  rh_write_loc :: nat
  rh_reserved_size :: nat

definition zero_header :: ringfile_header where
  "zero_header = \<lparr>rh_capacity = 0, rh_read_loc = 0, rh_write_loc = 0, rh_reserved_size = 0\<rparr>"

definition RINGFILE_HEADER_SIZE :: nat where
  "RINGFILE_HEADER_SIZE = 32"

text \<open>A file: its first 32 bytes are the header, \<open>fl_bytes\<close> has the others by their offset in the file.\<close>

record ring_file =
  fl_header :: ringfile_header
  fl_bytes :: "nat \<Rightarrow> byte"
  fl_len :: nat

definition empty_file :: ring_file where
  "empty_file = \<lparr>fl_header = zero_header, fl_bytes = (\<lambda>_. 0), fl_len = 0\<rparr>"

definition file_truncate :: "nat \<Rightarrow> ring_file \<Rightarrow> ring_file" where
  "file_truncate n f = f\<lparr>fl_bytes := (\<lambda>i. if i < n then fl_bytes f i else 0), fl_len := n\<rparr>"

record ringfile =
  rf_rbuf :: nat
  rf_mem :: nat
  rf_file :: ring_file

definition RINGFILE_INITIALIZER :: ringfile where
  "RINGFILE_INITIALIZER = \<lparr>rf_rbuf = 0, rf_mem = 0, rf_file = empty_file\<rparr>"

definition ringfile_data :: "ringfile \<Rightarrow> nat" where
  "ringfile_data rb = rf_rbuf rb"

definition ringfile_get_header :: "ringfile \<Rightarrow> ringfile_header" where
  "ringfile_get_header rb = fl_header (rf_file rb)"

definition ringfile_set_header :: "(ringfile_header \<Rightarrow> ringfile_header) \<Rightarrow> ringfile \<Rightarrow> ringfile" where
  "ringfile_set_header g rb = rb\<lparr>rf_file := (rf_file rb)\<lparr>fl_header := g (ringfile_get_header rb)\<rparr>\<rparr>"

definition ringfile_get_reserved :: "ringfile \<Rightarrow> nat" where
  "ringfile_get_reserved rb = add64 (rf_mem rb) RINGFILE_HEADER_SIZE"

definition ringfile_reset :: "ringfile \<Rightarrow> int \<times> ringfile" where
  "ringfile_reset rb = (0, ringfile_set_header (\<lambda>h. h\<lparr>rh_read_loc := 0, rh_write_loc := 0\<rparr>) rb)"

definition ringfile_rlocpos :: "ringfile \<Rightarrow> nat" where
  "ringfile_rlocpos rb = rh_read_loc (ringfile_get_header rb)"

definition ringfile_wlocpos :: "ringfile \<Rightarrow> nat" where
  "ringfile_wlocpos rb = rh_write_loc (ringfile_get_header rb)"

definition ringfile_capacity :: "ringfile \<Rightarrow> nat" where
  "ringfile_capacity rb = rh_capacity (ringfile_get_header rb)"

definition ringfile_wloc :: "ringfile \<Rightarrow> nat" where
  "ringfile_wloc rb = add64 (rf_rbuf rb) (ringfile_wlocpos rb)"

definition ringfile_rloc :: "ringfile \<Rightarrow> nat" where
  "ringfile_rloc rb = add64 (rf_rbuf rb) (ringfile_rlocpos rb)"

definition ringfile_rloc_reverse :: "ringfile \<Rightarrow> nat \<Rightarrow> nat" where
  "ringfile_rloc_reverse rb n =
     (let mem = rf_rbuf rb;
          mem = (if ringfile_rlocpos rb < n then add64 mem (ringfile_capacity rb) else mem)
      in sub64 (add64 mem (ringfile_rlocpos rb)) n)"

definition ringfile_wseek :: "nat \<Rightarrow> ringfile \<Rightarrow> ringfile" where
  "ringfile_wseek n = ringfile_set_header (\<lambda>h. h\<lparr>rh_write_loc := add64 (rh_write_loc h) n\<rparr>)"

definition ringfile_rseek :: "nat \<Rightarrow> ringfile \<Rightarrow> ringfile" where
  "ringfile_rseek n = ringfile_set_header (\<lambda>h.
     let h = h\<lparr>rh_read_loc := add64 (rh_read_loc h) n\<rparr>
     in if rh_capacity h \<le> rh_read_loc h
        then h\<lparr>rh_read_loc := sub64 (rh_read_loc h) (rh_capacity h),
               rh_write_loc := sub64 (rh_write_loc h) (rh_capacity h)\<rparr>
        else h)"

definition ringfile_rseek_reverse :: "nat \<Rightarrow> ringfile \<Rightarrow> ringfile" where
  "ringfile_rseek_reverse n = ringfile_set_header (\<lambda>h.
     let h = (if rh_read_loc h < n
              then h\<lparr>rh_read_loc := add64 (rh_read_loc h) (rh_capacity h),
                     rh_write_loc := add64 (rh_write_loc h) (rh_capacity h)\<rparr>
              else h)
     in h\<lparr>rh_read_loc := sub64 (rh_read_loc h) n\<rparr>)"

definition ringfile_size :: "ringfile \<Rightarrow> nat" where
  "ringfile_size rb = sub64 (ringfile_wlocpos rb) (ringfile_rlocpos rb)"

definition ringfile_avail :: "ringfile \<Rightarrow> nat" where
  "ringfile_avail rb = sub64 (ringfile_capacity rb) (ringfile_size rb)"

definition ringfile_empty :: "ringfile \<Rightarrow> bool" where
  "ringfile_empty rb \<longleftrightarrow> ringfile_wlocpos rb = ringfile_rlocpos rb"

definition ringfile_pop :: "nat \<Rightarrow> ringfile \<Rightarrow> nat \<times> ringfile" where
  "ringfile_pop n rb = (ringfile_rloc rb, ringfile_rseek n rb)"

definition ringfile_push :: "nat \<Rightarrow> ringfile \<Rightarrow> nat \<times> ringfile" where
  "ringfile_push n rb = (ringfile_wloc rb, ringfile_wseek n rb)"

partial_function (option) ringfile_roll :: "nat \<Rightarrow> ringfile \<Rightarrow> ringfile option" where
  "ringfile_roll n rb = (if ringfile_avail rb < n then ringfile_roll n (ringfile_rseek n rb) else Some rb)"

definition ringfile_rolling_push :: "nat \<Rightarrow> ringfile \<Rightarrow> (nat \<times> ringfile) option" where
  "ringfile_rolling_push n rb = map_option (ringfile_push n) (ringfile_roll n rb)"

text \<open>The ring starts after the reserved bytes of the file.\<close>

definition rf_page :: "ringfile \<Rightarrow> nat \<Rightarrow> byte" where
  "rf_page rb = (\<lambda>i. fl_bytes (rf_file rb) (rh_reserved_size (ringfile_get_header rb) + i))"

definition ringfile_store :: "nat \<Rightarrow> byte list \<Rightarrow> ringfile \<Rightarrow> ringfile" where
  "ringfile_store ptr bs rb =
     (let r = rh_reserved_size (ringfile_get_header rb);
          p = ring_poke (ringfile_capacity rb) (ptr - rf_rbuf rb) bs (rf_page rb)
      in rb\<lparr>rf_file := (rf_file rb)\<lparr>fl_bytes := (\<lambda>i. if r \<le> i then p (i - r) else fl_bytes (rf_file rb) i)\<rparr>\<rparr>)"

definition ringfile_load :: "nat \<Rightarrow> nat \<Rightarrow> ringfile \<Rightarrow> byte list" where
  "ringfile_load ptr n rb = ring_peek (ringfile_capacity rb) (ptr - rf_rbuf rb) n (rf_page rb)"

section \<open>Opening and resizing a ring file\<close>

text \<open>The files there are, by name.\<close>

type_synonym files = "string \<rightharpoonup> ring_file"

definition ringfile_read_header :: "ring_kernel \<Rightarrow> files \<Rightarrow> string \<Rightarrow> ringfile_header option" where
  "ringfile_read_header k fs filename =
     (case fs filename of
        None \<Rightarrow> Some zero_header
      | Some f \<Rightarrow>
          if \<not> rk_open k filename then None
          else if \<not> rk_fstat k filename then None
          else if fl_len f < RINGFILE_HEADER_SIZE then None
          else if \<not> rk_map_header k filename then None
          else Some (fl_header f))"

text \<open>The result is the return value, the ring file and the files; a file that was opened has at least
  been created and given its length.\<close>

definition ringfile_init ::
    "ring_kernel \<Rightarrow> string \<Rightarrow> nat \<Rightarrow> nat \<Rightarrow> ringfile \<Rightarrow> files \<Rightarrow> int \<times> ringfile \<times> files" where
  "ringfile_init k filename sz reserved rb fs =
     (let reserved = RIBS_VM_ALIGN (add64 reserved RINGFILE_HEADER_SIZE);
          capacity = RIBS_VM_ALIGN sz
      in if \<not> rk_open k filename then (-1, rb, fs)
         else
           (let f = (case fs filename of None \<Rightarrow> empty_file | Some f \<Rightarrow> f)
            in if \<not> rk_ftruncate k filename (add64 capacity reserved) then (-1, rb, fs(filename \<mapsto> f))
               else
                 (let f = file_truncate (add64 capacity reserved) f;
                      fs = fs(filename \<mapsto> f);
                      total_vmsize = add64 reserved (shl64 capacity 1)
                  in case rk_mmap k filename total_vmsize of
                       None \<Rightarrow> (-1, rb\<lparr>rf_mem := MAP_FAILED\<rparr>, fs)
                     | Some a \<Rightarrow>
                         (let rb = rb\<lparr>rf_mem := a\<rparr>
                          in if \<not> rk_map k filename then (-1, rb, fs)
                             else
                               (let h = fl_header f;
                                    h = (if rh_capacity h \<noteq> capacity \<or> rh_reserved_size h \<noteq> reserved
                                         then h\<lparr>rh_read_loc := 0, rh_write_loc := 0\<rparr> else h);
                                    h = h\<lparr>rh_capacity := capacity, rh_reserved_size := reserved\<rparr>;
                                    f = f\<lparr>fl_header := h\<rparr>;
                                    rb = rb\<lparr>rf_rbuf := add64 (rf_mem rb) reserved, rf_file := f\<rparr>
                                in (if rk_map_again k filename then 0 else -1, rb, fs(filename \<mapsto> f)))))))"

text \<open>Unmapping a mapped range and writing it back succeed.\<close>

definition ringfile_free :: "ringfile \<Rightarrow> int \<times> ringfile" where
  "ringfile_free rb = (0, rb\<lparr>rf_mem := 0\<rparr>)"

definition ringfile_sync :: "ringfile \<Rightarrow> int" where
  "ringfile_sync rb = 0"

partial_function (option) ringfile_evict ::
    "(ringfile \<Rightarrow> ringfile) \<Rightarrow> nat \<Rightarrow> ringfile \<Rightarrow> ringfile option" where
  "ringfile_evict evict_one_rec capacity_aligned old =
     (if capacity_aligned < ringfile_size old
      then ringfile_evict evict_one_rec capacity_aligned (evict_one_rec old) else Some old)"

definition PATH_MAX :: nat where
  "PATH_MAX = 4096"

definition copy_reserved :: "nat \<Rightarrow> ringfile \<Rightarrow> ringfile \<Rightarrow> ringfile" where
  "copy_reserved n old new =
     new\<lparr>rf_file := (rf_file new)\<lparr>fl_bytes :=
       (\<lambda>i. if RINGFILE_HEADER_SIZE \<le> i \<and> i < RINGFILE_HEADER_SIZE + n
            then fl_bytes (rf_file old) i else fl_bytes (rf_file new) i)\<rparr>\<rparr>"

definition ringfile_resize ::
    "ring_kernel \<Rightarrow> string \<Rightarrow> nat \<Rightarrow> nat \<Rightarrow> (ringfile \<Rightarrow> ringfile) option \<Rightarrow> files \<Rightarrow> (int \<times> files) option" where
  "ringfile_resize k filename capacity reserved evict_one_rec fs =
     (let filename_new = filename @ ''.'' @ ''new.temp''
      in if PATH_MAX \<le> length filename_new then Some (-1, fs)
         else case ringfile_read_header k fs filename of
           None \<Rightarrow> Some (-1, fs)
         | Some header \<Rightarrow>
             if rh_capacity header = 0 then Some (0, fs)
             else
               (let reserved_aligned = RIBS_VM_ALIGN (add64 reserved RINGFILE_HEADER_SIZE);
                    capacity_aligned = RIBS_VM_ALIGN capacity
                in if rh_capacity header = capacity_aligned \<and> rh_reserved_size header = reserved_aligned
                   then Some (0, fs)
                   else case ringfile_init k filename (rh_capacity header)
                               (sub64 (rh_reserved_size header) RINGFILE_HEADER_SIZE) RINGFILE_INITIALIZER fs of
                     (r, old, fs) \<Rightarrow>
                       if r < 0 then Some (-1, fs)
                       else do {
                         old \<leftarrow> (case evict_one_rec of
                            Some e \<Rightarrow> ringfile_evict e capacity_aligned old
                          | None \<Rightarrow>
                              Some (if capacity_aligned < ringfile_size old
                                    then ringfile_rseek (sub64 (ringfile_size old) capacity_aligned) old else old));
                         let fs = fs(filename \<mapsto> rf_file old);
                         if \<not> rk_unlink k filename_new then Some (-1, fs)
                         else
                           (let fs = fs(filename_new := None)
                            in case ringfile_init k filename_new capacity reserved RINGFILE_INITIALIZER fs of
                                 (r, new, fs) \<Rightarrow>
                                   if r < 0 then Some (-1, fs)
                                   else
                                     (let new = copy_reserved
                                            (min (sub64 (rh_reserved_size header) RINGFILE_HEADER_SIZE)
                                                 (sub64 reserved_aligned RINGFILE_HEADER_SIZE)) old new;
                                          new = ringfile_store (ringfile_wloc new)
                                            (ringfile_load (ringfile_rloc old) (ringfile_size old) old) new;
                                          new = ringfile_wseek (ringfile_size old) new;
                                          fs = fs(filename_new \<mapsto> rf_file new)
                                      in if \<not> rk_rename k filename_new then Some (-1, fs)
                                         else Some (0, fs(filename := fs filename_new, filename_new := None)))) }))"

definition ringfile_init_with_resize ::
    "ring_kernel \<Rightarrow> string \<Rightarrow> nat \<Rightarrow> nat \<Rightarrow> (ringfile \<Rightarrow> ringfile) option \<Rightarrow> ringfile \<Rightarrow> files \<Rightarrow>
     (int \<times> ringfile \<times> files) option" where
  "ringfile_init_with_resize k filename sz reserved evict_one_rec rb fs = do {
     p \<leftarrow> ringfile_resize k filename sz reserved evict_one_rec fs;
     if fst p < 0 then Some (-1, rb, snd p) else Some (ringfile_init k filename sz reserved rb (snd p)) }"

definition ringfile_init_safe_resize ::
    "ring_kernel \<Rightarrow> string \<Rightarrow> nat \<Rightarrow> nat \<Rightarrow> ringfile \<Rightarrow> files \<Rightarrow> (int \<times> ringfile \<times> files) option" where
  "ringfile_init_safe_resize k filename sz reserved rb fs =
     (case ringfile_read_header k fs filename of
        None \<Rightarrow> Some (-1, rb, fs)
      | Some header \<Rightarrow>
          (let reserved_aligned = RIBS_VM_ALIGN (add64 reserved RINGFILE_HEADER_SIZE);
               capacity_aligned = RIBS_VM_ALIGN sz
           in if rh_capacity header \<noteq> 0 \<and> rh_reserved_size header \<noteq> reserved_aligned then Some (-1, rb, fs)
              else if rh_capacity header \<noteq> 0 \<and> capacity_aligned < rh_capacity header then Some (-1, rb, fs)
              else do {
                p \<leftarrow> (if rh_capacity header \<noteq> 0 \<and> rh_capacity header < capacity_aligned
                     then ringfile_resize k filename sz reserved None fs else Some (0, fs));
                if fst p < 0 then Some (-1, rb, snd p) else Some (ringfile_init k filename sz reserved rb (snd p)) }))"

section \<open>The queue\<close>

definition ring_ok :: "nat \<Rightarrow> nat \<Rightarrow> nat \<Rightarrow> bool" where
  "ring_ok cap rd wr \<longleftrightarrow> 0 < cap \<and> cap < 2 ^ 62 \<and> rd < cap \<and> rd \<le> wr \<and> wr \<le> rd + cap"

definition ring_queue :: "nat \<Rightarrow> nat \<Rightarrow> nat \<Rightarrow> (nat \<Rightarrow> byte) \<Rightarrow> byte list" where
  "ring_queue cap rd wr p = ring_peek cap rd (wr - rd) p"

lemma mod_window:
  fixes a b c :: nat
  assumes "a < b" "b < a + c"
  shows "a mod c \<noteq> b mod c"
proof
  assume "a mod c = b mod c"
  then have "c dvd b - a"
    using assms(1) mod_eq_dvd_iff_nat[of a b c] by simp
  then show False
    using assms by (auto dest: dvd_imp_le)
qed

lemma ring_poke_other:
  "(\<And>k. k < length bs \<Longrightarrow> (ofs + k) mod cap \<noteq> i) \<Longrightarrow> ring_poke cap ofs bs p i = p i"
proof (induction cap ofs bs p rule: ring_poke.induct)
  case (2 cap ofs b bs p)
  have "ofs mod cap \<noteq> i" "\<And>k. k < length bs \<Longrightarrow> (Suc ofs + k) mod cap \<noteq> i"
    using 2(2)[of 0] 2(2)[of "Suc _"] by simp_all
  moreover have "ring_poke cap (Suc ofs) bs (p(ofs mod cap := b)) i = (p(ofs mod cap := b)) i"
    by (rule 2(1)) (rule calculation(2))
  ultimately show ?case
    by simp
qed simp

lemma ring_poke_written:
  "length bs \<le> cap \<Longrightarrow> k < length bs \<Longrightarrow> ring_poke cap ofs bs p ((ofs + k) mod cap) = bs ! k"
proof (induction cap ofs bs p arbitrary: k rule: ring_poke.induct)
  case (2 cap ofs b bs p)
  show ?case
  proof (cases k)
    case 0
    have "(Suc ofs + j) mod cap \<noteq> ofs mod cap" if "j < length bs" for j
      using mod_window[of ofs "Suc ofs + j" cap] that 2(2) by auto
    then show ?thesis
      using ring_poke_other[of bs "Suc ofs" cap "ofs mod cap"] 0 by simp
  next
    case (Suc j)
    have "ring_poke cap (Suc ofs) bs (p(ofs mod cap := b)) ((Suc ofs + j) mod cap) = bs ! j"
      by (rule 2(1)) (use 2(2,3) Suc in simp_all)
    then show ?thesis
      using Suc by simp
  qed
qed simp

lemma ring_queue_put:
  assumes "ring_ok cap rd wr" "wr + length bs \<le> rd + cap"
  shows "ring_queue cap rd (wr + length bs) (ring_poke cap wr bs p) = ring_queue cap rd wr p @ bs"
proof (rule nth_equalityI)
  fix i
  assume i: "i < length (ring_queue cap rd (wr + length bs) (ring_poke cap wr bs p))"
  show "ring_queue cap rd (wr + length bs) (ring_poke cap wr bs p) ! i = (ring_queue cap rd wr p @ bs) ! i"
  proof (cases "i < wr - rd")
    case True
    have "(wr + k) mod cap \<noteq> (rd + i) mod cap" if "k < length bs" for k
    proof -
      have "rd + i < wr + k" "wr + k < rd + i + cap"
        using that True assms(2) by linarith+
      then show ?thesis
        by (rule not_sym[OF mod_window])
    qed
    then show ?thesis
      using True i ring_poke_other[of bs wr cap "(rd + i) mod cap"]
      by (simp add: ring_queue_def ring_peek_def nth_append)
  next
    case False
    have "rd + i = wr + (i - (wr - rd))" "i - (wr - rd) < length bs" "length bs \<le> cap"
      using False i assms by (auto simp: ring_queue_def ring_peek_def ring_ok_def)
    then show ?thesis
      using False i ring_poke_written[of bs cap "i - (wr - rd)" wr p]
      by (simp add: ring_queue_def ring_peek_def nth_append)
  qed
qed (use assms in \<open>simp add: ring_queue_def ring_peek_def ring_ok_def\<close>)

lemma ring_queue_seek:
  assumes "n \<le> wr - rd" "rd \<le> wr"
  shows "ring_queue cap (rd + n) wr p = drop n (ring_queue cap rd wr p)"
  using assms by (intro nth_equalityI) (simp_all add: ring_queue_def ring_peek_def less_diff_conv ac_simps)

lemma ring_queue_shift: "cap \<le> rd \<Longrightarrow> rd \<le> wr \<Longrightarrow> ring_queue cap (rd - cap) (wr - cap) p = ring_queue cap rd wr p"
  by (auto simp: ring_queue_def ring_peek_def mod_if[of "rd + _"])

lemma ring_peek_queue: "n \<le> wr - rd \<Longrightarrow> ring_peek cap rd n p = take n (ring_queue cap rd wr p)"
  by (simp add: ring_queue_def ring_peek_def take_map)

locale ring =
  fixes cap rd wr :: "'s \<Rightarrow> nat"
    and page :: "'s \<Rightarrow> nat \<Rightarrow> byte"
    and wseek rseek :: "nat \<Rightarrow> 's \<Rightarrow> 's"
    and roll :: "nat \<Rightarrow> 's \<Rightarrow> 's option"
    and put :: "byte list \<Rightarrow> 's \<Rightarrow> 's \<Rightarrow> 's"
    and fits :: "'s \<Rightarrow> bool"
  assumes wseek: "cap (wseek n s) = cap s" "rd (wseek n s) = rd s" "wr (wseek n s) = add64 (wr s) n"
      "page (wseek n s) = page s" "fits (wseek n s) = fits s"
    and rseek: "cap (rseek n s) = cap s" "page (rseek n s) = page s" "fits (rseek n s) = fits s"
      "rd (rseek n s) = (let r = add64 (rd s) n in if cap s \<le> r then sub64 r (cap s) else r)"
      "wr (rseek n s) = (if cap s \<le> add64 (rd s) n then sub64 (wr s) (cap s) else wr s)"
    and roll: "roll n s = (if sub64 (cap s) (sub64 (wr s) (rd s)) < n then roll n (rseek n s) else Some s)"
    and put: "cap (put bs s t) = cap t" "rd (put bs s t) = rd t" "wr (put bs s t) = wr t" "fits (put bs s t) = fits t"
      "ring_ok (cap s) (rd s) (wr s) \<Longrightarrow> fits s \<Longrightarrow>
        page (put bs s (wseek n s)) = ring_poke (cap s) (wr s) bs (page s)"
begin

lemma wseek_put:
  assumes "ring_ok (cap s) (rd s) (wr s)" "fits s" "length bs \<le> cap s - (wr s - rd s)"
  shows "ring_ok (cap s) (rd (put bs s (wseek (length bs) s))) (wr (put bs s (wseek (length bs) s)))"
    "ring_queue (cap s) (rd (put bs s (wseek (length bs) s))) (wr (put bs s (wseek (length bs) s)))
       (page (put bs s (wseek (length bs) s))) = ring_queue (cap s) (rd s) (wr s) (page s) @ bs"
    "wr s + length bs \<le> 2 * cap s"
proof -
  have le: "wr s + length bs \<le> rd s + cap s"
    using assms(1,3) by (auto simp: ring_ok_def)
  have "add64 (wr s) (length bs) = wr s + length bs"
    using assms(1) le by (intro add64_small) (auto simp: ring_ok_def)
  then show "ring_ok (cap s) (rd (put bs s (wseek (length bs) s))) (wr (put bs s (wseek (length bs) s)))"
    "ring_queue (cap s) (rd (put bs s (wseek (length bs) s))) (wr (put bs s (wseek (length bs) s)))
       (page (put bs s (wseek (length bs) s))) = ring_queue (cap s) (rd s) (wr s) (page s) @ bs"
    "wr s + length bs \<le> 2 * cap s"
    using assms le ring_queue_put[OF assms(1) le] put(5)[OF assms(1,2)]
    by (auto simp: put wseek ring_ok_def)
qed

lemma rseek_queue:
  assumes "ring_ok (cap s) (rd s) (wr s)" "n \<le> wr s - rd s"
  shows "ring_ok (cap s) (rd (rseek n s)) (wr (rseek n s))"
    "ring_queue (cap s) (rd (rseek n s)) (wr (rseek n s)) (page s) =
       drop n (ring_queue (cap s) (rd s) (wr s) (page s))"
    "wr (rseek n s) - rd (rseek n s) = wr s - rd s - n"
proof -
  have w: "add64 (rd s) n = rd s + n"
    using assms by (intro add64_small) (auto simp: ring_ok_def)
  have w': "sub64 (rd s + n) (cap s) = rd s + n - cap s" "sub64 (wr s) (cap s) = wr s - cap s" if "cap s \<le> rd s + n"
    using assms that by (auto simp: ring_ok_def intro!: sub64_small)
  show "ring_ok (cap s) (rd (rseek n s)) (wr (rseek n s))"
    using assms by (auto simp: rseek w w' ring_ok_def Let_def)
  show "ring_queue (cap s) (rd (rseek n s)) (wr (rseek n s)) (page s) =
      drop n (ring_queue (cap s) (rd s) (wr s) (page s))"
    using assms ring_queue_seek[of n "wr s" "rd s" "cap s" "page s"] ring_queue_shift[of "cap s" "rd s + n" "wr s" "page s"]
    by (auto simp: rseek w w' Let_def ring_ok_def)
  show "wr (rseek n s) - rd (rseek n s) = wr s - rd s - n"
    using assms by (auto simp: rseek w w' Let_def ring_ok_def)
qed

lemma roll_once:
  assumes ok: "ring_ok (cap s) (rd s) (wr s)" and n: "n \<le> cap s" "n \<le> wr s - rd s \<or> n \<le> cap s - (wr s - rd s)"
  shows "roll n s = Some (if cap s - (wr s - rd s) < n then rseek n s else s)"
proof -
  have av: "sub64 (cap t) (sub64 (wr t) (rd t)) = cap t - (wr t - rd t)" if "ring_ok (cap t) (rd t) (wr t)" for t
  proof -
    have "sub64 (wr t) (rd t) = wr t - rd t"
      using that by (intro sub64_small) (auto simp: ring_ok_def)
    then show ?thesis
      using that sub64_small[of "wr t - rd t" "cap t"] by (auto simp: ring_ok_def)
  qed
  show ?thesis
  proof (cases "cap s - (wr s - rd s) < n")
    case True
    then have le: "n \<le> wr s - rd s"
      using n by linarith
    have "\<not> cap s - (wr (rseek n s) - rd (rseek n s)) < n"
      using rseek_queue(3)[OF ok le] le ok by (auto simp: ring_ok_def)
    then have "roll n (rseek n s) = Some (rseek n s)"
      using av[of "rseek n s"] rseek_queue(1)[OF ok le] roll[of n "rseek n s"] by (simp add: rseek(1))
    moreover have "roll n s = roll n (rseek n s)"
      by (subst roll) (simp only: av[OF ok] True if_True)
    ultimately show ?thesis
      by (simp only: True if_True)
  next
    case False
    then show ?thesis
      by (subst roll) (simp only: av[OF ok] if_False)
  qed
qed

end

section \<open>Both implementations\<close>

definition rb_fits :: "ringbuf \<Rightarrow> bool" where
  "rb_fits rb \<longleftrightarrow> rb_mem rb + 2 * rb_capacity rb < 2 ^ 64"

definition rb_ok :: "ringbuf \<Rightarrow> bool" where
  "rb_ok rb \<longleftrightarrow> ring_ok (rb_capacity rb) (rb_read_loc rb) (rb_write_loc rb) \<and> rb_fits rb"

definition rb_queue :: "ringbuf \<Rightarrow> byte list" where
  "rb_queue rb = ring_queue (rb_capacity rb) (rb_read_loc rb) (rb_write_loc rb) (rb_page rb)"

lemma ring_ptr:
  assumes "ring_ok cap rd wr" "base + 2 * cap < 2 ^ 64"
  shows "add64 base wr = base + wr" "add64 base rd = base + rd" "sub64 wr rd = wr - rd"
    "sub64 cap (wr - rd) = cap - (wr - rd)"
  using assms sub64_small[of "wr - rd" cap] by (auto simp: ring_ok_def intro!: add64_small sub64_small)

interpretation rb: ring rb_capacity rb_read_loc rb_write_loc rb_page ringbuf_wseek ringbuf_rseek ringbuf_roll
  "\<lambda>bs s. ringbuf_store (fst (ringbuf_push (length bs) s)) bs" rb_fits
proof
  show "ringbuf_roll n s = (if sub64 (rb_capacity s) (sub64 (rb_write_loc s) (rb_read_loc s)) < n
      then ringbuf_roll n (ringbuf_rseek n s) else Some s)" for n s
    by (subst ringbuf_roll.simps) (simp add: ringbuf_avail_def ringbuf_size_def)
qed (auto simp: ringbuf_wseek_def ringbuf_rseek_def Let_def ringbuf_store_def ringbuf_push_def rb_fits_def ring_ptr(1))

definition rf_fits :: "ringfile \<Rightarrow> bool" where
  "rf_fits rb \<longleftrightarrow> rf_rbuf rb + 2 * ringfile_capacity rb < 2 ^ 64"

definition rf_ok :: "ringfile \<Rightarrow> bool" where
  "rf_ok rb \<longleftrightarrow> ring_ok (ringfile_capacity rb) (ringfile_rlocpos rb) (ringfile_wlocpos rb) \<and> rf_fits rb"

definition rf_queue :: "ringfile \<Rightarrow> byte list" where
  "rf_queue rb = ring_queue (ringfile_capacity rb) (ringfile_rlocpos rb) (ringfile_wlocpos rb) (rf_page rb)"

lemmas rf_defs = ringfile_capacity_def ringfile_rlocpos_def ringfile_wlocpos_def ringfile_get_header_def
  ringfile_set_header_def rf_page_def

interpretation rf: ring ringfile_capacity ringfile_rlocpos ringfile_wlocpos rf_page ringfile_wseek ringfile_rseek
  ringfile_roll "\<lambda>bs s. ringfile_store (fst (ringfile_push (length bs) s)) bs" rf_fits
proof
  show "ringfile_roll n s = (if sub64 (ringfile_capacity s) (sub64 (ringfile_wlocpos s) (ringfile_rlocpos s)) < n
      then ringfile_roll n (ringfile_rseek n s) else Some s)" for n s
    by (subst ringfile_roll.simps) (simp add: ringfile_avail_def ringfile_size_def)
next
  fix s bs n
  assume "ring_ok (ringfile_capacity s) (ringfile_rlocpos s) (ringfile_wlocpos s)" "rf_fits s"
  then show "rf_page (ringfile_store (fst (ringfile_push (length bs) s)) bs (ringfile_wseek n s)) =
      ring_poke (ringfile_capacity s) (ringfile_wlocpos s) bs (rf_page s)"
    using ring_ptr(1)[of "ringfile_capacity s" "ringfile_rlocpos s" "ringfile_wlocpos s" "rf_rbuf s"]
    by (auto simp: fun_eq_iff ringfile_store_def ringfile_push_def ringfile_wloc_def rf_fits_def ringfile_wseek_def
        rf_defs Let_def)
qed (auto simp: ringfile_wseek_def ringfile_rseek_def Let_def ringfile_store_def ringfile_push_def rf_fits_def rf_defs
    fun_eq_iff)

section \<open>Properties\<close>

lemma rb_sizes:
  assumes "rb_ok rb"
  shows "ringbuf_size rb = rb_write_loc rb - rb_read_loc rb"
    "ringbuf_avail rb = rb_capacity rb - (rb_write_loc rb - rb_read_loc rb)"
    "ringbuf_mem rb + rb_read_loc rb = fst (ringbuf_pop n rb)" "ringbuf_mem rb + rb_write_loc rb = fst (ringbuf_push n rb)"
  using ring_ptr[of "rb_capacity rb" "rb_read_loc rb" "rb_write_loc rb" "rb_mem rb"] assms
  by (simp_all only: rb_ok_def rb_fits_def ringbuf_size_def ringbuf_avail_def ringbuf_pop_def ringbuf_push_def
      ringbuf_mem_def fst_conv)

lemma ringbuf_store_frame [simp]:
  "rb_capacity (ringbuf_store p bs rb) = rb_capacity rb" "rb_fits (ringbuf_store p bs rb) = rb_fits rb"
  by (simp_all add: ringbuf_store_def rb_fits_def)

lemma ringbuf_push_store:
  assumes ok: "rb_ok rb" and le: "length bs \<le> ringbuf_avail rb" and p: "ringbuf_push (length bs) rb = (p, rb')"
  shows "rb_ok (ringbuf_store p bs rb') \<and> rb_queue (ringbuf_store p bs rb') = rb_queue rb @ bs \<and>
    ringbuf_mem rb \<le> p \<and> p + length bs \<le> ringbuf_mem rb + 2 * rb_capacity rb"
proof -
  have o: "ring_ok (rb_capacity rb) (rb_read_loc rb) (rb_write_loc rb)" "rb_fits rb"
    using ok by (simp_all add: rb_ok_def)
  have st: "p = fst (ringbuf_push (length bs) rb)" "rb' = ringbuf_wseek (length bs) rb"
    using p by (simp_all add: ringbuf_push_def)
  have "length bs \<le> rb_capacity rb - (rb_write_loc rb - rb_read_loc rb)"
    using le rb_sizes(2)[OF ok] by (simp only:)
  note w = rb.wseek_put[OF o this]
  have "p = ringbuf_mem rb + rb_write_loc rb"
    using st(1) rb_sizes(4)[OF ok] by simp
  then show ?thesis
    using w o unfolding st(2) rb_ok_def rb_queue_def
    by (simp add: rb.put rb.wseek st(1))
qed

lemma ringbuf_pop_load:
  assumes ok: "rb_ok rb" and le: "n \<le> ringbuf_size rb" and p: "ringbuf_pop n rb = (p, rb')"
  shows "rb_ok rb' \<and> ringbuf_load p n rb = take n (rb_queue rb) \<and> rb_queue rb' = drop n (rb_queue rb) \<and>
    ringbuf_mem rb \<le> p \<and> p + n \<le> ringbuf_mem rb + 2 * rb_capacity rb"
proof -
  have o: "ring_ok (rb_capacity rb) (rb_read_loc rb) (rb_write_loc rb)" "rb_fits rb"
    using ok by (simp_all add: rb_ok_def)
  have n: "n \<le> rb_write_loc rb - rb_read_loc rb"
    using le rb_sizes(1)[OF ok] by simp
  have st: "p = ringbuf_mem rb + rb_read_loc rb" "rb' = ringbuf_rseek n rb"
    using p rb_sizes(3)[OF ok] by (simp_all add: ringbuf_pop_def)
  have "p + n \<le> ringbuf_mem rb + 2 * rb_capacity rb"
    using st(1) n o(1) by (auto simp: ring_ok_def)
  then show ?thesis
    using rb.rseek_queue[OF o(1) n] o st ring_peek_queue[OF n]
    by (simp add: rb_ok_def rb_queue_def ringbuf_load_def rb.rseek ringbuf_mem_def)
qed

lemma ringbuf_rolling_push_store:
  assumes ok: "rb_ok rb" and le: "length bs \<le> rb_capacity rb" "length bs \<le> ringbuf_size rb \<or> length bs \<le> ringbuf_avail rb"
  shows "\<exists>p rb'. ringbuf_rolling_push (length bs) rb = Some (p, rb') \<and> rb_ok (ringbuf_store p bs rb') \<and>
    rb_queue (ringbuf_store p bs rb') =
      (if ringbuf_avail rb < length bs then drop (length bs) (rb_queue rb) else rb_queue rb) @ bs"
proof -
  let ?n = "length bs"
  define s where "s = (if ringbuf_avail rb < ?n then ringbuf_rseek ?n rb else rb)"
  have o: "ring_ok (rb_capacity rb) (rb_read_loc rb) (rb_write_loc rb)"
    using ok by (simp add: rb_ok_def)
  have roll: "ringbuf_roll ?n rb = Some s"
    using rb.roll_once[OF o le(1)] le(2) unfolding s_def rb_sizes(1,2)[OF ok] by blast
  have s: "rb_ok s \<and> ?n \<le> ringbuf_avail s \<and>
    rb_queue s = (if ringbuf_avail rb < ?n then drop ?n (rb_queue rb) else rb_queue rb)"
  proof (cases "ringbuf_avail rb < ?n")
    case True
    then have n: "?n \<le> ringbuf_size rb"
      using le(2) by linarith
    have p: "ringbuf_pop ?n rb = (fst (ringbuf_pop ?n rb), s)"
      using True by (simp add: ringbuf_pop_def s_def)
    have ok': "rb_ok s" "rb_queue s = drop ?n (rb_queue rb)"
      using ringbuf_pop_load[OF ok n p] by simp_all
    have "rb_capacity s = rb_capacity rb" "rb_write_loc s - rb_read_loc s = rb_write_loc rb - rb_read_loc rb - ?n"
      using True rb.rseek_queue(3)[OF o] n rb_sizes(1)[OF ok] by (simp_all add: s_def rb.rseek(1))
    moreover have "?n \<le> rb_capacity rb - (w - ?n)" if "?n \<le> w" "w \<le> rb_capacity rb" for w
      using that by simp
    moreover have "rb_write_loc rb - rb_read_loc rb \<le> rb_capacity rb"
      using o by (auto simp: ring_ok_def)
    ultimately have "?n \<le> ringbuf_avail s"
      unfolding rb_sizes(2)[OF ok'(1)] using n unfolding rb_sizes(1)[OF ok] by metis
    then show ?thesis
      using True ok' by simp
  qed (use ok in \<open>simp add: s_def\<close>)
  moreover obtain p rb' where "ringbuf_push ?n s = (p, rb')"
    by fastforce
  ultimately show ?thesis
    using ringbuf_push_store[of s bs p rb'] roll by (simp add: ringbuf_rolling_push_def)
qed


definition ringbuf_example :: ringbuf where
  "ringbuf_example = \<lparr>rb_mem = 65536, rb_capacity = 4096, rb_read_loc = 4090, rb_write_loc = 4095, rb_page = (\<lambda>_. 0)\<rparr>"

lemma ringbuf_example_ok: "rb_ok ringbuf_example" "ringbuf_avail ringbuf_example = 4091"
proof -
  show "rb_ok ringbuf_example"
    by (simp add: rb_ok_def ring_ok_def rb_fits_def ringbuf_example_def)
  from rb_sizes(2)[OF this] show "ringbuf_avail ringbuf_example = 4091"
    by (simp add: ringbuf_example_def)
qed


section \<open>Resizing\<close>

text \<open>A file that holds a ring, and the bytes in it.\<close>

definition file_queue :: "ring_file \<Rightarrow> byte list" where
  "file_queue f = (let h = fl_header f
     in ring_queue (rh_capacity h) (rh_read_loc h) (rh_write_loc h) (\<lambda>i. fl_bytes f (rh_reserved_size h + i)))"

definition file_ok :: "ring_file \<Rightarrow> bool" where
  "file_ok f \<longleftrightarrow> (let h = fl_header f
     in ring_ok (rh_capacity h) (rh_read_loc h) (rh_write_loc h) \<and> 4096 dvd rh_capacity h \<and>
        4096 dvd rh_reserved_size h \<and> 0 < rh_reserved_size h \<and> rh_reserved_size h < 2 ^ 61 \<and> rh_capacity h < 2 ^ 61 \<and>
        fl_len f = rh_capacity h + rh_reserved_size h)"

definition ring_grants :: "ring_kernel \<Rightarrow> bool" where
  "ring_grants k \<longleftrightarrow> (\<forall>f. rk_open k f) \<and> (\<forall>f n. rk_ftruncate k f n) \<and> (\<forall>f. rk_map k f) \<and> (\<forall>f. rk_map_again k f) \<and>
     (\<forall>f. rk_fstat k f) \<and> (\<forall>f. rk_map_header k f) \<and> (\<forall>f. rk_unlink k f) \<and> (\<forall>f. rk_rename k f) \<and>
     (\<forall>f n. n < 2 ^ 63 \<longrightarrow> (\<exists>a. rk_mmap k f n = Some a \<and> a + n < 2 ^ 64))"

lemma ringfile_init_result:
  fixes fs :: files and name :: string
  assumes k: "ring_grants k" and R: "RIBS_VM_ALIGN (add64 reserved 32) = R" "R < 2 ^ 61"
    and C: "RIBS_VM_ALIGN sz = C" "C < 2 ^ 61"
  defines "f \<equiv> file_truncate (C + R) (case fs name of None \<Rightarrow> empty_file | Some f \<Rightarrow> f)"
  defines "h \<equiv> (if rh_capacity (fl_header f) \<noteq> C \<or> rh_reserved_size (fl_header f) \<noteq> R
      then (fl_header f)\<lparr>rh_read_loc := 0, rh_write_loc := 0\<rparr> else fl_header f)
      \<lparr>rh_capacity := C, rh_reserved_size := R\<rparr>"
  shows "\<exists>a. a + R + 2 * C < 2 ^ 64 \<and> ringfile_init k name sz reserved rb fs =
    (0, \<lparr>rf_rbuf = a + R, rf_mem = a, rf_file = f\<lparr>fl_header := h\<rparr>\<rparr>, fs(name \<mapsto> f\<lparr>fl_header := h\<rparr>))"
proof -
  have s: "add64 C R = C + R" "add64 R (shl64 C (Suc 0)) = R + 2 * C"
    using R(2) C(2) by (simp_all add: add64_small shl64_small)
  have "R + 2 * C < 2 ^ 63"
    using R(2) C(2) by simp
  then obtain a where a: "rk_mmap k name (R + 2 * C) = Some a" "a + (R + 2 * C) < 2 ^ 64"
    using k unfolding ring_grants_def by blast
  have "add64 a R = a + R"
    using a(2) by (simp add: add64_small)
  then show ?thesis
    using a k by (intro exI[of _ a], cases rb)
      (simp add: ringfile_init_def Let_def R(1) C(1) s RINGFILE_HEADER_SIZE_def ring_grants_def f_def h_def)
qed

lemma ring_queue_cong:
  assumes "0 < cap" "\<And>i. i < cap \<Longrightarrow> p i = q i"
  shows "ring_queue cap rd wr p = ring_queue cap rd wr q"
  using assms by (simp add: ring_queue_def ring_peek_def)

lemma page_align:
  assumes "4096 dvd x" "x < 2 ^ 61"
  shows "RIBS_VM_ALIGN x = x"
  using assms align_up_id[of 4096 x] by (simp add: RIBS_VM_ALIGN_def RIBS_VM_PAGESIZE_def)

lemma ringfile_open_ok:
  assumes k: "ring_grants k" and f: "fs name = Some f" "file_ok f"
  obtains old where "ringfile_init k name (rh_capacity (fl_header f))
      (sub64 (rh_reserved_size (fl_header f)) RINGFILE_HEADER_SIZE) rb fs = (0, old, fs(name \<mapsto> rf_file old))"
    "rf_ok old" "rf_queue old = file_queue f" "fl_header (rf_file old) = fl_header f"
    "\<And>i. i < rh_reserved_size (fl_header f) \<Longrightarrow> fl_bytes (rf_file old) i = fl_bytes f i"
proof -
  let ?h = "fl_header f"
  let ?C = "rh_capacity ?h" and ?R = "rh_reserved_size ?h"
  have h: "4096 dvd ?C" "?C < 2 ^ 61" "4096 dvd ?R" "?R < 2 ^ 61" "0 < ?R"
    "ring_ok ?C (rh_read_loc ?h) (rh_write_loc ?h)" "fl_len f = ?C + ?R"
    using f(2) by (simp_all add: file_ok_def Let_def)
  have big: "4096 \<le> ?R"
    using h(3,5) by (intro dvd_imp_le) auto
  have "sub64 ?R 32 = ?R - 32"
    using big h(4) by (intro sub64_small) simp_all
  then have "add64 (sub64 ?R RINGFILE_HEADER_SIZE) 32 = ?R"
    using big h(4) by (simp add: RINGFILE_HEADER_SIZE_def add64_small)
  then have R: "RIBS_VM_ALIGN (add64 (sub64 ?R RINGFILE_HEADER_SIZE) 32) = ?R"
    using page_align[OF h(3,4)] by simp
  obtain a where a: "a + ?R + 2 * ?C < 2 ^ 64"
    "ringfile_init k name ?C (sub64 ?R RINGFILE_HEADER_SIZE) rb fs =
      (0, \<lparr>rf_rbuf = a + ?R, rf_mem = a, rf_file = file_truncate (?C + ?R) f\<rparr>, fs(name \<mapsto> file_truncate (?C + ?R) f))"
    using ringfile_init_result[OF k R h(4) page_align[OF h(1,2)] h(2), where fs = fs and name = name and rb = rb] f(1) by (auto simp: file_truncate_def)
  have "rf_queue \<lparr>rf_rbuf = a + ?R, rf_mem = a, rf_file = file_truncate (?C + ?R) f\<rparr> = file_queue f"
    using h(6) unfolding rf_queue_def file_queue_def rf_defs Let_def
    by (simp add: file_truncate_def ring_ok_def) (rule ring_queue_cong, auto)
  then show ?thesis
    using that[OF _ _ _ _ _ , of "\<lparr>rf_rbuf = a + ?R, rf_mem = a, rf_file = file_truncate (?C + ?R) f\<rparr>"] a h(6)
    by (simp add: rf_ok_def rf_fits_def rf_defs file_truncate_def)
qed

lemma ringfile_create_ok:
  assumes k: "ring_grants k" and f: "fs name = None" and R: "RIBS_VM_ALIGN (add64 reserved 32) = R" "R < 2 ^ 61"
    and C: "RIBS_VM_ALIGN sz = C" "0 < C" "C < 2 ^ 61"
  obtains new where "ringfile_init k name sz reserved rb fs = (0, new, fs(name \<mapsto> rf_file new))"
    "rf_ok new" "fl_header (rf_file new) = \<lparr>rh_capacity = C, rh_read_loc = 0, rh_write_loc = 0, rh_reserved_size = R\<rparr>"
    "fl_len (rf_file new) = C + R"
proof -
  let ?f = "(file_truncate (C + R) empty_file)\<lparr>fl_header := \<lparr>rh_capacity = C, rh_read_loc = 0, rh_write_loc = 0, rh_reserved_size = R\<rparr>\<rparr>"
  obtain a where a: "a + R + 2 * C < 2 ^ 64" "ringfile_init k name sz reserved rb fs =
      (0, \<lparr>rf_rbuf = a + R, rf_mem = a, rf_file = ?f\<rparr>, fs(name \<mapsto> ?f))"
    using ringfile_init_result[OF k R C(1,3), where fs = fs and name = name and rb = rb] f
    by (auto simp: file_truncate_def empty_file_def zero_header_def)
  then show ?thesis
    using that[of "\<lparr>rf_rbuf = a + R, rf_mem = a, rf_file = ?f\<rparr>"] C
    by (simp add: rf_ok_def rf_fits_def rf_defs ring_ok_def file_truncate_def)
qed

lemma ringfile_fill:
  assumes "rf_ok new" "fl_header (rf_file new) = \<lparr>rh_capacity = C, rh_read_loc = 0, rh_write_loc = 0, rh_reserved_size = R\<rparr>"
    and "length bs \<le> C"
  defines "g \<equiv> rf_file (ringfile_wseek (length bs) (ringfile_store (ringfile_wloc new) bs new))"
  shows "fl_header g = \<lparr>rh_capacity = C, rh_read_loc = 0, rh_write_loc = length bs, rh_reserved_size = R\<rparr>"
    "file_queue g = bs" "fl_len g = fl_len (rf_file new)" "i < R \<Longrightarrow> fl_bytes g i = fl_bytes (rf_file new) i"
proof -
  have ok: "ring_ok C 0 0" "rf_rbuf new + 2 * C < 2 ^ 64"
    using assms(1,2) by (simp_all add: rf_ok_def rf_fits_def rf_defs)
  have p: "ringfile_wloc new = rf_rbuf new" "add64 0 (length bs) = length bs"
    using assms(2,3) ok ring_ptr(1)[OF ok] add64_small[of 0 "length bs"]
    by (auto simp: ringfile_wloc_def rf_defs ring_ok_def)
  have g: "g = (rf_file new)\<lparr>fl_bytes := (\<lambda>i. if R \<le> i then ring_poke C 0 bs (\<lambda>i. fl_bytes (rf_file new) (R + i)) (i - R)
        else fl_bytes (rf_file new) i),
      fl_header := \<lparr>rh_capacity = C, rh_read_loc = 0, rh_write_loc = length bs, rh_reserved_size = R\<rparr>\<rparr>"
    using assms(2) p by (simp add: g_def ringfile_wseek_def ringfile_store_def rf_defs Let_def)
  show "fl_header g = \<lparr>rh_capacity = C, rh_read_loc = 0, rh_write_loc = length bs, rh_reserved_size = R\<rparr>"
    "fl_len g = fl_len (rf_file new)" "i < R \<Longrightarrow> fl_bytes g i = fl_bytes (rf_file new) i"
    by (simp_all add: g)
  show "file_queue g = bs"
    using ring_queue_put[OF ok(1), of bs] assms(3)
    by (simp add: g file_queue_def Let_def) (simp add: ring_queue_def ring_peek_def)
qed

lemma copy_reserved_frame [simp]:
  "fl_header (rf_file (copy_reserved n old new)) = fl_header (rf_file new)"
  "fl_len (rf_file (copy_reserved n old new)) = fl_len (rf_file new)"
  "rf_rbuf (copy_reserved n old new) = rf_rbuf new"
  "rf_ok (copy_reserved n old new) = rf_ok new"
  by (simp_all add: copy_reserved_def rf_ok_def rf_fits_def rf_defs)

lemma ring_queue_length: "length (ring_queue cap rd wr p) = wr - rd"
  by (simp add: ring_queue_def ring_peek_def)

lemma ringfile_trim_ok:
  fixes c :: nat
  assumes ok: "rf_ok old"
  defines "t \<equiv> if c < ringfile_size old then ringfile_rseek (sub64 (ringfile_size old) c) old else old"
  shows "rf_queue t = drop (length (rf_queue old) - c) (rf_queue old)" "rf_ok t"
    "ringfile_load (ringfile_rloc t) (ringfile_size t) t = rf_queue t"
    "\<And>i. fl_bytes (rf_file t) i = fl_bytes (rf_file old) i"
proof -
  have rg: "ring_ok (ringfile_capacity r) (ringfile_rlocpos r) (ringfile_wlocpos r)" "rf_fits r"
    "ringfile_size r = ringfile_wlocpos r - ringfile_rlocpos r" "length (rf_queue r) = ringfile_size r"
    "ringfile_rloc r = rf_rbuf r + ringfile_rlocpos r" if "rf_ok r" for r
    using that ring_ptr[of "ringfile_capacity r" "ringfile_rlocpos r" "ringfile_wlocpos r" "rf_rbuf r"]
    by (simp_all add: rf_ok_def rf_fits_def ringfile_size_def rf_queue_def ring_queue_length ringfile_rloc_def)
  have "rf_queue t = drop (length (rf_queue old) - c) (rf_queue old) \<and> rf_ok t"
  proof (cases "c < ringfile_size old")
    case True
    have "sub64 (ringfile_size old) c = ringfile_size old - c"
      using True rg(1,3)[OF ok] by (intro sub64_small) (auto simp: ring_ok_def)
    then have "t = ringfile_rseek (ringfile_size old - c) old"
      using True by (simp add: t_def)
    then show ?thesis
      using rf.rseek_queue[OF rg(1)[OF ok], of "ringfile_size old - c"] rg[OF ok]
      by (simp add: rf_queue_def rf_ok_def rf.rseek(1-3))
  qed (use ok rg(4)[OF ok] in \<open>simp add: t_def\<close>)
  then show "rf_queue t = drop (length (rf_queue old) - c) (rf_queue old)" and ok': "rf_ok t"
    by simp_all
  show "ringfile_load (ringfile_rloc t) (ringfile_size t) t = rf_queue t"
    using rg(3,5)[OF ok'] by (simp add: ringfile_load_def rf_queue_def ring_queue_def)
  show "fl_bytes (rf_file t) i = fl_bytes (rf_file old) i" for i
    by (simp add: t_def ringfile_rseek_def ringfile_set_header_def)
qed

lemma ring_sizes_aligned:
  assumes "0 < capacity" "capacity < 2 ^ 60" "reserved < 2 ^ 60"
  shows "4096 dvd RIBS_VM_ALIGN capacity" "0 < RIBS_VM_ALIGN capacity" "RIBS_VM_ALIGN capacity < 2 ^ 61"
    "4096 dvd RIBS_VM_ALIGN (add64 reserved 32)" "4096 \<le> RIBS_VM_ALIGN (add64 reserved 32)"
    "RIBS_VM_ALIGN (add64 reserved 32) < 2 ^ 61"
proof -
  have a: "add64 reserved 32 = reserved + 32"
    using assms(3) by (simp add: add64_small)
  note g = align_up_ge[of 4096] align_up_lt[of 4096] align_up_dvd[of 4096]
  show "4096 dvd RIBS_VM_ALIGN capacity" "0 < RIBS_VM_ALIGN capacity" "RIBS_VM_ALIGN capacity < 2 ^ 61"
    using g[of capacity] assms(1,2) by (simp_all add: RIBS_VM_ALIGN_def RIBS_VM_PAGESIZE_def)
  show d: "4096 dvd RIBS_VM_ALIGN (add64 reserved 32)" and "RIBS_VM_ALIGN (add64 reserved 32) < 2 ^ 61"
    using g[of "reserved + 32"] assms(3) a by (simp_all add: RIBS_VM_ALIGN_def RIBS_VM_PAGESIZE_def)
  have "0 < RIBS_VM_ALIGN (add64 reserved 32)"
    using g[of "reserved + 32"] assms(3) a by (simp add: RIBS_VM_ALIGN_def RIBS_VM_PAGESIZE_def)
  then show "4096 \<le> RIBS_VM_ALIGN (add64 reserved 32)"
    using d by (intro dvd_imp_le)
qed

text \<open>What the new file holds when its ring has been filled from the old one.\<close>

definition ringfile_moved :: "nat \<Rightarrow> ringfile \<Rightarrow> ringfile \<Rightarrow> ring_file" where
  "ringfile_moved m t new = (let new = copy_reserved m t new in rf_file (ringfile_wseek (ringfile_size t)
     (ringfile_store (ringfile_wloc new) (ringfile_load (ringfile_rloc t) (ringfile_size t) t) new)))"

lemma ringfile_resize_run:
  assumes "\<not> PATH_MAX \<le> length (name @ ''.new.temp'')" "ringfile_read_header k fs name = Some h" "rh_capacity h \<noteq> 0"
    and "\<not> (rh_capacity h = RIBS_VM_ALIGN capacity \<and> rh_reserved_size h = RIBS_VM_ALIGN (add64 reserved 32))"
    and "ringfile_init k name (rh_capacity h) (sub64 (rh_reserved_size h) RINGFILE_HEADER_SIZE) RINGFILE_INITIALIZER fs =
      (0, old, fs(name \<mapsto> rf_file old))"
    and "rk_unlink k (name @ ''.new.temp'')" "rk_rename k (name @ ''.new.temp'')"
  defines "t \<equiv> if RIBS_VM_ALIGN capacity < ringfile_size old
      then ringfile_rseek (sub64 (ringfile_size old) (RIBS_VM_ALIGN capacity)) old else old"
  assumes "ringfile_init k (name @ ''.new.temp'') capacity reserved RINGFILE_INITIALIZER
      (fs(name \<mapsto> rf_file t, name @ ''.new.temp'' := None)) =
      (0, new, fs(name \<mapsto> rf_file t, name @ ''.new.temp'' := None, name @ ''.new.temp'' \<mapsto> rf_file new))"
  shows "ringfile_resize k name capacity reserved None fs = Some (0, fs(
    name \<mapsto> ringfile_moved (min (sub64 (rh_reserved_size h) 32) (sub64 (RIBS_VM_ALIGN (add64 reserved 32)) 32)) t new,
    name @ ''.new.temp'' := None))"
proof -
  have f: "name \<noteq> name @ ''.new.temp''"
    by simp
  show ?thesis
    using assms(1-7,9)
    by (auto simp: ringfile_resize_def Let_def RINGFILE_HEADER_SIZE_def t_def[symmetric] ringfile_moved_def
        fun_upd_twist[OF f])
qed

lemma ringfile_moved_ok:
  fixes m :: nat
  assumes t: "rf_ok t" "ringfile_load (ringfile_rloc t) (ringfile_size t) t = rf_queue t" "length (rf_queue t) \<le> C"
    and new: "rf_ok new" "fl_len (rf_file new) = C + R"
      "fl_header (rf_file new) = \<lparr>rh_capacity = C, rh_read_loc = 0, rh_write_loc = 0, rh_reserved_size = R\<rparr>"
    and sz: "4096 dvd C" "0 < C" "C < 2 ^ 61" "4096 dvd R" "4096 \<le> R" "R < 2 ^ 61"
  defines "g \<equiv> ringfile_moved m t new"
  shows "file_ok g" "fl_header g = \<lparr>rh_capacity = C, rh_read_loc = 0, rh_write_loc = length (rf_queue t), rh_reserved_size = R\<rparr>"
    "file_queue g = rf_queue t" "32 \<le> i \<Longrightarrow> i < 32 + m \<Longrightarrow> i < R \<Longrightarrow> fl_bytes g i = fl_bytes (rf_file t) i"
proof -
  have sz_t: "ringfile_size t = length (rf_queue t)"
    using t(2) by (metis length_map length_upt minus_nat.diff_0 ringfile_load_def ring_peek_def)
  have "rf_ok (copy_reserved m t new)" "fl_header (rf_file (copy_reserved m t new)) =
      \<lparr>rh_capacity = C, rh_read_loc = 0, rh_write_loc = 0, rh_reserved_size = R\<rparr>"
    using new by simp_all
  note f = ringfile_fill[OF this t(3)]
  have g: "g = rf_file (ringfile_wseek (length (rf_queue t)) (ringfile_store (ringfile_wloc (copy_reserved m t new))
      (rf_queue t) (copy_reserved m t new)))"
    by (simp only: g_def ringfile_moved_def Let_def sz_t t(2)[unfolded sz_t])
  show h: "fl_header g = \<lparr>rh_capacity = C, rh_read_loc = 0, rh_write_loc = length (rf_queue t), rh_reserved_size = R\<rparr>"
    and "file_queue g = rf_queue t"
    unfolding g by (rule f(1), rule f(2))
  show "32 \<le> i \<Longrightarrow> i < 32 + m \<Longrightarrow> i < R \<Longrightarrow> fl_bytes g i = fl_bytes (rf_file t) i"
    using f(4) unfolding g by (simp add: copy_reserved_def RINGFILE_HEADER_SIZE_def)
  have "fl_len g = C + R"
    using f(3) new(2) unfolding g by simp
  then show "file_ok g"
    using h t(3) sz by (simp add: file_ok_def ring_ok_def)
qed

text \<open>C34. Resizing a ring file keeps its contents.  When the kernel grants what is asked, resizing the file
  of a ring (with no eviction function) succeeds and leaves under the same name a ring of the new size
  whose bytes are the old ones, the oldest dropped when they no longer fit, and whose reserved area
  has the old reserved bytes.\<close>

theorem ringfile_resize_correct:
  assumes "ring_grants k" "fs name = Some f" "file_ok f" "length name < 4000"
    and "0 < capacity" "capacity < 2 ^ 60" "reserved < 2 ^ 60"
  shows "\<exists>fs' f'. ringfile_resize k name capacity reserved None fs = Some (0, fs') \<and> fs' name = Some f' \<and> file_ok f' \<and>
    rh_capacity (fl_header f') = RIBS_VM_ALIGN capacity \<and>
    file_queue f' = drop (length (file_queue f) - RIBS_VM_ALIGN capacity) (file_queue f) \<and>
    (\<forall>i. 32 \<le> i \<and> i < rh_reserved_size (fl_header f) \<and> i < rh_reserved_size (fl_header f') \<longrightarrow>
       fl_bytes f' i = fl_bytes f i)"
proof -
  define C where "C = RIBS_VM_ALIGN capacity"
  define R where "R = RIBS_VM_ALIGN (add64 reserved 32)"
  let ?h = "fl_header f" and ?new = "name @ ''.new.temp''"
  note sz = ring_sizes_aligned[OF assms(5-7), folded C_def R_def]
  have h: "0 < rh_capacity ?h" "32 \<le> rh_reserved_size ?h" "rh_reserved_size ?h < 2 ^ 61" "32 \<le> fl_len f"
    "length (file_queue f) \<le> rh_capacity ?h"
    using assms(3) by (auto simp: file_ok_def ring_ok_def Let_def file_queue_def ring_queue_length dest: dvd_imp_le)
  have hdr: "ringfile_read_header k fs name = Some ?h"
    using assms(1,2) h(4) by (simp add: ringfile_read_header_def ring_grants_def RINGFILE_HEADER_SIZE_def)
  have path: "\<not> PATH_MAX \<le> length ?new"
    using assms(4) by (simp add: PATH_MAX_def)
  show ?thesis
  proof (cases "rh_capacity ?h = C \<and> rh_reserved_size ?h = R")
    case True
    then have "ringfile_resize k name capacity reserved None fs = Some (0, fs)"
      using path hdr h(1)
      by (simp add: ringfile_resize_def Let_def RINGFILE_HEADER_SIZE_def flip: C_def R_def)
    then show ?thesis
      using True assms(2,3) h(5) by (auto simp: C_def)
  next
    case False
    obtain old where old: "ringfile_init k name (rh_capacity ?h) (sub64 (rh_reserved_size ?h) RINGFILE_HEADER_SIZE)
          RINGFILE_INITIALIZER fs = (0, old, fs(name \<mapsto> rf_file old))"
      "rf_ok old" "rf_queue old = file_queue f" "\<And>i. i < rh_reserved_size ?h \<Longrightarrow> fl_bytes (rf_file old) i = fl_bytes f i"
      using ringfile_open_ok[where fs = fs and name = name, OF assms(1-3)] by metis
    define t where "t = (if C < ringfile_size old then ringfile_rseek (sub64 (ringfile_size old) C) old else old)"
    note t = ringfile_trim_ok[OF old(2), of C, folded t_def]
    let ?fs = "fs(name \<mapsto> rf_file t, ?new := None)"
    obtain new where new: "ringfile_init k ?new capacity reserved RINGFILE_INITIALIZER ?fs = (0, new, ?fs(?new \<mapsto> rf_file new))"
      "rf_ok new" "fl_header (rf_file new) = \<lparr>rh_capacity = C, rh_read_loc = 0, rh_write_loc = 0, rh_reserved_size = R\<rparr>"
      "fl_len (rf_file new) = C + R"
      by (rule ringfile_create_ok[OF assms(1), of ?fs ?new reserved R capacity C RINGFILE_INITIALIZER])
        (use sz in \<open>simp_all add: C_def R_def\<close>)
    define m where "m = min (sub64 (rh_reserved_size ?h) 32) (sub64 R 32)"
    define g where "g = ringfile_moved m t new"
    have "ringfile_resize k name capacity reserved None fs = Some (0, fs(name \<mapsto> g, ?new := None))"
      unfolding g_def m_def
      by (rule ringfile_resize_run[OF path hdr _ _ old(1), where capacity = capacity and reserved = reserved,
            folded C_def R_def, folded t_def])
        (use False h(1) new(1) assms(1) in \<open>simp_all add: ring_grants_def\<close>)
    moreover have len: "length (rf_queue t) \<le> C"
      using t(1) by simp
    note g = ringfile_moved_ok[OF t(2,3) len new(2,4,3) sz(1-6), where m = m, folded g_def]
    have "m = min (rh_reserved_size ?h - 32) (R - 32)"
      using sub64_small[of 32] h(2,3) sz(5,6) by (simp add: m_def)
    then have "fl_bytes g i = fl_bytes f i" if "32 \<le> i" "i < rh_reserved_size ?h" "i < R" for i
      using g(4)[of i] t(4)[of i] old(4)[of i] that by simp
    ultimately show ?thesis
      using g(1-3) t(1) old(3) by (auto simp: C_def)
  qed
qed

definition ring_generous :: ring_kernel where
  "ring_generous = \<lparr>rk_open = (\<lambda>_. True), rk_ftruncate = (\<lambda>_ _. True), rk_mmap = (\<lambda>_ _. Some 65536), rk_map = (\<lambda>_. True),
     rk_map_again = (\<lambda>_. True), rk_fstat = (\<lambda>_. True), rk_map_header = (\<lambda>_. True), rk_unlink = (\<lambda>_. True),
     rk_rename = (\<lambda>_. True)\<rparr>"

definition ring_file_example :: ring_file where
  "ring_file_example = \<lparr>fl_header = \<lparr>rh_capacity = 4096, rh_read_loc = 4095, rh_write_loc = 4098, rh_reserved_size = 4096\<rparr>,
     fl_bytes = (\<lambda>_. 7), fl_len = 8192\<rparr>"

theorem ringfile_resize_correct_witness:
  "\<exists>fs' f'. ringfile_resize ring_generous ''q'' 8192 0 None [''q'' \<mapsto> ring_file_example] = Some (0, fs') \<and>
     fs' ''q'' = Some f' \<and> rh_capacity (fl_header f') = 8192 \<and> file_queue f' = [7, 7, 7]"
proof -
  have k: "ring_grants ring_generous"
    by (auto simp: ring_grants_def ring_generous_def)
  have f: "file_ok ring_file_example" "file_queue ring_file_example = [7, 7, 7]"
    by (simp_all add: file_ok_def ring_ok_def ring_file_example_def file_queue_def ring_queue_def ring_peek_def numeral_3_eq_3)
  have "RIBS_VM_ALIGN 8192 = 8192"
    by (rule page_align) simp_all
  then show ?thesis
    using ringfile_resize_correct[OF k _ f(1), of "[''q'' \<mapsto> ring_file_example]" "''q''" 8192 0] f(2) by auto
qed

end
