(* ===== verification/Search.thy ===== *)
theory Search
  imports Ribs_Prelude
begin

text \<open>
  \<^verbatim>\<open>src/search.c\<close> and the templates of \<^verbatim>\<open>include/binary_search.h\<close>: bisection of an ordered array.  An array
  is the function from its indices to its elements.  The templates and \<^verbatim>\<open>lower_bound\<close> work with
  \<^verbatim>\<open>uint32_t\<close> positions, \<^verbatim>\<open>binary_search\<close> with \<^verbatim>\<open>size_t\<close>; the sums of two positions wrap around at those
  widths, so the loops are partial functions: not returning is \<^term>\<open>None\<close>.
\<close>

section \<open>The searches\<close>

text \<open>The loop of \<^verbatim>\<open>lower_bound\<close>; \<open>lt m\<close> is its test on element \<open>m\<close>.\<close>

partial_function (option) bisect32 :: "(nat \<Rightarrow> bool) \<Rightarrow> nat \<Rightarrow> nat \<Rightarrow> nat option" where
  "bisect32 lt l h =
     (if l < h then
        (let m = u32 (l + h) div 2
         in if lt m then bisect32 lt (u32 (m + 1)) h else bisect32 lt l m)
      else Some l)"

definition lower_bound :: "'k \<Rightarrow> (nat \<Rightarrow> 'a) \<Rightarrow> nat \<Rightarrow> ('a \<Rightarrow> 'k \<Rightarrow> int) \<Rightarrow> nat option" where
  "lower_bound key base nmemb compar = bisect32 (\<lambda>m. compar (base m) key < 0) 0 (u32 nmemb)"

partial_function (option) bisect64 :: "(nat \<Rightarrow> bool) \<Rightarrow> nat \<Rightarrow> nat \<Rightarrow> nat option" where
  "bisect64 lt low high =
     (if low < high then
        (let curr = add64 low high div 2
         in if lt curr then bisect64 lt (add64 curr 1) high else bisect64 lt low curr)
      else Some low)"

text \<open>The result is the index of the element found, \<^term>\<open>None\<close> inside for NULL.\<close>

definition binary_search :: "'k \<Rightarrow> (nat \<Rightarrow> 'a) \<Rightarrow> nat \<Rightarrow> ('k \<Rightarrow> 'a \<Rightarrow> int) \<Rightarrow> nat option option" where
  "binary_search key base nmemb compar =
     map_option (\<lambda>low. if nmemb \<le> low then None
                       else if compar key (base low) \<noteq> 0 then None else Some low)
       (bisect64 (\<lambda>curr. 0 < compar key (base curr)) 0 nmemb)"

text \<open>The templates, for a type with the operator \<open><\<close> and for one with a predicate.\<close>

definition LOWER_BOUND :: "(nat \<Rightarrow> 'a :: linorder) \<Rightarrow> nat \<Rightarrow> 'a \<Rightarrow> nat option" where
  "LOWER_BOUND data n v = bisect32 (\<lambda>m. data m < v) 0 n"

definition LOWER_BOUND_PRED :: "('a \<Rightarrow> 'a \<Rightarrow> bool) \<Rightarrow> (nat \<Rightarrow> 'a) \<Rightarrow> nat \<Rightarrow> 'a \<Rightarrow> nat option" where
  "LOWER_BOUND_PRED LESSTHAN data n v = bisect32 (\<lambda>m. LESSTHAN (data m) v) 0 n"

definition BINARY_SEARCH_PRED :: "('a \<Rightarrow> 'a \<Rightarrow> bool) \<Rightarrow> (nat \<Rightarrow> 'a) \<Rightarrow> nat \<Rightarrow> 'a \<Rightarrow> (int \<times> nat option) option" where
  "BINARY_SEARCH_PRED LESSTHAN data n v =
     map_option (\<lambda>l. if n \<le> l \<or> LESSTHAN (data l) v \<or> LESSTHAN v (data l) then (-1, None) else (0, Some l))
       (bisect32 (\<lambda>m. LESSTHAN (data m) v) 0 n)"

section \<open>Bisection\<close>

text \<open>What both loops do as long as no sum wraps around.\<close>

locale bisection =
  fixes loop :: "(nat \<Rightarrow> bool) \<Rightarrow> nat \<Rightarrow> nat \<Rightarrow> nat option"
    and bound :: nat
  assumes stop: "h \<le> l \<Longrightarrow> loop lt l h = Some l"
    and step: "l < h \<Longrightarrow> h \<le> bound \<Longrightarrow>
      loop lt l h = (if lt ((l + h) div 2) then loop lt ((l + h) div 2 + 1) h else loop lt l ((l + h) div 2))"
begin

lemma ends:
  "l \<le> h \<Longrightarrow> h \<le> bound \<Longrightarrow> \<exists>r. loop lt l h = Some r \<and> l \<le> r \<and> r \<le> h"
proof (induction "h - l" arbitrary: l h rule: less_induct)
  case less
  show ?case
  proof (cases "l < h")
    case True
    let ?m = "(l + h) div 2"
    have m: "l \<le> ?m" "?m < h"
      using True by auto
    show ?thesis
    proof (cases "lt ?m")
      case True
      then show ?thesis
        using less.hyps[of h "?m + 1"] less.prems m step[of l h lt] by fastforce
    next
      case False
      then show ?thesis
        using less.hyps[of ?m l] less.prems m step[of l h lt] by fastforce
    qed
  qed (use less.prems stop in auto)
qed

lemma partition:
  assumes mono: "\<And>i j. i \<le> j \<Longrightarrow> j < n \<Longrightarrow> lt j \<Longrightarrow> lt i" and n: "n \<le> bound"
  shows "l \<le> h \<Longrightarrow> h \<le> n \<Longrightarrow> (\<forall>i<l. lt i) \<Longrightarrow> (\<forall>i. h \<le> i \<and> i < n \<longrightarrow> \<not> lt i) \<Longrightarrow>
    \<exists>r\<le>n. loop lt l h = Some r \<and> (\<forall>i<r. lt i) \<and> (\<forall>i. r \<le> i \<and> i < n \<longrightarrow> \<not> lt i)"
proof (induction "h - l" arbitrary: l h rule: less_induct)
  case less
  show ?case
  proof (cases "l < h")
    case True
    let ?m = "(l + h) div 2"
    have m: "l \<le> ?m" "?m < h" "h \<le> bound"
      using True less.prems(2) n by auto
    show ?thesis
    proof (cases "lt ?m")
      case t: True
      have "\<forall>i<?m + 1. lt i"
        using mono[of _ ?m] t m less.prems(2) by auto
      then show ?thesis
        using less.hyps[of h "?m + 1"] less.prems m t step[OF True m(3)] by simp
    next
      case False
      have "\<forall>i. ?m \<le> i \<and> i < n \<longrightarrow> \<not> lt i"
        using mono[of ?m] False by auto
      then show ?thesis
        using less.hyps[of ?m l] less.prems m False step[OF True m(3)] by simp
    qed
  qed (use less.prems stop in auto)
qed

end

interpretation b32: bisection bisect32 "2 ^ 31"
proof
  show "bisect32 lt l h = Some l" if "h \<le> l" for lt l h
    using that by (subst bisect32.simps) simp
  show "bisect32 lt l h = (if lt ((l + h) div 2) then bisect32 lt ((l + h) div 2 + 1) h
      else bisect32 lt l ((l + h) div 2))" if "l < h" "h \<le> 2 ^ 31" for lt l h
  proof -
    have "u32 (l + h) = l + h" "u32 ((l + h) div 2 + 1) = (l + h) div 2 + 1"
      using that by (simp_all add: u32_def)
    then show ?thesis
      using that by (subst bisect32.simps) (simp only: Let_def if_True)
  qed
qed

interpretation b64: bisection bisect64 "2 ^ 63"
proof
  show "bisect64 lt l h = Some l" if "h \<le> l" for lt l h
    using that by (subst bisect64.simps) simp
  show "bisect64 lt l h = (if lt ((l + h) div 2) then bisect64 lt ((l + h) div 2 + 1) h
      else bisect64 lt l ((l + h) div 2))" if "l < h" "h \<le> 2 ^ 63" for lt l h
  proof -
    have "add64 l h = l + h" "add64 ((l + h) div 2) 1 = (l + h) div 2 + 1"
      using that by (simp_all add: add64_small)
    then show ?thesis
      using that by (subst bisect64.simps) (simp only: Let_def if_True)
  qed
qed

section \<open>Properties\<close>

text \<open>C36. Both searches end, whatever the comparison answers: \<^verbatim>\<open>lower_bound\<close> with a position in the
  array or its end for up to \<open>2 ^ 31\<close> elements, \<^verbatim>\<open>binary_search\<close> for up to \<open>2 ^ 63\<close>.\<close>

theorem search_terminates:
  "(n \<le> 2 ^ 31 \<longrightarrow> (\<exists>r\<le>n. lower_bound key base n compar = Some r)) \<and>
   (n \<le> 2 ^ 63 \<longrightarrow> (\<exists>r. binary_search key base n compar' = Some r \<and> (\<forall>i. r = Some i \<longrightarrow> i < n)))"
proof (intro conjI impI)
  assume n: "n \<le> 2 ^ 31"
  then have "u32 n = n"
    by (simp add: u32_def)
  then show "\<exists>r\<le>n. lower_bound key base n compar = Some r"
    using b32.ends[of 0 n] n by (auto simp: lower_bound_def)
next
  assume "n \<le> 2 ^ 63"
  then obtain r where "bisect64 (\<lambda>i. 0 < compar' key (base i)) 0 n = Some r"
    using b64.ends[of 0 n "\<lambda>i. 0 < compar' key (base i)"] by auto
  then show "\<exists>r. binary_search key base n compar' = Some r \<and> (\<forall>i. r = Some i \<longrightarrow> i < n)"
    by (cases "n \<le> r"; cases "compar' key (base r) = 0") (simp_all add: binary_search_def)
qed

theorem search_terminates_witness:
  "\<exists>r\<le>5. lower_bound (3 :: int) (\<lambda>i. int i) 5 (\<lambda>a b. a - b) = Some r"
  using search_terminates[of 5 "3 :: int" "\<lambda>i. int i" "\<lambda>a b. a - b" "\<lambda>a b. b - a"] by simp

text \<open>C35. Binary search is linear search.  On an array ordered with respect to the key, the elements
  smaller than the key before those equal to it before the larger ones, \<^verbatim>\<open>binary_search\<close> returns the first
  element equal to the key, or NULL when there is none, and \<^verbatim>\<open>lower_bound\<close> the number of smaller elements.\<close>

theorem search_equiv_linear:
  assumes n: "n \<le> 2 ^ 31"
    and gt: "\<forall>i j. i \<le> j \<and> j < n \<and> 0 < compar key (base j) \<longrightarrow> 0 < compar key (base i)"
    and sm: "\<forall>i j. i \<le> j \<and> j < n \<and> compar key (base i) < 0 \<longrightarrow> compar key (base j) < 0"
  shows "binary_search key base n compar = Some (find (\<lambda>i. compar key (base i) = 0) [0..<n]) \<and>
    lower_bound key base n (\<lambda>a k. - compar k a) = Some (length (filter (\<lambda>i. 0 < compar key (base i)) [0..<n]))"
proof
  let ?P = "\<lambda>i. 0 < compar key (base i)"
  have mono: "\<And>i j. i \<le> j \<Longrightarrow> j < n \<Longrightarrow> ?P j \<Longrightarrow> ?P i"
    using gt by blast
  have "\<exists>r\<le>n. bisect64 ?P 0 n = Some r \<and> (\<forall>i<r. ?P i) \<and> (\<forall>i. r \<le> i \<and> i < n \<longrightarrow> \<not> ?P i)"
    by (rule b64.partition) (use n mono in auto)
  then obtain r where r: "r \<le> n" "bisect64 ?P 0 n = Some r" "\<forall>i<r. ?P i" "\<forall>i. r \<le> i \<and> i < n \<longrightarrow> \<not> ?P i"
    by blast
  show "binary_search key base n compar = Some (find (\<lambda>i. compar key (base i) = 0) [0..<n])"
  proof (cases "r < n \<and> compar key (base r) = 0")
    case True
    then have "find (\<lambda>i. compar key (base i) = 0) [0..<n] = Some r"
      using r(3) by (auto simp: find_Some_iff intro!: exI[of _ r])
    then show ?thesis
      using True r(2) by (simp add: binary_search_def)
  next
    case False
    then have "\<forall>i. r \<le> i \<and> i < n \<longrightarrow> compar key (base i) \<noteq> 0"
      using sm r(4) by (metis linorder_neqE_linordered_idom order_refl order_le_less_trans less_irrefl)
    then have "find (\<lambda>i. compar key (base i) = 0) [0..<n] = None"
      using r(3) by (auto simp: find_None_iff) (metis leI less_irrefl)
    then show ?thesis
      using False r(2) by (auto simp: binary_search_def)
  qed
  have "\<exists>r\<le>n. bisect32 ?P 0 n = Some r \<and> (\<forall>i<r. ?P i) \<and> (\<forall>i. r \<le> i \<and> i < n \<longrightarrow> \<not> ?P i)"
    by (rule b32.partition) (use n mono in auto)
  then obtain q where q: "q \<le> n" "bisect32 ?P 0 n = Some q" "\<forall>i<q. ?P i" "\<forall>i. q \<le> i \<and> i < n \<longrightarrow> \<not> ?P i"
    by blast
  have "filter ?P [0..<n] = filter ?P ([0..<q] @ [q..<n])"
    using q(1) upt_add_eq_append[of 0 q "n - q"] by simp
  also have "\<dots> = [0..<q]"
    using q(3,4) by (simp add: filter_empty_conv)
  finally show "lower_bound key base n (\<lambda>a k. - compar k a) = Some (length (filter ?P [0..<n]))"
    using q(2) n by (simp add: lower_bound_def u32_def)
qed

theorem search_equiv_linear_witness:
  "binary_search (3 :: int) (\<lambda>i. 2 * int i + 1) 4 (\<lambda>k a. k - a) = Some (Some 1)"
proof -
  have "binary_search (3 :: int) (\<lambda>i. 2 * int i + 1) 4 (\<lambda>k a. k - a) =
      Some (find (\<lambda>i. 3 - (2 * int i + 1) = 0) [0..<4])"
    using search_equiv_linear[of 4 "\<lambda>k a. k - a" "3 :: int" "\<lambda>i. 2 * int i + 1"] by auto
  then show ?thesis
    by (simp add: numeral_eq_Suc upt_conv_Cons)
qed

end
