(* ===== verification/Bitvect.thy ===== *)
theory Bitvect
  imports Ribs_Prelude "HOL-Library.Monad_Syntax"
begin

unbundle bit_operations_syntax

text \<open>
  \<^verbatim>\<open>include/bitvect.h\<close>: a vector of bits in 64-bit blocks.  \<open>bv_data\<close> are the blocks the data pointer leads
  to, as many as were allocated; an access to a block beyond them is \<^term>\<open>None\<close>.  The memory comes
  from the current context's allocator, which returns a block of the size asked for.
\<close>

section \<open>State and operations\<close>

record bitvect =
  bv_data :: "64 word list"
  bv_size :: nat

definition BITVECT_INITIALIZER :: bitvect where
  "BITVECT_INITIALIZER = \<lparr>bv_data = [], bv_size = 0\<rparr>"

definition BITVECT_NUM_BITS :: nat where
  "BITVECT_NUM_BITS = 64"

definition BITVECT_ROUND_UP :: "nat \<Rightarrow> nat" where
  "BITVECT_ROUND_UP x = align_up BITVECT_NUM_BITS x"

definition BITVECT_NUM_BITS_TO_NUM_BYTES :: "nat \<Rightarrow> nat" where
  "BITVECT_NUM_BITS_TO_NUM_BYTES x = BITVECT_ROUND_UP x div 8"

definition BITVECT_NUM_BITS_TO_NUM_BLOCKS :: "nat \<Rightarrow> nat" where
  "BITVECT_NUM_BITS_TO_NUM_BLOCKS x = BITVECT_ROUND_UP x div BITVECT_NUM_BITS"

definition bitvect_init :: "nat \<Rightarrow> bitvect \<Rightarrow> int \<times> bitvect" where
  "bitvect_init sz bv =
     (0, bv\<lparr>bv_data := replicate (BITVECT_NUM_BITS_TO_NUM_BYTES sz div 8) 0,
            bv_size := BITVECT_NUM_BITS_TO_NUM_BLOCKS sz\<rparr>)"

text \<open>\<open>mem\<close> are the blocks at the given address.\<close>

definition bitvect_init_mem :: "nat \<Rightarrow> 64 word list \<Rightarrow> bitvect \<Rightarrow> int \<times> bitvect" where
  "bitvect_init_mem sz mem bv = (0, bv\<lparr>bv_data := mem, bv_size := BITVECT_NUM_BITS_TO_NUM_BLOCKS sz\<rparr>)"

definition bitvect_calc_mem_size :: "nat \<Rightarrow> nat" where
  "bitvect_calc_mem_size sz = BITVECT_NUM_BITS_TO_NUM_BYTES sz"

text \<open>The macro behind the bit operations: block and mask of bit \<open>i\<close>.\<close>

definition bit_block :: "nat \<Rightarrow> nat" where
  "bit_block i = i div BITVECT_NUM_BITS"

definition bit_mask :: "nat \<Rightarrow> 64 word" where
  "bit_mask i = push_bit (i mod BITVECT_NUM_BITS) 1"

definition or_block :: "nat \<Rightarrow> 64 word \<Rightarrow> 64 word list \<Rightarrow> 64 word list option" where
  "or_block b a d = (if b < length d then Some (d[b := (d ! b) OR a]) else None)"

definition bitvect_set :: "nat \<Rightarrow> bitvect \<Rightarrow> (int \<times> bitvect) option" where
  "bitvect_set i bv =
     map_option (\<lambda>d. (0, bv\<lparr>bv_data := d\<rparr>)) (or_block (bit_block i) (bit_mask i) (bv_data bv))"

definition bitvect_set_resize :: "nat \<Rightarrow> bitvect \<Rightarrow> (int \<times> bitvect) option" where
  "bitvect_set_resize i bv =
     (let new_size_bytes = BITVECT_NUM_BITS_TO_NUM_BYTES i;
          old_size_bytes = shl64 (bv_size bv) 3;
          bv = (if old_size_bytes < new_size_bytes
                then bv\<lparr>bv_data := take (old_size_bytes div 8) (bv_data bv) @
                                  replicate (new_size_bytes div 8 - old_size_bytes div 8) 0,
                        bv_size := BITVECT_NUM_BITS_TO_NUM_BLOCKS i\<rparr>
                else bv)
      in bitvect_set i bv)"

definition bitvect_reset :: "nat \<Rightarrow> bitvect \<Rightarrow> (int \<times> bitvect) option" where
  "bitvect_reset i bv =
     (if bit_block i < length (bv_data bv)
      then Some (0, bv\<lparr>bv_data := (bv_data bv)[bit_block i := (bv_data bv ! bit_block i) AND NOT (bit_mask i)]\<rparr>)
      else None)"

definition bitvect_isset :: "nat \<Rightarrow> bitvect \<Rightarrow> int option" where
  "bitvect_isset i bv =
     (if bit_block i < length (bv_data bv)
      then Some (if (bv_data bv ! bit_block i) AND bit_mask i \<noteq> 0 then 1 else 0) else None)"

definition bitvect_isset_safe :: "nat \<Rightarrow> bitvect \<Rightarrow> int option" where
  "bitvect_isset_safe i bv = (if i < shl64 (bv_size bv) 6 then bitvect_isset i bv else Some 0)"

text \<open>The version the comment calls not optimised.\<close>

fun bitvect_from_index_simple :: "nat list \<Rightarrow> bitvect \<Rightarrow> (int \<times> bitvect) option" where
  "bitvect_from_index_simple [] bv = Some (0, bv)"
| "bitvect_from_index_simple (i # idx) bv = do {
     p \<leftarrow> bitvect_set i bv;
     bitvect_from_index_simple idx (snd p) }"

fun from_index_loop :: "nat \<Rightarrow> 64 word \<Rightarrow> nat \<Rightarrow> nat list \<Rightarrow> 64 word list \<Rightarrow> 64 word list option" where
  "from_index_loop current a i [] d = or_block current (a OR bit_mask i) d"
| "from_index_loop current a i (j # idx) d =
     (let a = a OR bit_mask i; loc = bit_block j
      in if current \<noteq> loc then do { d \<leftarrow> or_block current a d; from_index_loop loc 0 j idx d }
         else from_index_loop current a j idx d)"

fun bitvect_from_index :: "nat list \<Rightarrow> bitvect \<Rightarrow> (int \<times> bitvect) option" where
  "bitvect_from_index [] bv = Some (-1, bv)"
| "bitvect_from_index (i # idx) bv =
     map_option (\<lambda>d. (0, bv\<lparr>bv_data := d\<rparr>)) (from_index_loop (bit_block i) 0 i idx (bv_data bv))"

definition bitvect_combine ::
    "(64 word \<Rightarrow> 64 word \<Rightarrow> 64 word) \<Rightarrow> bitvect \<Rightarrow> bitvect \<Rightarrow> (int \<times> bitvect) option" where
  "bitvect_combine f bv bv_other =
     (if bv_size bv \<noteq> bv_size bv_other then Some (-1, bv)
      else if length (bv_data bv) < bv_size bv \<or> length (bv_data bv_other) < bv_size bv then None
      else Some (0, bv\<lparr>bv_data := map (\<lambda>(x, y). f x y) (zip (take (bv_size bv) (bv_data bv)) (bv_data bv_other)) @
                                 drop (bv_size bv) (bv_data bv)\<rparr>))"

definition bitvect_combine_and :: "bitvect \<Rightarrow> bitvect \<Rightarrow> (int \<times> bitvect) option" where
  "bitvect_combine_and = bitvect_combine (AND)"

definition bitvect_combine_or :: "bitvect \<Rightarrow> bitvect \<Rightarrow> (int \<times> bitvect) option" where
  "bitvect_combine_or = bitvect_combine (OR)"

text \<open>The positions written to the output buffer, 32 bits each.\<close>

function to_index_word :: "nat \<Rightarrow> 64 word \<Rightarrow> nat \<Rightarrow> nat list" where
  "to_index_word cnt v b =
     (if v = 0 then []
      else (if v AND 1 \<noteq> 0 then [u32 (cnt + b)] else []) @ to_index_word cnt (drop_bit 1 v) ((b + 1) mod 256))"
  by pat_completeness auto
termination
proof (relation "measure (\<lambda>(cnt, v, b). unat v)")
  fix v :: "64 word"
  assume "v \<noteq> 0"
  then have "0 < unat v"
    by (simp add: unat_gt_0)
  then show "((cnt, drop_bit 1 v, (b + 1) mod 256), cnt, v, b) \<in> measure (\<lambda>(cnt, v, b). unat v)" for cnt b
    by (simp add: drop_bit_Suc unat_div)
qed simp

declare to_index_word.simps [simp del]

fun to_index_blocks :: "nat \<Rightarrow> 64 word list \<Rightarrow> nat list" where
  "to_index_blocks cnt [] = []"
| "to_index_blocks cnt (v # vs) = to_index_word cnt v 0 @ to_index_blocks (cnt + BITVECT_NUM_BITS) vs"

definition bitvect_to_index :: "bitvect \<Rightarrow> nat list \<Rightarrow> nat list option" where
  "bitvect_to_index bv output =
     (if length (bv_data bv) < bv_size bv then None
      else Some (output @ to_index_blocks 0 (take (bv_size bv) (bv_data bv))))"

text \<open>\<^verbatim>\<open>__builtin_popcountll\<close> counts the bits that are set.\<close>

definition popcount :: "64 word \<Rightarrow> nat" where
  "popcount v = length (filter (bit v) [0..<64])"

definition bitvect_count :: "bitvect \<Rightarrow> nat option" where
  "bitvect_count bv =
     (if length (bv_data bv) < bv_size bv then None
      else Some (sum_list (map popcount (take (bv_size bv) (bv_data bv)))))"

section \<open>The set of bits\<close>

definition bv_ok :: "bitvect \<Rightarrow> bool" where
  "bv_ok bv \<longleftrightarrow> length (bv_data bv) = bv_size bv \<and> bv_size bv < 2 ^ 58"

definition bv_bits :: "bitvect \<Rightarrow> nat set" where
  "bv_bits bv = {i. i < 64 * bv_size bv \<and> bit (bv_data bv ! (i div 64)) (i mod 64)}"

lemmas bv_consts = BITVECT_NUM_BITS_def bit_block_def

lemma block_lt: "i < 64 * n \<longleftrightarrow> bit_block i < n"
  by (auto simp: bv_consts div_less_iff_less_mult)

lemma same_bit: "i div 64 = j div 64 \<Longrightarrow> i mod 64 = j mod 64 \<Longrightarrow> i = (j :: nat)"
  by (metis mod_div_decomp)

lemma bit_bit_mask: "bit (bit_mask i) k \<longleftrightarrow> k = i mod 64"
  unfolding bit_mask_def BITVECT_NUM_BITS_def bit_push_bit_iff bit_1_iff by auto

lemma bitvect_set_bits:
  assumes "bv_ok bv" "i < 64 * bv_size bv"
  obtains bv' where "bitvect_set i bv = Some (0, bv')" "bv_ok bv'" "bv_bits bv' = insert i (bv_bits bv)"
    "bv_size bv' = bv_size bv"
proof -
  let ?d = "(bv_data bv)[bit_block i := (bv_data bv ! bit_block i) OR bit_mask i]"
  have b: "bit_block i < length (bv_data bv)"
    using assms by (simp add: block_lt bv_ok_def)
  have "bit (?d ! (j div 64)) (j mod 64) \<longleftrightarrow> j = i \<or> bit (bv_data bv ! (j div 64)) (j mod 64)" if "j < 64 * bv_size bv" for j
    using b same_bit[of j i] by (auto simp: nth_list_update bit_or_iff bit_bit_mask bv_consts)
  then have "bv_bits (bv\<lparr>bv_data := ?d\<rparr>) = insert i (bv_bits bv)"
    using assms(2) by (auto simp: bv_bits_def)
  then show ?thesis
    using that[of "bv\<lparr>bv_data := ?d\<rparr>"] b assms(1) by (simp add: bitvect_set_def or_block_def bv_ok_def)
qed

lemma bitvect_reset_bits:
  assumes "bv_ok bv" "i < 64 * bv_size bv"
  obtains bv' where "bitvect_reset i bv = Some (0, bv')" "bv_ok bv'" "bv_bits bv' = bv_bits bv - {i}"
proof -
  let ?d = "(bv_data bv)[bit_block i := (bv_data bv ! bit_block i) AND NOT (bit_mask i)]"
  have b: "bit_block i < length (bv_data bv)"
    using assms by (simp add: block_lt bv_ok_def)
  have "bit (?d ! (j div 64)) (j mod 64) \<longleftrightarrow> j \<noteq> i \<and> bit (bv_data bv ! (j div 64)) (j mod 64)" for j
    using b same_bit[of j i] by (auto simp: nth_list_update bit_and_iff bit_not_iff bit_bit_mask bv_consts)
  then have "bv_bits (bv\<lparr>bv_data := ?d\<rparr>) = bv_bits bv - {i}"
    by (auto simp: bv_bits_def)
  then show ?thesis
    using that[of "bv\<lparr>bv_data := ?d\<rparr>"] b assms(1) by (simp add: bitvect_reset_def bv_ok_def)
qed

lemma and_mask_nonzero: "v AND bit_mask i \<noteq> 0 \<longleftrightarrow> bit v (i mod 64)"
proof -
  have "v AND bit_mask i \<noteq> 0 \<longleftrightarrow> (\<exists>k. bit (v AND bit_mask i) k)"
    by (metis bit_0_eq bot_apply bot_boolE bit_eq_iff)
  then show ?thesis
    by (auto simp: bit_and_iff bit_bit_mask)
qed

lemma bitvect_isset_bits:
  assumes "bv_ok bv"
  shows "bitvect_isset_safe i bv = Some (if i \<in> bv_bits bv then 1 else 0)"
proof -
  have "shl64 (bv_size bv) 6 = 64 * bv_size bv"
    using assms by (simp add: bv_ok_def shl64_small)
  then show ?thesis
    using assms block_lt[of i "bv_size bv"]
    by (auto simp: bitvect_isset_safe_def bitvect_isset_def bv_bits_def bv_ok_def and_mask_nonzero) (simp_all add: bv_consts)
qed

lemma or_block_or:
  "Option.bind (or_block b x d) (or_block b y) = or_block b (x OR y) d"
  by (auto simp: or_block_def or.assoc)

lemma from_index_loop_simple:
  "map_option (\<lambda>d. (0, bv\<lparr>bv_data := d\<rparr>)) (from_index_loop (bit_block i) a i idx d) =
     Option.bind (or_block (bit_block i) a d) (\<lambda>d. bitvect_from_index_simple (i # idx) (bv\<lparr>bv_data := d\<rparr>))"
proof (induction idx arbitrary: i a d)
  case Nil
  then show ?case
    by (auto simp: bitvect_set_def or_block_def or.assoc)
next
  case (Cons j idx)
  show ?case
  proof (cases "bit_block i = bit_block j")
    case True
    then show ?thesis
      using Cons[of j "a OR bit_mask i" d] by (auto simp: Let_def bitvect_set_def or_block_def or.assoc)
  next
    case False
    have "from_index_loop (bit_block i) a i (j # idx) d =
        Option.bind (or_block (bit_block i) (a OR bit_mask i) d) (from_index_loop (bit_block j) 0 j idx)"
      using False by (simp add: Let_def)
    then show ?thesis
      using Cons[of j 0] by (auto simp: bitvect_set_def or_block_def or.assoc)
  qed
qed

lemma to_index_word_bits:
  assumes "unat v < 2 ^ n" "n \<le> 64" "b + n < 256"
  shows "to_index_word c v b = map (\<lambda>k. u32 (c + (b + k))) (filter (bit v) [0..<n])"
  using assms
proof (induction n arbitrary: v b)
  case 0
  then show ?case
    by (subst to_index_word.simps) (simp add: unat_eq_zero)
next
  case (Suc n)
  have lt: "unat (drop_bit 1 v) < 2 ^ n"
    using Suc.prems(1) by (simp add: drop_bit_Suc unat_div)
  have IH: "to_index_word c (drop_bit 1 v) ((b + 1) mod 256) =
      map (\<lambda>k. u32 (c + (b + 1 + k))) (filter (bit (drop_bit 1 v)) [0..<n])"
    using Suc.IH[OF lt, of "b + 1"] Suc.prems by simp
  have f: "filter (bit v) [0..<Suc n] = (if bit v 0 then [0] else []) @ map Suc (filter (bit (drop_bit 1 v)) [0..<n])"
    by (simp add: upt_conv_Cons map_Suc_upt[symmetric] filter_map comp_def bit_drop_bit_eq del: upt_Suc)
  have odd: "v AND 1 \<noteq> 0 \<longleftrightarrow> bit v 0"
    by (simp add: and_one_eq mod2_eq_if bit_0)
  show ?case
  proof (cases "v = 0")
    case False
    then show ?thesis
      unfolding f by (subst to_index_word.simps) (simp add: IH[simplified] odd comp_def)
  qed (subst to_index_word.simps, simp)
qed

lemma unat64_lt: "unat v < 2 ^ 64" for v :: "64 word"
  by (rule order_less_le_trans[OF unsigned_less]) simp

lemma upt_64_split: "[0..<64 * Suc n] = [0..<64] @ map (\<lambda>i. i + 64) [0..<64 * n]"
  by (simp add: map_add_upt upt_add_eq_append[of 0 64 "64 * n", simplified] add.commute)

lemma to_index_blocks_bits:
  "to_index_blocks c vs =
     map (\<lambda>i. u32 (c + i)) (filter (\<lambda>i. bit (vs ! (i div 64)) (i mod 64)) [0..<64 * length vs])"
proof (induction vs arbitrary: c)
  case (Cons v vs)
  have next_block: "(i + 64) div 64 = Suc (i div 64)" for i :: nat
    by simp
  have "to_index_word c v 0 = map (\<lambda>i. u32 (c + i)) (filter (bit v) [0..<64])"
    using to_index_word_bits[of v 64 0 c] unat64_lt[of v] by simp
  moreover have "filter (bit v) [0..<64] = filter (\<lambda>i. bit ((v # vs) ! (i div 64)) (i mod 64)) [0..<64]"
    by (rule filter_cong) auto
  moreover have "map (\<lambda>i. u32 (c + 64 + i)) (filter (\<lambda>i. bit (vs ! (i div 64)) (i mod 64)) [0..<64 * length vs]) =
      map (\<lambda>i. u32 (c + i)) (filter (\<lambda>i. bit ((v # vs) ! (i div 64)) (i mod 64)) (map (\<lambda>i. i + 64) [0..<64 * length vs]))"
    using next_block by (simp add: filter_map comp_def add.assoc add.commute[of 64])
  ultimately show ?case
    using Cons[of "c + 64"] unfolding list.size(4) Nat.add_0_right add_Suc_right upt_64_split
    by (simp add: BITVECT_NUM_BITS_def del: nth_Cons_Suc)
qed simp

lemma bits_sorted: "filter (\<lambda>i. bit (bv_data bv ! (i div 64)) (i mod 64)) [0..<64 * bv_size bv] = sorted_list_of_set (bv_bits bv)"
proof -
  have "set (filter (\<lambda>i. bit (bv_data bv ! (i div 64)) (i mod 64)) [0..<64 * bv_size bv]) = bv_bits bv"
    by (auto simp: bv_bits_def)
  moreover have "finite (bv_bits bv)"
    by (simp add: bv_bits_def)
  ultimately show ?thesis
    by (intro sorted_distinct_set_unique) (auto simp: sorted_wrt_filter)
qed

lemma bitvect_to_index_bits:
  assumes "bv_ok bv" "64 * bv_size bv \<le> 2 ^ 32"
  shows "bitvect_to_index bv out = Some (out @ sorted_list_of_set (bv_bits bv))"
proof -
  have "map (\<lambda>i. u32 (0 + i)) (filter (\<lambda>i. bit (bv_data bv ! (i div 64)) (i mod 64)) [0..<64 * bv_size bv]) =
      filter (\<lambda>i. bit (bv_data bv ! (i div 64)) (i mod 64)) [0..<64 * bv_size bv]"
    using assms(2) by (intro map_idI) (simp add: u32_def)
  then show ?thesis
    using assms(1) bits_sorted[of bv] by (simp add: bitvect_to_index_def bv_ok_def to_index_blocks_bits)
qed

lemma popcount_blocks:
  "sum_list (map popcount vs) = length (filter (\<lambda>i. bit (vs ! (i div 64)) (i mod 64)) [0..<64 * length vs])"
proof -
  have "length (to_index_word c v 0) = popcount v" for c v
    using to_index_word_bits[of v 64 0 c] unat64_lt[of v] by (simp add: popcount_def)
  then have "length (to_index_blocks c vs) = sum_list (map popcount vs)" for c
    by (induction vs arbitrary: c) simp_all
  from this[of 0] show ?thesis
    by (simp add: to_index_blocks_bits)
qed

lemma bitvect_count_bits:
  assumes "bv_ok bv"
  shows "bitvect_count bv = Some (card (bv_bits bv))"
proof -
  have "finite (bv_bits bv)"
    by (simp add: bv_bits_def)
  then show ?thesis
    using assms popcount_blocks[of "bv_data bv"] bits_sorted[of bv] by (simp add: bitvect_count_def bv_ok_def)
qed

lemma from_index_simple_bits:
  assumes "bv_ok bv" "\<forall>i\<in>set idx. i < 64 * bv_size bv"
  shows "\<exists>bv'. bitvect_from_index_simple idx bv = Some (0, bv') \<and> bv_ok bv' \<and> bv_size bv' = bv_size bv \<and>
    bv_bits bv' = bv_bits bv \<union> set idx"
  using assms
proof (induction idx arbitrary: bv)
  case (Cons i idx)
  obtain bv1 where "bitvect_set i bv = Some (0, bv1)" "bv_ok bv1" "bv_bits bv1 = insert i (bv_bits bv)"
    "bv_size bv1 = bv_size bv"
    using bitvect_set_bits[of bv i] Cons.prems by auto
  then show ?case
    using Cons.IH[of bv1] Cons.prems by auto
qed simp

lemma bitvect_from_index_simple_eq:
  "idx \<noteq> [] \<Longrightarrow> bitvect_from_index idx bv = bitvect_from_index_simple idx bv"
proof (induction idx)
  case (Cons i idx)
  then show ?case
    using from_index_loop_simple[of bv i 0 idx "bv_data bv"] by (auto simp: or_block_def bitvect_set_def)
qed simp

lemma bitvect_init_ok:
  assumes "sz < 2 ^ 60" "bitvect_init sz bv = (r, bv')"
  shows "bv_ok bv'" "bv_bits bv' = {}" "sz \<le> 64 * bv_size bv'" "64 * bv_size bv' < sz + 64"
proof -
  obtain q where q: "align_up 64 sz = 64 * q"
    using align_up_dvd[of 64 sz] by (elim dvdE)
  have "sz \<le> 64 * q" "64 * q < sz + 64"
    using align_up_ge[of 64 sz] align_up_lt[of 64 sz] assms(1) q by simp_all
  moreover have "bv_data bv' = replicate q 0" "bv_size bv' = q"
    using assms(2) q by (auto simp: bitvect_init_def BITVECT_NUM_BITS_TO_NUM_BYTES_def BITVECT_NUM_BITS_TO_NUM_BLOCKS_def
        BITVECT_ROUND_UP_def BITVECT_NUM_BITS_def)
  moreover have "j div 64 < q" if "j < 64 * q" for j
    using that by (simp add: div_less_iff_less_mult mult.commute)
  ultimately show "bv_ok bv'" "bv_bits bv' = {}" "sz \<le> 64 * bv_size bv'" "64 * bv_size bv' < sz + 64"
    using assms(1) by (auto simp: bv_ok_def bv_bits_def)
qed

section \<open>Properties\<close>

text \<open>C37. The optimised \<^verbatim>\<open>bitvect_from_index\<close>, which collects the bits of a block before it writes the
  block, does what the simple version in its comment does, on every input, in or out of bounds;
  only the empty index differs, which it refuses.\<close>

theorem bitvect_from_index_equiv:
  "bitvect_from_index idx bv = (if idx = [] then Some (-1, bv) else bitvect_from_index_simple idx bv)"
  using bitvect_from_index_simple_eq[of idx bv] by simp

text \<open>C38. A bit vector is a set.  Setting the bits of an index in a vector that has room for them and
  reading them back gives the index in order, without duplicates, \<^verbatim>\<open>bitvect_count\<close> their number, and
  \<^verbatim>\<open>bitvect_isset_safe\<close> their membership.\<close>

theorem bitvect_index_roundtrip:
  assumes "sz \<le> 2 ^ 32 - 64" "\<forall>i\<in>set idx. i < sz" "idx \<noteq> []"
  shows "\<exists>bv. bitvect_from_index idx (snd (bitvect_init sz BITVECT_INITIALIZER)) = Some (0, bv) \<and>
    bitvect_to_index bv [] = Some (sorted_list_of_set (set idx)) \<and> bitvect_count bv = Some (card (set idx)) \<and>
    (\<forall>i. bitvect_isset_safe i bv = Some (if i \<in> set idx then 1 else 0))"
proof -
  obtain r b where b: "bitvect_init sz BITVECT_INITIALIZER = (r, b)"
    by fastforce
  note i = bitvect_init_ok[OF _ b]
  have sz: "sz < 2 ^ 60"
    using assms(1) by simp
  then have sz: "sz < 2 ^ 60" "64 * bv_size b \<le> 2 ^ 32"
    using assms(1) i(4)[OF sz] by simp_all
  have "\<forall>i\<in>set idx. i < 64 * bv_size b"
    using i(3)[OF sz(1)] assms(2) by fastforce
  then obtain bv where bv: "bitvect_from_index_simple idx b = Some (0, bv)" "bv_ok bv" "bv_size bv = bv_size b"
    "bv_bits bv = set idx"
    using from_index_simple_bits[OF i(1)[OF sz(1)], of idx] i(2)[OF sz(1)] by auto
  then show ?thesis
    using bitvect_from_index_simple_eq[OF assms(3)] bitvect_to_index_bits[OF bv(2), of "[]"] bitvect_count_bits[OF bv(2)]
      bitvect_isset_bits[OF bv(2)] sz(2) b by simp
qed

theorem bitvect_index_roundtrip_witness:
  "\<exists>bv. bitvect_from_index [70, 3, 70] (snd (bitvect_init 100 BITVECT_INITIALIZER)) = Some (0, bv) \<and>
     bitvect_to_index bv [] = Some [3, 70] \<and> bitvect_count bv = Some 2"
proof -
  have "set [70, 3, 70 :: nat] = {3, 70}"
    by auto
  then show ?thesis
    using bitvect_index_roundtrip[of 100 "[70, 3, 70]"] by auto
qed

lemma bitvect_set_beyond:
  assumes "bv_ok bv" "64 * bv_size bv \<le> i"
  shows "bitvect_set i bv = None"
  using assms block_lt[of i "bv_size bv"] by (auto simp: bitvect_set_def or_block_def bv_ok_def)

lemma bv_bits_grow:
  assumes "bv_ok bv" "bv_size bv \<le> q"
  shows "bv_bits (bv\<lparr>bv_data := bv_data bv @ replicate (q - bv_size bv) 0, bv_size := q\<rparr>) = bv_bits bv"
proof -
  have "bit ((bv_data bv @ replicate (q - bv_size bv) 0) ! (j div 64)) (j mod 64) \<longleftrightarrow>
      j < 64 * bv_size bv \<and> bit (bv_data bv ! (j div 64)) (j mod 64)" if "j < 64 * q" for j
  proof -
    have "j div 64 < q" "j < 64 * bv_size bv \<longleftrightarrow> j div 64 < bv_size bv"
      using that by (auto simp: div_less_iff_less_mult)
    then show ?thesis
      using assms(1) by (auto simp: nth_append bv_ok_def)
  qed
  then show ?thesis
    using assms(2) by (auto simp: bv_bits_def)
qed

text \<open>The growth of \<^verbatim>\<open>bitvect_set_resize\<close>, in blocks.\<close>

lemma bitvect_set_resize_blocks:
  assumes "bv_ok bv" "i < 2 ^ 60" "align_up 64 i = 64 * q"
  shows "bitvect_set_resize i bv = bitvect_set i
    (if bv_size bv < q then bv\<lparr>bv_data := bv_data bv @ replicate (q - bv_size bv) 0, bv_size := q\<rparr> else bv)"
proof -
  have "shl64 (bv_size bv) 3 = 8 * bv_size bv"
    using assms(1) by (simp add: bv_ok_def shl64_small)
  moreover have "BITVECT_NUM_BITS_TO_NUM_BYTES i = 8 * q" "BITVECT_NUM_BITS_TO_NUM_BLOCKS i = q"
    using assms(3) by (simp_all add: BITVECT_NUM_BITS_TO_NUM_BYTES_def BITVECT_NUM_BITS_TO_NUM_BLOCKS_def
        BITVECT_ROUND_UP_def BITVECT_NUM_BITS_def)
  ultimately show ?thesis
    using assms(1) by (simp add: bitvect_set_resize_def Let_def bv_ok_def)
qed



end
