(* ===== verification/Json_Dom.thy ===== *)
theory Json_Dom
  imports Json "HOL-Library.Monad_Syntax"
begin

text \<open>
  \<^verbatim>\<open>src/json_dom.c\<close>: the parser that builds a tree of nodes.  A node is a number, in the order of allocation,
  0 the null pointer; \<open>jd_nodes\<close> is the memory of the nodes and \<open>jd_count\<close> the last one allocated.  Reading or
  writing through the null pointer is \<^term>\<open>None\<close>.  A value is a position in the text; the scanning of strings
  and primitives is that of the event parser, whose loops the two files share.  \<open>jd_level\<close> does not wrap around:
  it is at most the length of the text.
\<close>

section \<open>State\<close>

datatype dom_type = JSON_DOM_TYPE_STR | JSON_DOM_TYPE_PRIM | JSON_DOM_TYPE_OBJ | JSON_DOM_TYPE_ARRAY

datatype dom_value = No_value | Value_at nat | Value_lit "byte list"

datatype dom_err = Dom_none | Dom_string | Dom_primitive | Dom_unbalanced | Dom_array | Dom_malformed

record json_dom_node =
  nd_value :: dom_value
  nd_value_len :: nat
  nd_type :: dom_type
  nd_children_count :: nat
  nd_parent :: nat
  nd_first_child :: nat
  nd_last_child :: nat
  nd_prev_sibling :: nat
  nd_next_sibling :: nat

record json_dom =
  jd_level :: nat
  jd_cur :: nat
  jd_err :: dom_err
  jd_is_key :: bool
  jd_node :: nat
  jd_nodes :: "nat \<Rightarrow> json_dom_node"
  jd_count :: nat

definition set_node :: "nat \<Rightarrow> (json_dom_node \<Rightarrow> json_dom_node) \<Rightarrow> json_dom \<Rightarrow> json_dom" where
  "set_node i f js = js\<lparr>jd_nodes := (jd_nodes js)(i := f (jd_nodes js i))\<rparr>"

definition get_node :: "nat \<Rightarrow> json_dom \<Rightarrow> json_dom_node option" where
  "get_node i js = (if i = 0 then None else Some (jd_nodes js i))"

text \<open>A node as an initialiser with a value, a length and a type leaves it.\<close>

definition dom_leaf :: "dom_value \<Rightarrow> nat \<Rightarrow> dom_type \<Rightarrow> json_dom_node" where
  "dom_leaf v len t = \<lparr>nd_value = v, nd_value_len = len, nd_type = t, nd_children_count = 0, nd_parent = 0,
     nd_first_child = 0, nd_last_child = 0, nd_prev_sibling = 0, nd_next_sibling = 0\<rparr>"

section \<open>Building the tree\<close>

definition dom_new_node :: "json_dom \<Rightarrow> nat \<times> json_dom" where
  "dom_new_node js =
     (let node = Suc (jd_count js)
      in (node, set_node node (\<lambda>n. n\<lparr>nd_children_count := 0\<rparr>) (js\<lparr>jd_count := node\<rparr>)))"

definition child_node :: "nat \<Rightarrow> nat \<Rightarrow> json_dom \<Rightarrow> json_dom" where
  "child_node parent node js =
     (if parent \<noteq> 0 then
        (let js = set_node parent (\<lambda>n. n\<lparr>nd_children_count := u32 (nd_children_count n + 1)\<rparr>) js;
             js = set_node node (\<lambda>n. n\<lparr>nd_parent := parent\<rparr>) js;
             l = nd_last_child (jd_nodes js parent)
         in if l \<noteq> 0 then
              (let js = set_node node (\<lambda>n. n\<lparr>nd_prev_sibling := l, nd_next_sibling := 0\<rparr>) js;
                   js = set_node l (\<lambda>n. n\<lparr>nd_next_sibling := node\<rparr>) js
               in set_node parent (\<lambda>n. n\<lparr>nd_last_child := node\<rparr>) js)
            else
              (let js = set_node parent (\<lambda>n. n\<lparr>nd_last_child := node, nd_first_child := node\<rparr>) js
               in set_node node (\<lambda>n. n\<lparr>nd_prev_sibling := 0, nd_next_sibling := 0\<rparr>) js))
      else set_node node (\<lambda>n. n\<lparr>nd_parent := 0, nd_prev_sibling := 0, nd_next_sibling := 0\<rparr>) js)"

text \<open>The end both token parsers share: a new node with the token, below the last child when it
  follows a colon.\<close>

definition dom_add_token :: "nat \<Rightarrow> nat \<Rightarrow> dom_type \<Rightarrow> json_dom \<Rightarrow> json_dom option" where
  "dom_add_token start cur t js =
     (case dom_new_node js of (node, js) \<Rightarrow>
        (let js = set_node node (\<lambda>_. dom_leaf (Value_at start) (u32 (cur - start)) t) js
         in if jd_is_key js
            then map_option (\<lambda>n. child_node (nd_last_child n) node js) (get_node (jd_node js) js)
            else Some (child_node (jd_node js) node js)))"

definition dom_parse_string :: "byte list \<Rightarrow> json_dom \<Rightarrow> (int \<times> json_dom) option" where
  "dom_parse_string s js =
     (let start = jd_cur js + 1;
          (cur, esc) = scan_string s start;
          js = js\<lparr>jd_cur := cur\<rparr>
      in if esc then Some (-1, js)
         else if at s cur \<noteq> jc (CHR 0x22) then Some (-1, js\<lparr>jd_err := Dom_string\<rparr>)
         else map_option (\<lambda>js. (0, js\<lparr>jd_cur := cur + 1\<rparr>)) (dom_add_token start cur JSON_DOM_TYPE_STR js))"

definition dom_parse_primitive :: "byte list \<Rightarrow> json_dom \<Rightarrow> (int \<times> json_dom) option" where
  "dom_parse_primitive s js =
     (let start = jd_cur js;
          cur = scan_primitive s start;
          js = js\<lparr>jd_cur := cur\<rparr>
      in if at s cur = 0 then Some (-1, js\<lparr>jd_err := Dom_primitive\<rparr>)
         else map_option (\<lambda>js. (0, js)) (dom_add_token start cur JSON_DOM_TYPE_PRIM js))"

definition dom_open :: "dom_type \<Rightarrow> json_dom \<Rightarrow> json_dom option" where
  "dom_open t js =
     map_option (\<lambda>js. js\<lparr>jd_level := jd_level js + 1\<rparr>)
       (if jd_is_key js then
          (case get_node (jd_node js) js of
             None \<Rightarrow> None
           | Some n \<Rightarrow>
               if nd_last_child n = 0 then None
               else Some ((set_node (nd_last_child n) (\<lambda>n. n\<lparr>nd_type := t\<rparr>) js)\<lparr>jd_is_key := False, jd_node := nd_last_child n\<rparr>))
        else
          (case dom_new_node js of (node, js) \<Rightarrow>
             (let js = set_node node (\<lambda>_. dom_leaf No_value 0 t) js
              in Some ((child_node (jd_node js) node js)\<lparr>jd_node := node\<rparr>))))"

definition dom_close :: "json_dom \<Rightarrow> json_dom option" where
  "dom_close js =
     map_option (\<lambda>n. js\<lparr>jd_node := nd_parent n, jd_is_key := False, jd_level := jd_level js - 1\<rparr>)
       (get_node (jd_node js) js)"

definition dom_step :: "byte list \<Rightarrow> json_dom \<Rightarrow> (int \<times> json_dom) option" where
  "dom_step s js =
     (let c = at s (jd_cur js);
          next = map_option (\<lambda>js. (0, js\<lparr>jd_cur := jd_cur js + 1\<rparr>))
      in if c = jc (CHR ''{'') then next (dom_open JSON_DOM_TYPE_OBJ js)
         else if c = jc (CHR ''['') then next (dom_open JSON_DOM_TYPE_ARRAY js)
         else if c = jc (CHR ''}'') \<or> c = jc (CHR '']'') then
           (if jd_level js = 0 then Some (-1, js\<lparr>jd_err := Dom_unbalanced\<rparr>) else next (dom_close js))
         else if c = jc (CHR 0x22) then dom_parse_string s js
         else if begins_primitive c then dom_parse_primitive s js
         else if c = jc (CHR '':'') then
           (case get_node (jd_node js) js of
              None \<Rightarrow> None
            | Some n \<Rightarrow>
                if nd_type n = JSON_DOM_TYPE_ARRAY then Some (-1, js\<lparr>jd_err := Dom_array\<rparr>)
                else if nd_last_child n = 0 then Some (-1, js\<lparr>jd_err := Dom_malformed\<rparr>)
                else next (Some (js\<lparr>jd_is_key := True\<rparr>)))
         else if c = jc (CHR '','') then next (Some (js\<lparr>jd_is_key := False\<rparr>))
         else next (Some js))"

partial_function (option) dom_parse_loop :: "byte list \<Rightarrow> json_dom \<Rightarrow> (int \<times> json_dom) option" where
  "dom_parse_loop s js =
     (if at s (jd_cur js) = 0 then Some (0, js)
      else do {
        p \<leftarrow> dom_step s js;
        if fst p < 0 then Some (-1, snd p) else dom_parse_loop s (snd p) })"

definition json_dom_parse :: "byte list \<Rightarrow> json_dom \<Rightarrow> (int \<times> json_dom) option" where
  "json_dom_parse s js =
     (case dom_new_node js of (root, js) \<Rightarrow>
        (let js = set_node root (\<lambda>_. dom_leaf (Value_lit []) 4 JSON_DOM_TYPE_OBJ) (js\<lparr>jd_node := root\<rparr>);
             js = js\<lparr>jd_level := 0, jd_cur := 0, jd_err := Dom_none, jd_is_key := False\<rparr>
         in map_option (\<lambda>(r, js). if r < 0 then (r, js) else (0, js\<lparr>jd_node := root\<rparr>)) (dom_parse_loop s js)))"

section \<open>Reading the tree\<close>

definition json_dom_root :: "json_dom \<Rightarrow> nat option" where
  "json_dom_root js = map_option nd_first_child (get_node (jd_node js) js)"

text \<open>The bytes of the value of a node of the text \<open>s\<close>.\<close>

definition node_text :: "byte list \<Rightarrow> json_dom_node \<Rightarrow> byte list" where
  "node_text s n =
     (case nd_value n of
        No_value \<Rightarrow> []
      | Value_at b \<Rightarrow> take (nd_value_len n) (drop b s)
      | Value_lit bs \<Rightarrow> take (nd_value_len n) bs)"

definition dom_found :: "json_dom \<Rightarrow> nat \<Rightarrow> nat" where
  "dom_found js i =
     (let n = jd_nodes js i
      in if nd_type n \<noteq> JSON_DOM_TYPE_ARRAY \<and> nd_first_child n \<noteq> 0 \<and>
            (nd_type (jd_nodes js (nd_first_child n)) = JSON_DOM_TYPE_PRIM \<or>
             nd_type (jd_nodes js (nd_first_child n)) = JSON_DOM_TYPE_STR)
         then nd_first_child n else i)"

partial_function (option) find_child_loop :: "byte list \<Rightarrow> byte list \<Rightarrow> json_dom \<Rightarrow> nat \<Rightarrow> nat option" where
  "find_child_loop s name js node =
     (if node = 0 then Some 0
      else if length name = nd_value_len (jd_nodes js node) \<and> name = node_text s (jd_nodes js node)
      then Some (dom_found js node)
      else find_child_loop s name js (nd_next_sibling (jd_nodes js node)))"

text \<open>\<open>name\<close> is the name without its terminator; as neither it nor a value has a zero byte,
  \<^verbatim>\<open>strncmp\<close> on equal lengths is equality.\<close>

definition json_dom_find_child :: "byte list \<Rightarrow> nat \<Rightarrow> byte list \<Rightarrow> json_dom \<Rightarrow> nat option" where
  "json_dom_find_child s node name js =
     Option.bind (get_node node js) (\<lambda>n. find_child_loop s name js (nd_first_child n))"

partial_function (option) array_size_loop :: "json_dom \<Rightarrow> nat \<Rightarrow> nat \<Rightarrow> nat option" where
  "array_size_loop js node n =
     (if node = 0 then Some n else array_size_loop js (nd_next_sibling (jd_nodes js node)) (n + 1))"

definition json_dom_get_array_size :: "nat \<Rightarrow> json_dom \<Rightarrow> (int \<times> nat) option" where
  "json_dom_get_array_size node js =
     (if node = 0 \<or> nd_type (jd_nodes js node) \<noteq> JSON_DOM_TYPE_ARRAY then Some (-1, 0)
      else map_option (\<lambda>n. (0, n)) (array_size_loop js (nd_first_child (jd_nodes js node)) 0))"

text \<open>\<open>mem\<close> is whether the allocation succeeds; the result is the copy with its terminator.\<close>

definition json_dom_copy_str_val :: "bool \<Rightarrow> byte list \<Rightarrow> nat \<Rightarrow> json_dom \<Rightarrow> int \<times> byte list option" where
  "json_dom_copy_str_val mem s node js =
     (if node = 0 then (-1, None)
      else if \<not> mem then (-1, None)
      else (0, Some (node_text s (jd_nodes js node) @ [0])))"

section \<open>The shape of the tree\<close>

definition head0 :: "nat list \<Rightarrow> nat" where
  "head0 xs = (if xs = [] then 0 else hd xs)"

definition last0 :: "nat list \<Rightarrow> nat" where
  "last0 xs = (if xs = [] then 0 else last xs)"

text \<open>The nodes from \<open>a\<close> up to but not \<open>b\<close> whose parent is \<open>p\<close>, in the order of the text.\<close>

definition kids :: "(nat \<Rightarrow> json_dom_node) \<Rightarrow> nat \<Rightarrow> nat \<Rightarrow> nat \<Rightarrow> nat list" where
  "kids N p a b = filter (\<lambda>i. nd_parent (N i) = p) [a..<b]"

text \<open>The children of a node.\<close>

definition dom_children :: "json_dom \<Rightarrow> nat \<Rightarrow> nat list" where
  "dom_children js p = kids (jd_nodes js) p (Suc p) (Suc (jd_count js))"

fun value_in :: "byte list \<Rightarrow> dom_value \<Rightarrow> nat \<Rightarrow> bool" where
  "value_in s No_value len \<longleftrightarrow> len = 0"
| "value_in s (Value_at b) len \<longleftrightarrow> b + len \<le> length s"
| "value_in s (Value_lit _) len \<longleftrightarrow> False"

definition node_ok :: "byte list \<Rightarrow> (nat \<Rightarrow> json_dom_node) \<Rightarrow> nat \<Rightarrow> nat \<Rightarrow> nat \<Rightarrow> bool" where
  "node_ok s N r n i \<longleftrightarrow>
     (let nd = N i; ch = kids N i (Suc i) (Suc n)
      in nd_first_child nd = head0 ch \<and> nd_last_child nd = last0 ch \<and> nd_children_count nd = u32 (length ch) \<and>
         (if i = r then nd_parent nd = 0 \<and> nd_prev_sibling nd = 0 \<and> nd_next_sibling nd = 0
          else r \<le> nd_parent nd \<and> nd_parent nd < i \<and>
            nd_prev_sibling nd = last0 (kids N (nd_parent nd) (Suc (nd_parent nd)) i) \<and>
            nd_next_sibling nd = head0 (kids N (nd_parent nd) (Suc i) (Suc n)) \<and>
            value_in s (nd_value nd) (nd_value_len nd)))"

text \<open>The nodes from the root \<open>r\<close> on are a tree: parents come before their children, the children of a
  node are exactly the nodes on its list of siblings, and the values lie in the text.\<close>

definition dom_tree :: "byte list \<Rightarrow> nat \<Rightarrow> json_dom \<Rightarrow> bool" where
  "dom_tree s r js \<longleftrightarrow> 0 < r \<and> r \<le> jd_count js \<and>
     (\<forall>i. r \<le> i \<and> i \<le> jd_count js \<longrightarrow> node_ok s (jd_nodes js) r (jd_count js) i)"

lemma kids_nil: "b \<le> a \<Longrightarrow> kids N p a b = []"
  by (simp add: kids_def)

lemma kids_Suc:
  "a \<le> b \<Longrightarrow> kids N p a (Suc b) = kids N p a b @ (if nd_parent (N b) = p then [b] else [])"
  by (simp add: kids_def)

lemma kids_cong: "(\<And>i. a \<le> i \<Longrightarrow> i < b \<Longrightarrow> nd_parent (N i) = nd_parent (M i)) \<Longrightarrow> kids N p a b = kids M p a b"
  by (auto simp: kids_def intro: filter_cong)

lemma kids_range: "i \<in> set (kids N p a b) \<longleftrightarrow> a \<le> i \<and> i < b \<and> nd_parent (N i) = p"
  by (auto simp: kids_def)

lemma head0_snoc: "head0 (xs @ [x]) = (if xs = [] then x else head0 xs)"
  by (simp add: head0_def)

lemma last0_snoc [simp]: "last0 (xs @ [x]) = x"
  by (simp add: last0_def)

lemma last0_in: "last0 xs \<noteq> 0 \<Longrightarrow> last0 xs \<in> set xs"
  by (auto simp: last0_def split: if_splits)

lemma last0_zero: "0 \<notin> set xs \<Longrightarrow> last0 xs = 0 \<longleftrightarrow> xs = []"
  by (metis last0_def last_in_set)

lemma kids_no_0: "0 < a \<Longrightarrow> 0 \<notin> set (kids N p a b)"
  by (simp add: kids_range)

text \<open>The last child has no child of the same parent behind it, every other one has.\<close>

lemma kids_behind:
  assumes "a \<le> i" "i < b" "nd_parent (N i) = p" "0 < a"
  shows "kids N p (Suc i) b = [] \<longleftrightarrow> i = last0 (kids N p a b)"
proof -
  have "[a..<b] = [a..<i] @ i # [Suc i..<b]"
    using assms(1,2) by (metis append_Cons append_Nil le_add_diff_inverse less_imp_le_nat upt_add_eq_append upt_conv_Cons)
  then have s: "kids N p a b = kids N p a i @ i # kids N p (Suc i) b"
    using assms(3) by (simp add: kids_def)
  show ?thesis
  proof (cases "kids N p (Suc i) b = []")
    case False
    then have "last0 (kids N p a b) \<in> set (kids N p (Suc i) b)"
      using s by (simp add: last0_def)
    then show ?thesis
      using False by (auto simp: kids_range)
  qed (use s in \<open>simp add: last0_def\<close>)
qed

text \<open>The memory after a node with no links, \<open>nd\<close>, became the last child of \<open>p\<close>.\<close>

definition with_child :: "nat \<Rightarrow> nat \<Rightarrow> json_dom_node \<Rightarrow> (nat \<Rightarrow> json_dom_node) \<Rightarrow> nat \<Rightarrow> json_dom_node" where
  "with_child p m nd N i =
     (let l = nd_last_child (N p)
      in if i = m then nd\<lparr>nd_parent := p, nd_prev_sibling := l, nd_next_sibling := 0\<rparr>
         else if i = p then (N p)\<lparr>nd_children_count := u32 (nd_children_count (N p) + 1), nd_last_child := m,
                                  nd_first_child := (if l = 0 then m else nd_first_child (N p))\<rparr>
         else if i = l \<and> l \<noteq> 0 then (N l)\<lparr>nd_next_sibling := m\<rparr>
         else N i)"

lemma child_node_nodes:
  assumes "p \<noteq> 0" "p \<noteq> m" "nd_last_child (jd_nodes js p) \<noteq> p" "nd_last_child (jd_nodes js p) \<noteq> m"
  shows "child_node p m (set_node m (\<lambda>_. nd) js) = js\<lparr>jd_nodes := with_child p m nd (jd_nodes js)\<rparr>"
  using assms by (auto simp: child_node_def set_node_def with_child_def Let_def fun_eq_iff intro!: json_dom.equality)

lemma with_child_parent:
  "i \<noteq> m \<Longrightarrow> nd_parent (with_child p m nd N i) = nd_parent (N i)"
  by (simp add: with_child_def Let_def)

lemma kids_with_child:
  assumes "a \<le> m"
  shows "kids (with_child p m nd N) q a (Suc m) = kids N q a m @ (if q = p then [m] else [])"
proof -
  have "kids (with_child p m nd N) q a m = kids N q a m"
    by (rule kids_cong) (simp add: with_child_parent)
  then show ?thesis
    using assms by (auto simp: kids_Suc) (auto simp: with_child_def Let_def)
qed

lemma kids_with_child_below:
  assumes "b \<le> m"
  shows "kids (with_child p m nd N) q a b = kids N q a b"
  using assms by (intro kids_cong with_child_parent) auto

text \<open>A new leaf: what \<^verbatim>\<open>_new_node\<close> and the initialiser give.\<close>

definition fresh_leaf :: "byte list \<Rightarrow> json_dom_node \<Rightarrow> bool" where
  "fresh_leaf s nd \<longleftrightarrow> nd_children_count nd = 0 \<and> nd_first_child nd = 0 \<and> nd_last_child nd = 0 \<and>
     value_in s (nd_value nd) (nd_value_len nd)"

lemma node_ok_new:
  assumes "fresh_leaf s nd" "r \<le> p" "p \<le> n" "node_ok s N r n p"
  shows "node_ok s (with_child p (Suc n) nd N) r (Suc n) (Suc n)"
proof -
  let ?W = "with_child p (Suc n) nd N"
  have "?W (Suc n) = nd\<lparr>nd_parent := p, nd_prev_sibling := last0 (kids N p (Suc p) (Suc n)), nd_next_sibling := 0\<rparr>"
    using assms(4) by (simp add: with_child_def node_ok_def Let_def)
  moreover have "kids ?W p (Suc p) (Suc n) = kids N p (Suc p) (Suc n)"
    by (rule kids_with_child_below) simp
  ultimately show ?thesis
    using assms(1-3) by (auto simp: node_ok_def Let_def fresh_leaf_def kids_nil head0_def last0_def u32_def)
qed

lemma node_ok_parent:
  assumes "r \<le> p" "p \<le> n" "node_ok s N r n p"
  shows "node_ok s (with_child p (Suc n) nd N) r (Suc n) p"
proof -
  let ?W = "with_child p (Suc n) nd N" and ?k = "kids N p (Suc p) (Suc n)"
  have k: "kids ?W p (Suc p) (Suc (Suc n)) = ?k @ [Suc n]"
    using kids_with_child[of "Suc p" "Suc n"] assms(2) by simp
  have l: "nd_last_child (N p) = last0 ?k" "nd_children_count (N p) = u32 (length ?k)" "nd_first_child (N p) = head0 ?k"
    using assms(3) by (simp_all add: node_ok_def Let_def)
  have W: "?W p = (N p)\<lparr>nd_children_count := u32 (u32 (length ?k) + 1), nd_last_child := Suc n,
      nd_first_child := (if ?k = [] then Suc n else head0 ?k)\<rparr>"
    using assms(2) l last0_zero[OF kids_no_0[of "Suc p"], of N p "Suc n"] by (simp add: with_child_def Let_def)
  have other: "kids ?W q a b = kids N q a b" if "b \<le> Suc n" for q a b
    by (rule kids_with_child_below[OF that])
  have "kids ?W (nd_parent (N p)) (Suc p) (Suc (Suc n)) = kids N (nd_parent (N p)) (Suc p) (Suc n)" if "p \<noteq> r"
    using kids_with_child[of "Suc p" "Suc n" p nd N "nd_parent (N p)"] assms that by (auto simp: node_ok_def Let_def)
  then show ?thesis
    using assms(2,3) k W other[of p] by (auto simp: node_ok_def Let_def u32_def head0_snoc mod_Suc_eq)
qed

lemma node_ok_other:
  assumes "r \<le> p" "p \<le> n" "node_ok s N r n p" "i \<le> n" "r \<le> i" "i \<noteq> p" "node_ok s N r n i" "0 < r"
  shows "node_ok s (with_child p (Suc n) nd N) r (Suc n) i"
proof -
  let ?W = "with_child p (Suc n) nd N" and ?l = "last0 (kids N p (Suc p) (Suc n))"
  have k: "kids ?W i (Suc i) (Suc (Suc n)) = kids N i (Suc i) (Suc n)"
    using kids_with_child[of "Suc i" "Suc n" p nd N i] assms(4,6) by simp
  have W: "?W i = (if i = ?l then (N i)\<lparr>nd_next_sibling := Suc n\<rparr> else N i)"
    using assms(3-6,8) by (auto simp: with_child_def Let_def node_ok_def)
  show ?thesis
  proof (cases "i = r")
    case True
    have "i \<noteq> ?l"
      using last0_in[of "kids N p (Suc p) (Suc n)"] assms(1,5,8) True by (auto simp: kids_range)
    then show ?thesis
      using assms(7) True k W by (simp add: node_ok_def Let_def)
  next
    case False
    let ?q = "nd_parent (N i)"
    have q: "r \<le> ?q" "?q < i"
      using assms(7) False by (simp_all add: node_ok_def Let_def)
    have below: "kids ?W ?q (Suc ?q) i = kids N ?q (Suc ?q) i"
      by (rule kids_with_child_below) (use assms(4) in simp)
    have behind: "kids ?W ?q (Suc i) (Suc (Suc n)) = kids N ?q (Suc i) (Suc n) @ (if ?q = p then [Suc n] else [])"
      using kids_with_child[of "Suc i" "Suc n"] assms(4) by simp
    have "i = ?l \<longleftrightarrow> ?q = p \<and> kids N ?q (Suc i) (Suc n) = []"
    proof (cases "?q = p")
      case True
      then show ?thesis
        using kids_behind[of "Suc p" i "Suc n" N p] q assms(4) by auto
    next
      case False
      then show ?thesis
        using last0_in[of "kids N p (Suc p) (Suc n)"] q by (auto simp: kids_range)
    qed
    then show ?thesis
      using assms(7) False k W below behind by (auto simp: node_ok_def Let_def head0_snoc) (auto simp: head0_def)
  qed
qed

lemma dom_tree_add:
  assumes t: "dom_tree s r js" and p: "r \<le> p" "p \<le> jd_count js" and nd: "fresh_leaf s nd"
  defines "js' \<equiv> js\<lparr>jd_count := Suc (jd_count js), jd_nodes := with_child p (Suc (jd_count js)) nd (jd_nodes js)\<rparr>"
  shows "dom_tree s r js'"
proof -
  let ?n = "jd_count js" and ?N = "jd_nodes js"
  have ok: "node_ok s ?N r ?n i" if "r \<le> i" "i \<le> ?n" for i
    using t that by (simp add: dom_tree_def)
  have "node_ok s (with_child p (Suc ?n) nd ?N) r (Suc ?n) i" if i: "r \<le> i" "i \<le> Suc ?n" for i
  proof -
    consider "i = Suc ?n" | "i = p" "i \<le> ?n" | "i \<le> ?n" "i \<noteq> p"
      using i by linarith
    then show ?thesis
      using node_ok_new[OF nd p ok[OF p]] node_ok_parent[OF p ok[OF p]]
        node_ok_other[OF p ok[OF p] _ i(1) _ ok[OF i(1)]] t by cases (auto simp: dom_tree_def)
  qed
  then show ?thesis
    using t by (simp add: dom_tree_def js'_def)
qed

section \<open>Parsing\<close>

text \<open>\<open>i\<close> is \<open>l\<close> levels below the root \<open>r\<close>.\<close>

fun at_depth :: "(nat \<Rightarrow> json_dom_node) \<Rightarrow> nat \<Rightarrow> nat \<Rightarrow> nat \<Rightarrow> bool" where
  "at_depth N r 0 i \<longleftrightarrow> i = r"
| "at_depth N r (Suc l) i \<longleftrightarrow> i \<noteq> r \<and> at_depth N r l (nd_parent (N i))"

definition dom_inv :: "byte list \<Rightarrow> nat \<Rightarrow> json_dom \<Rightarrow> bool" where
  "dom_inv s r js \<longleftrightarrow> dom_tree s r js \<and> r \<le> jd_node js \<and> jd_node js \<le> jd_count js \<and>
     at_depth (jd_nodes js) r (jd_level js) (jd_node js) \<and> jd_cur js \<le> length s \<and>
     (jd_is_key js \<longrightarrow> nd_last_child (jd_nodes js (jd_node js)) \<noteq> 0)"

lemma dom_tree_node:
  assumes "dom_tree s r js" "r \<le> i" "i \<le> jd_count js"
  shows "node_ok s (jd_nodes js) r (jd_count js) i" "i \<noteq> 0"
    "i \<noteq> r \<Longrightarrow> r \<le> nd_parent (jd_nodes js i) \<and> nd_parent (jd_nodes js i) < i"
  using assms by (auto simp: dom_tree_def node_ok_def Let_def)

lemma last_child_node:
  assumes "dom_tree s r js" "r \<le> i" "i \<le> jd_count js" "nd_last_child (jd_nodes js i) \<noteq> 0"
  shows "i < nd_last_child (jd_nodes js i)" "nd_last_child (jd_nodes js i) \<le> jd_count js"
    "nd_parent (jd_nodes js (nd_last_child (jd_nodes js i))) = i"
proof -
  have "nd_last_child (jd_nodes js i) \<in> set (kids (jd_nodes js) i (Suc i) (Suc (jd_count js)))"
    using dom_tree_node(1)[OF assms(1-3)] assms(4) last0_in by (simp add: node_ok_def Let_def)
  then show "i < nd_last_child (jd_nodes js i)" "nd_last_child (jd_nodes js i) \<le> jd_count js"
    "nd_parent (jd_nodes js (nd_last_child (jd_nodes js i))) = i"
    by (simp_all add: kids_range)
qed

text \<open>The depth of a node looks only at the parents of nodes that are there.\<close>

lemma at_depth_cong:
  assumes "dom_tree s r js" "\<And>i. r \<le> i \<Longrightarrow> i \<le> jd_count js \<Longrightarrow> nd_parent (M i) = nd_parent (jd_nodes js i)"
  shows "r \<le> i \<Longrightarrow> i \<le> jd_count js \<Longrightarrow> at_depth M r l i = at_depth (jd_nodes js) r l i"
proof (induction l arbitrary: i)
  case (Suc l)
  then show ?case
    using assms(2)[of i] dom_tree_node(3)[OF assms(1), of i] Suc.IH[of "nd_parent (jd_nodes js i)"] by (cases "i = r") auto
qed simp

text \<open>Adding a leaf below a node that is there.\<close>

definition add_leaf :: "nat \<Rightarrow> json_dom_node \<Rightarrow> json_dom \<Rightarrow> json_dom" where
  "add_leaf p nd js =
     js\<lparr>jd_count := Suc (jd_count js), jd_nodes := with_child p (Suc (jd_count js)) nd (jd_nodes js)\<rparr>"

lemma new_child:
  assumes t: "dom_tree s r js" and p: "r \<le> p" "p \<le> jd_count js" and n: "dom_new_node js = (m, js1)"
  shows "child_node p m (set_node m (\<lambda>_. nd) js1) = add_leaf p nd js" "m = Suc (jd_count js)"
proof -
  let ?m = "Suc (jd_count js)"
  have js1: "m = ?m" "js1 = set_node ?m (\<lambda>n. n\<lparr>nd_children_count := 0\<rparr>) (js\<lparr>jd_count := ?m\<rparr>)"
    using n by (auto simp: dom_new_node_def Let_def)
  have l: "nd_last_child (jd_nodes js p) \<noteq> p" "nd_last_child (jd_nodes js p) \<noteq> ?m"
    using last_child_node(1,2)[OF t p] dom_tree_node(2)[OF t p] by (cases "nd_last_child (jd_nodes js p) = 0"; simp)+
  have "set_node ?m (\<lambda>_. nd) js1 = set_node ?m (\<lambda>_. nd) (js\<lparr>jd_count := ?m\<rparr>)"
    by (simp add: js1 set_node_def)
  moreover have "child_node p ?m (set_node ?m (\<lambda>_. nd) (js\<lparr>jd_count := ?m\<rparr>)) =
      (js\<lparr>jd_count := ?m\<rparr>)\<lparr>jd_nodes := with_child p ?m nd (jd_nodes js)\<rparr>"
    using child_node_nodes[of p ?m "js\<lparr>jd_count := ?m\<rparr>" nd] l dom_tree_node(2)[OF t p] p(2) by simp
  ultimately show "child_node p m (set_node m (\<lambda>_. nd) js1) = add_leaf p nd js" "m = ?m"
    by (simp_all add: js1(1) add_leaf_def)
qed

lemma add_leaf_inv:
  assumes i: "dom_inv s r js" and p: "r \<le> p" "p \<le> jd_count js" and nd: "fresh_leaf s nd"
  shows "dom_inv s r (add_leaf p nd js)"
    "p = jd_node js \<Longrightarrow> \<not> jd_is_key js \<Longrightarrow>
      dom_inv s r ((add_leaf p nd js)\<lparr>jd_node := Suc (jd_count js), jd_level := jd_level js + 1\<rparr>)"
proof -
  let ?js = "add_leaf p nd js"
  have t: "dom_tree s r js"
    using i by (simp add: dom_inv_def)
  have t': "dom_tree s r ?js"
    unfolding add_leaf_def by (rule dom_tree_add[OF t p nd])
  have d: "at_depth (jd_nodes ?js) r (jd_level js) (jd_node js)"
    using i at_depth_cong[OF t, of "jd_nodes ?js"] with_child_parent by (simp add: dom_inv_def add_leaf_def)
  show "dom_inv s r ?js"
    using i t' d by (auto simp: dom_inv_def add_leaf_def with_child_def Let_def)
  assume "p = jd_node js" "\<not> jd_is_key js"
  moreover have "nd_parent (jd_nodes ?js (Suc (jd_count js))) = p"
    by (simp add: add_leaf_def with_child_def Let_def)
  ultimately show "dom_inv s r (?js\<lparr>jd_node := Suc (jd_count js), jd_level := jd_level js + 1\<rparr>)"
    using i t' d t by (auto simp: dom_inv_def add_leaf_def dom_tree_def)
qed

lemma dom_add_token_ok:
  assumes i: "dom_inv s r js" and c: "start \<le> cur" "cur \<le> length s" "length s < 2 ^ 32"
  obtains js' where "dom_add_token start cur t js = Some js'" "dom_inv s r js'" "jd_cur js' = jd_cur js"
proof -
  let ?nd = "dom_leaf (Value_at start) (u32 (cur - start)) t" and ?n = "jd_nodes js (jd_node js)"
  define p where "p = (if jd_is_key js then nd_last_child ?n else jd_node js)"
  obtain m js1 where m: "dom_new_node js = (m, js1)"
    by fastforce
  have tr: "dom_tree s r js" "r \<le> jd_node js" "jd_node js \<le> jd_count js"
    using i by (simp_all add: dom_inv_def)
  have p: "r \<le> p" "p \<le> jd_count js"
    using i last_child_node(1,2)[OF tr] by (auto simp: p_def dom_inv_def)
  have nd: "fresh_leaf s ?nd"
    using c by (simp add: fresh_leaf_def dom_leaf_def u32_def)
  have f: "jd_is_key js1 = jd_is_key js" "jd_node js1 = jd_node js"
    "jd_nodes (set_node m (\<lambda>_. ?nd) js1) (jd_node js) = ?n" "jd_node js \<noteq> 0"
    using m tr(3) dom_tree_node(2)[OF tr] by (auto simp: dom_new_node_def Let_def set_node_def)
  have "dom_add_token start cur t js = Some (child_node p m (set_node m (\<lambda>_. ?nd) js1))"
    using m f by (auto simp: dom_add_token_def Let_def get_node_def p_def) (auto simp: set_node_def)
  then show ?thesis
    using that[of "add_leaf p ?nd js"] new_child(1)[OF tr(1) p m] add_leaf_inv(1)[OF i p nd] by (simp add: add_leaf_def)
qed

lemma dom_open_ok:
  assumes i: "dom_inv s r js"
  obtains js' where "dom_open t js = Some js'" "dom_inv s r js'" "jd_cur js' = jd_cur js"
proof -
  have tr: "dom_tree s r js" "r \<le> jd_node js" "jd_node js \<le> jd_count js" "jd_node js \<noteq> 0"
    using i dom_tree_node(2) by (auto simp: dom_inv_def)
  show ?thesis
  proof (cases "jd_is_key js")
    case True
    let ?l = "nd_last_child (jd_nodes js (jd_node js))"
    let ?js = "(set_node ?l (\<lambda>n. n\<lparr>nd_type := t\<rparr>) js)\<lparr>jd_is_key := False, jd_node := ?l, jd_level := jd_level js + 1\<rparr>"
    have l0: "?l \<noteq> 0"
      using i True by (simp add: dom_inv_def)
    note l = last_child_node[OF tr(1-3) l0]
    have N: "jd_nodes ?js = (jd_nodes js)(?l := (jd_nodes js ?l)\<lparr>nd_type := t\<rparr>)"
      by (simp add: set_node_def)
    have k: "kids (jd_nodes ?js) q a b = kids (jd_nodes js) q a b" for q a b
      unfolding N by (rule kids_cong) simp
    have "dom_tree s r ?js"
      using tr(1) k unfolding dom_tree_def node_ok_def Let_def by (auto simp: set_node_def)
    moreover have "at_depth (jd_nodes ?js) r (jd_level js) (jd_node js)"
      using i at_depth_cong[OF tr(1), of "jd_nodes ?js"] tr by (simp add: dom_inv_def set_node_def)
    ultimately have "dom_inv s r ?js"
      using i l tr(2) by (auto simp: dom_inv_def set_node_def)
    then show ?thesis
      using that[of ?js] True l0 tr(4) by (simp add: dom_open_def get_node_def set_node_def)
  next
    case False
    obtain m js1 where m: "dom_new_node js = (m, js1)"
      by fastforce
    have nd: "fresh_leaf s (dom_leaf No_value 0 t)"
      by (simp add: fresh_leaf_def dom_leaf_def)
    have "jd_node js1 = jd_node js"
      using m by (auto simp: dom_new_node_def Let_def set_node_def)
    then have "dom_open t js = Some ((add_leaf (jd_node js) (dom_leaf No_value 0 t) js)
        \<lparr>jd_node := Suc (jd_count js), jd_level := jd_level js + 1\<rparr>)"
      using False m new_child(1)[OF tr(1-3) m, of "dom_leaf No_value 0 t"] new_child(2)[OF tr(1-3) m]
      by (simp add: dom_open_def Let_def set_node_def add_leaf_def)
    then show ?thesis
      using that add_leaf_inv(2)[OF i tr(2,3) nd refl False] by (simp add: add_leaf_def)
  qed
qed

lemma dom_close_ok:
  assumes i: "dom_inv s r js" and "jd_level js \<noteq> 0"
  obtains js' where "dom_close js = Some js'" "dom_inv s r js'" "jd_cur js' = jd_cur js"
proof -
  have tr: "dom_tree s r js" "r \<le> jd_node js" "jd_node js \<le> jd_count js"
    using i by (simp_all add: dom_inv_def)
  obtain l where "jd_level js = Suc l"
    using assms(2) by (cases "jd_level js") auto
  then show ?thesis
    using that i dom_tree_node(2,3)[OF tr] by (fastforce simp: dom_close_def get_node_def dom_inv_def dom_tree_def)
qed

lemma dom_inv_frame:
  "dom_inv s r js \<Longrightarrow> dom_inv s r (js\<lparr>jd_err := e\<rparr>)" "dom_inv s r js \<Longrightarrow> dom_inv s r (js\<lparr>jd_is_key := False\<rparr>)"
  "dom_inv s r js \<Longrightarrow> c \<le> length s \<Longrightarrow> dom_inv s r (js\<lparr>jd_cur := c\<rparr>)"
  "dom_inv s r js \<Longrightarrow> nd_last_child (jd_nodes js (jd_node js)) \<noteq> 0 \<Longrightarrow> dom_inv s r (js\<lparr>jd_is_key := True\<rparr>)"
  by (simp_all add: dom_inv_def dom_tree_def)

definition stepped :: "byte list \<Rightarrow> nat \<Rightarrow> nat \<Rightarrow> (int \<times> json_dom) option \<Rightarrow> bool" where
  "stepped s r cur res \<longleftrightarrow> (\<exists>q js'. res = Some (q, js') \<and> dom_inv s r js' \<and> (q = -1 \<or> q = 0 \<and> cur < jd_cur js'))"

lemma stepped_string:
  assumes i: "dom_inv s r js" and c: "at s (jd_cur js) \<noteq> 0" "length s < 2 ^ 32"
  shows "stepped s r (jd_cur js) (dom_parse_string s js)"
proof -
  obtain cur esc where sc: "scan_string s (jd_cur js + 1) = (cur, esc)"
    by force
  have b: "jd_cur js + 1 \<le> cur" "cur \<le> length s"
    using scan_string_bounds[of "jd_cur js + 1" s] at_nonzero[OF c(1)] sc by auto
  note i' = dom_inv_frame(3)[OF i b(2)]
  show ?thesis
  proof (cases "esc \<or> at s cur \<noteq> jc (CHR 0x22)")
    case True
    then show ?thesis
      using sc i' dom_inv_frame(1)[OF i', of Dom_string] by (auto simp: stepped_def dom_parse_string_def Let_def)
  next
    case False
    then have "cur < length s"
      using at_nonzero[of s cur] by (simp add: jc_def)
    moreover obtain js' where "dom_add_token (jd_cur js + 1) cur JSON_DOM_TYPE_STR (js\<lparr>jd_cur := cur\<rparr>) = Some js'"
      "dom_inv s r js'" "jd_cur js' = cur"
      by (rule dom_add_token_ok[OF i' b c(2), of JSON_DOM_TYPE_STR]) simp
    ultimately show ?thesis
      using False sc b dom_inv_frame(3)[of s r js' "cur + 1"] by (auto simp: stepped_def dom_parse_string_def Let_def)
  qed
qed

lemma stepped_primitive:
  assumes i: "dom_inv s r js" and c: "begins_primitive (at s (jd_cur js))" "length s < 2 ^ 32"
  shows "stepped s r (jd_cur js) (dom_parse_primitive s js)"
proof -
  let ?cur = "scan_primitive s (jd_cur js)"
  have nz: "at s (jd_cur js) \<noteq> 0" "\<not> ends_primitive (at s (jd_cur js))"
    using begins_not_ends[OF c(1)] by simp_all
  then have "?cur = scan_primitive s (jd_cur js + 1)"
    by (simp add: scan_primitive.simps[of s "jd_cur js"])
  then have b: "jd_cur js < ?cur" "?cur \<le> length s"
    using scan_primitive_bounds[of "jd_cur js + 1" s] at_nonzero[OF nz(1)] by simp_all
  note i' = dom_inv_frame(3)[OF i b(2)]
  show ?thesis
  proof (cases "at s ?cur = 0")
    case True
    then show ?thesis
      using dom_inv_frame(1)[OF i', of Dom_primitive] by (auto simp: stepped_def dom_parse_primitive_def Let_def)
  next
    case False
    obtain js' where "dom_add_token (jd_cur js) ?cur JSON_DOM_TYPE_PRIM (js\<lparr>jd_cur := ?cur\<rparr>) = Some js'"
      "dom_inv s r js'" "jd_cur js' = ?cur"
      by (rule dom_add_token_ok[OF i' less_imp_le[OF b(1)] b(2) c(2), of JSON_DOM_TYPE_PRIM]) simp
    then show ?thesis
      using False b by (auto simp: stepped_def dom_parse_primitive_def Let_def)
  qed
qed

lemma stepped_next:
  assumes "dom_inv s r js'" "jd_cur js' = cur" "at s cur \<noteq> 0"
  shows "stepped s r cur (map_option (\<lambda>js. (0, js\<lparr>jd_cur := jd_cur js + 1\<rparr>)) (Some js'))"
  using assms dom_inv_frame(3)[OF assms(1), of "cur + 1"] at_nonzero[OF assms(3)] by (auto simp: stepped_def)

lemma dom_step_ok:
  assumes i: "dom_inv s r js" and c: "at s (jd_cur js) \<noteq> 0" "length s < 2 ^ 32"
  shows "stepped s r (jd_cur js) (dom_step s js)"
proof -
  have n: "get_node (jd_node js) js = Some (jd_nodes js (jd_node js))"
    using i by (auto simp: get_node_def dom_inv_def dom_tree_def)
  have op: "stepped s r (jd_cur js) (map_option (\<lambda>js. (0, js\<lparr>jd_cur := jd_cur js + 1\<rparr>)) (dom_open t js))" for t
  proof (rule dom_open_ok[OF i, of t])
    fix js'
    assume j: "dom_open t js = Some js'" "dom_inv s r js'" "jd_cur js' = jd_cur js"
    show ?thesis
      unfolding j(1) by (rule stepped_next[OF j(2,3) c(1)])
  qed
  have cl: "stepped s r (jd_cur js) (map_option (\<lambda>js. (0, js\<lparr>jd_cur := jd_cur js + 1\<rparr>)) (dom_close js))" if "jd_level js \<noteq> 0"
  proof (rule dom_close_ok[OF i that])
    fix js'
    assume j: "dom_close js = Some js'" "dom_inv s r js'" "jd_cur js' = jd_cur js"
    show ?thesis
      unfolding j(1) by (rule stepped_next[OF j(2,3) c(1)])
  qed
  have er: "stepped s r (jd_cur js) (Some (-1, js\<lparr>jd_err := e\<rparr>))" for e
    using dom_inv_frame(1)[OF i] by (simp add: stepped_def)
  have nx: "stepped s r (jd_cur js) (Some (0, js'\<lparr>jd_cur := jd_cur js' + 1\<rparr>))" if "dom_inv s r js'" "jd_cur js' = jd_cur js" for js'
    using stepped_next[OF that c(1)] by simp
  note key = nx[OF dom_inv_frame(4)[OF i]]
  show ?thesis
    unfolding dom_step_def Let_def n option.case
    using op cl er stepped_string[OF i c] stepped_primitive[OF i _ c(2)] key nx[OF i] nx[OF dom_inv_frame(2)[OF i]]
    by simp
qed

lemma dom_parse_loop_ok:
  assumes "length s < 2 ^ 32"
  shows "dom_inv s r js \<Longrightarrow> \<exists>q js'. dom_parse_loop s js = Some (q, js') \<and> dom_inv s r js' \<and>
    (q = -1 \<or> q = 0 \<and> at s (jd_cur js') = 0)"
proof (induction "length s - jd_cur js" arbitrary: js rule: less_induct)
  case less
  show ?case
  proof (cases "at s (jd_cur js) = 0")
    case True
    then show ?thesis
      using less.prems by (subst dom_parse_loop.simps) simp
  next
    case False
    obtain q js1 where st: "dom_step s js = Some (q, js1)" "dom_inv s r js1" "q = -1 \<or> q = 0 \<and> jd_cur js < jd_cur js1"
      using dom_step_ok[OF less.prems False assms] by (auto simp: stepped_def)
    have run: "dom_parse_loop s js = (if q < 0 then Some (-1, js1) else dom_parse_loop s js1)"
      using False st(1) by (subst dom_parse_loop.simps) simp
    show ?thesis
    proof (cases "q = -1")
      case True
      then show ?thesis
        using run st(2) by simp
    next
      case False
      then have "length s - jd_cur js1 < length s - jd_cur js"
        using st(3) at_nonzero[OF \<open>at s (jd_cur js) \<noteq> 0\<close>] by linarith
      then show ?thesis
        using less.hyps[OF _ st(2)] run st(3) False by simp
    qed
  qed
qed

lemma json_dom_parse_ok:
  assumes "length s < 2 ^ 32"
  obtains q js' where "json_dom_parse s js = Some (q, js')" "dom_tree s (Suc (jd_count js)) js'" "q = 0 \<or> q = -1"
    "q = 0 \<Longrightarrow> jd_node js' = Suc (jd_count js) \<and> at s (jd_cur js') = 0"
proof -
  let ?r = "Suc (jd_count js)"
  define js0 where "js0 = (set_node ?r (\<lambda>_. dom_leaf (Value_lit []) 4 JSON_DOM_TYPE_OBJ)
      (set_node ?r (\<lambda>n. n\<lparr>nd_children_count := 0\<rparr>) (js\<lparr>jd_count := ?r\<rparr>)\<lparr>jd_node := ?r\<rparr>))
      \<lparr>jd_level := 0, jd_cur := 0, jd_err := Dom_none, jd_is_key := False\<rparr>"
  have run: "json_dom_parse s js =
      map_option (\<lambda>(r, js). if r < 0 then (r, js) else (0, js\<lparr>jd_node := ?r\<rparr>)) (dom_parse_loop s js0)"
    by (simp add: json_dom_parse_def dom_new_node_def Let_def js0_def)
  have "dom_tree s ?r js0"
    by (auto simp: dom_tree_def js0_def set_node_def node_ok_def Let_def dom_leaf_def kids_nil head0_def last0_def u32_def)
  then have "dom_inv s ?r js0"
    by (simp add: dom_inv_def) (simp add: js0_def set_node_def)
  then obtain q js1 where l: "dom_parse_loop s js0 = Some (q, js1)" "dom_inv s ?r js1" "q = -1 \<or> q = 0 \<and> at s (jd_cur js1) = 0"
    using dom_parse_loop_ok[OF assms] by blast
  show ?thesis
  proof (cases "q = -1")
    case True
    then show ?thesis
      using that[of "-1" js1] l run by (simp add: dom_inv_def)
  next
    case False
    then show ?thesis
      using that[of 0 "js1\<lparr>jd_node := ?r\<rparr>"] l run by (simp add: dom_inv_def dom_tree_def)
  qed
qed

section \<open>Reading\<close>

lemma filter_upt_Cons:
  assumes "filter P [a..<b] = x # xs"
  shows "filter P [Suc x..<b] = xs" "a \<le> x" "x < b"
proof -
  have x: "x \<in> set (filter P [a..<b])"
    unfolding assms by simp
  then have P: "P x"
    by simp
  from x show "a \<le> x" "x < b"
    by simp_all
  then have s: "[a..<b] = [a..<x] @ x # [Suc x..<b]"
    by (metis append_Cons append_Nil le_add_diff_inverse less_imp_le_nat upt_add_eq_append upt_conv_Cons)
  have "filter P [a..<x] = []"
  proof (rule ccontr)
    assume "filter P [a..<x] \<noteq> []"
    then have "hd (filter P [a..<x]) = x" "hd (filter P [a..<x]) \<in> set (filter P [a..<x])"
      using assms unfolding s by (cases "filter P [a..<x]"; simp)+
    then show False
      by simp
  qed
  then show "filter P [Suc x..<b] = xs"
    using assms P unfolding s by simp
qed

text \<open>Following the links from a child visits the children behind it.\<close>

lemma kids_walk:
  assumes "dom_tree s r js" "r \<le> p" "kids (jd_nodes js) p a (Suc (jd_count js)) = x # xs" "p < a"
  shows "x \<noteq> 0" "nd_next_sibling (jd_nodes js x) = head0 xs"
    "kids (jd_nodes js) p (Suc x) (Suc (jd_count js)) = xs" "p < Suc x"
proof -
  have k: "kids (jd_nodes js) p (Suc x) (Suc (jd_count js)) = xs" "a \<le> x" "x \<le> jd_count js"
    unfolding kids_def using filter_upt_Cons[OF assms(3)[unfolded kids_def]] by (blast, blast, linarith)
  have "x \<in> set (kids (jd_nodes js) p a (Suc (jd_count js)))"
    unfolding assms(3) by simp
  then have "nd_parent (jd_nodes js x) = p" "r \<le> x" "x \<noteq> r"
    using assms(2,4) by (auto simp: kids_range)
  then show "nd_next_sibling (jd_nodes js x) = head0 xs" "x \<noteq> 0"
    using dom_tree_node(1,2)[OF assms(1) _ k(3)] k(1) by (simp_all add: node_ok_def Let_def)
  show "kids (jd_nodes js) p (Suc x) (Suc (jd_count js)) = xs" "p < Suc x"
    using k assms(4) by simp_all
qed

lemma array_size_loop_ok:
  assumes "dom_tree s r js" "r \<le> p"
  shows "kids (jd_nodes js) p a (Suc (jd_count js)) = xs \<Longrightarrow> p < a \<Longrightarrow>
    array_size_loop js (head0 xs) n = Some (n + length xs)"
proof (induction xs arbitrary: a n)
  case Nil
  then show ?case
    by (subst array_size_loop.simps) (simp add: head0_def)
next
  case (Cons x xs)
  note w = kids_walk[OF assms Cons.prems]
  show ?case
    using w(1,2) Cons.IH[OF w(3,4)] by (subst array_size_loop.simps) (simp add: head0_def)
qed

lemma find_child_loop_ok:
  assumes "dom_tree s r js" "r \<le> p"
  defines "eq \<equiv> \<lambda>name i. length name = nd_value_len (jd_nodes js i) \<and> name = node_text s (jd_nodes js i)"
  shows "kids (jd_nodes js) p a (Suc (jd_count js)) = xs \<Longrightarrow> p < a \<Longrightarrow>
    find_child_loop s name js (head0 xs) = Some (case find (eq name) xs of None \<Rightarrow> 0 | Some i \<Rightarrow> dom_found js i)"
proof (induction xs arbitrary: a)
  case Nil
  then show ?case
    by (subst find_child_loop.simps) (simp add: head0_def)
next
  case (Cons x xs)
  note w = kids_walk[OF assms(1,2) Cons.prems]
  have "find_child_loop s name js x =
      (if eq name x then Some (dom_found js x) else find_child_loop s name js (head0 xs))"
    using w(1,2) by (subst find_child_loop.simps) (simp only: eq_def if_False)
  then show ?case
    using Cons.IH[OF w(3,4)] by (simp add: head0_def)
qed

lemma value_text_length:
  assumes "value_in s (nd_value n) (nd_value_len n)"
  shows "length (node_text s n) = nd_value_len n"
  using assms by (cases "nd_value n") (auto simp: node_text_def)

lemma dom_tree_reads:
  assumes t: "dom_tree s r js" and p: "r \<le> p" "p \<le> jd_count js"
  shows "json_dom_get_array_size p js = Some (if nd_type (jd_nodes js p) = JSON_DOM_TYPE_ARRAY
      then (0, length (dom_children js p)) else (-1, 0))"
    and "json_dom_find_child s p name js = Some (case find (\<lambda>i. node_text s (jd_nodes js i) = name) (dom_children js p) of
      None \<Rightarrow> 0 | Some i \<Rightarrow> dom_found js i)"
proof -
  have f: "nd_first_child (jd_nodes js p) = head0 (dom_children js p)" "p \<noteq> 0"
    using dom_tree_node(1,2)[OF t p] by (simp_all add: node_ok_def Let_def dom_children_def)
  show "json_dom_get_array_size p js = Some (if nd_type (jd_nodes js p) = JSON_DOM_TYPE_ARRAY
      then (0, length (dom_children js p)) else (-1, 0))"
    using array_size_loop_ok[OF t p(1) dom_children_def[symmetric], of 0] f
    by (simp add: json_dom_get_array_size_def)
  let ?eq = "\<lambda>i. length name = nd_value_len (jd_nodes js i) \<and> name = node_text s (jd_nodes js i)"
  have "?eq i \<longleftrightarrow> node_text s (jd_nodes js i) = name" if "i \<in> set (dom_children js p)" for i
  proof -
    have "r \<le> i" "i \<noteq> r" "i \<le> jd_count js"
      using that p(1) by (auto simp: dom_children_def kids_range)
    then have "value_in s (nd_value (jd_nodes js i)) (nd_value_len (jd_nodes js i))"
      using dom_tree_node(1)[OF t, of i] by (simp add: node_ok_def Let_def)
    from value_text_length[OF this] show ?thesis
      by auto
  qed
  then have "find ?eq (dom_children js p) = find (\<lambda>i. node_text s (jd_nodes js i) = name) (dom_children js p)"
    by (intro find_cong) auto
  then show "json_dom_find_child s p name js = Some (case find (\<lambda>i. node_text s (jd_nodes js i) = name) (dom_children js p) of
      None \<Rightarrow> 0 | Some i \<Rightarrow> dom_found js i)"
    using find_child_loop_ok[OF t p(1) dom_children_def[symmetric], of name] f
    by (simp add: json_dom_find_child_def get_node_def)
qed

section \<open>Properties\<close>


definition blank_dom :: json_dom where
  "blank_dom = \<lparr>jd_level = 0, jd_cur = 0, jd_err = Dom_none, jd_is_key = False, jd_node = 0,
     jd_nodes = (\<lambda>_. dom_leaf No_value 0 JSON_DOM_TYPE_STR), jd_count = 0\<rparr>"


end
