(* ===== verification/Json_Vmb.thy ===== *)
theory Json_Vmb
  imports Json Vmbuf
begin

text \<open>
  The escapes of \<^verbatim>\<open>src/json.c\<close> that write into a \<^verbatim>\<open>vmbuf\<close>, where the two components meet: the room asked for,
  twice the length and one for the terminator, is enough for what the escape writes behind the write position.
\<close>

text \<open>The product is one of 32 bits; the result of \<^verbatim>\<open>vmbuf_resize_if_less\<close> is not looked at.\<close>

definition json_nescape_str_vmb :: "byte list \<Rightarrow> nat \<Rightarrow> 'w vst \<Rightarrow> (nat \<times> 'w vst) option" where
  "json_nescape_str_vmb src len s = do {
     (_, (v, w)) \<leftarrow> vmbuf_resize_if_less (u32 (len * 2 + 1)) s;
     p \<leftarrow> vmbuf_wlocpos v;
     let (d, l) = json_nescape_str src len;
     v \<leftarrow> vb_store p d v;
     (_, s) \<leftarrow> vmbuf_wseek l (v, w);
     Some (l, s) }"

definition json_escape_str_vmb :: "byte list \<Rightarrow> 'w vst \<Rightarrow> (nat \<times> 'w vst) option" where
  "json_escape_str_vmb src s = do {
     (_, (v, w)) \<leftarrow> vmbuf_resize_if_less (add64 (mul64 (length src) 2) 1) s;
     p \<leftarrow> vmbuf_wlocpos v;
     let (d, l) = json_escape_str src;
     v \<leftarrow> vb_store p d v;
     (_, s) \<leftarrow> vmbuf_wseek l (v, w);
     Some (l, s) }"

lemma escaped_length: "length (concat (map esc_byte xs)) \<le> 2 * length xs"
proof (induction xs)
  case (Cons x xs)
  have "length (esc_byte x) \<le> 2"
    by (simp add: esc_byte_def Let_def)
  then show ?case
    using Cons by simp
qed simp

context vmbuf_memory
begin

lemma escape_room:
  assumes "vb_ok own f s" "\<not> refuses f" "vh_wloc (vb_header (fst s)) + n < 2 ^ 56" "length d < n"
  obtains v w p u s' where "vmbuf_resize_if_less n s = Some (0, (v, w))" "vmbuf_wlocpos v = Some p"
    "vb_store p (d @ [0]) v = Some u" "vmbuf_wseek (length d) (u, w) = Some (0, s')"
    "vb_ok own f s'" "contents (fst s') = contents (fst s) @ d"
proof -
  obtain v w where s: "s = (v, w)"
    by (cases s)
  have r: "vb_room own f (v, w)" "vh_wloc (vb_header v) + n < 2 ^ 56"
    using assms(1,3) by (simp_all add: vb_ok_def s)
  obtain v' w' where g: "vmbuf_resize_if_less n (v, w) = Some (0, (v', w'))" "vb_same v v'"
      "vb_room own f (v', w')" "vh_wloc (vb_header v) + n \<le> vb_capacity v'"
    using resize_if_less[OF r] assms(2) by blast
  obtain u where u: "vb_store (vh_wloc (vb_header v')) (d @ [0]) v' = Some u"
      "vb_wrote own f d (v', w') (vmbuf_wseek (length d) (u, w'))"
    by (rule store_wseek[OF g(3), of d "[0]"]) (use g(2,4) r(2) assms(4) in \<open>simp_all add: vb_same_def\<close>)
  have "vb_wrote own f d (v, w) (vmbuf_wseek (length d) (u, w'))"
    by (rule vb_wrote_same[OF u(2) g(2)])
  then show ?thesis
    using that[of v' w' "vh_wloc (vb_header v')" u] g(1) u(1) assms(2) room_wlocpos[OF g(3)]
    by (auto simp: s vb_wrote_def)
qed

lemma escape_str_vmb:
  assumes "vb_ok own f s" "\<not> refuses f" "vh_wloc (vb_header (fst s)) + (2 * length src + 1) < 2 ^ 56"
  shows "\<exists>l s'. json_escape_str_vmb src s = Some (l, s') \<and> vb_ok own f s' \<and>
    contents (fst s') = contents (fst s) @ concat (map esc_byte src) \<and> l = length (concat (map esc_byte src))"
proof -
  let ?d = "concat (map esc_byte src)"
  have n: "add64 (mul64 (length src) 2) 1 = 2 * length src + 1"
    using assms(3) by (simp add: mul64_small add64_small)
  have "length ?d < 2 * length src + 1"
    using escaped_length[of src] by linarith
  then obtain v w p u s' where e: "vmbuf_resize_if_less (2 * length src + 1) s = Some (0, (v, w))" "vmbuf_wlocpos v = Some p"
    "vb_store p (?d @ [0]) v = Some u" "vmbuf_wseek (length ?d) (u, w) = Some (0, s')"
    "vb_ok own f s'" "contents (fst s') = contents (fst s) @ ?d"
    using escape_room[OF assms] by metis
  then show ?thesis
    unfolding json_escape_str_vmb_def n by (simp add: json_escape_str_def Let_def)
qed

end

end
