(* ===== verification/Spec2Isabelle.thy ===== *)
theory Spec2Isabelle
  imports Hashtable_Ops Context Base64 Uri Json Vmfile Thashtable Pqueue Ringbuf Search Bitvect Json_Dom Json_Vmb
begin

text \<open>
  RIBS2 is a framework for event-driven servers in C.  Its parts under \<^verbatim>\<open>src/\<close> and \<^verbatim>\<open>include/\<close> are the memory
  layers (pools of mapped chunks, arenas of a context, growing buffers and files), the containers built on them
  (hash tables, lists, a heap, rings, bit vectors), the text formats (base64, URI encoding, JSON), and on top the
  fibers, the event loop, the HTTP server and client, the database and data set tools.  This library models the first
  three groups and the pool of fiber stacks.

  \<^bold>\<open>Conventions.\<close>  A C integer is a \<^typ>\<open>nat\<close> whose operations wrap around where the code computes (\<open>u32\<close>, \<open>u64\<close>,
  \<open>add64\<close>, \<open>sub64\<close>, \<open>mul64\<close>, \<open>shl64\<close> of \<open>Ribs_Prelude\<close>); a byte is an 8-bit word, a block of a bit vector a 64-bit
  word.  A structure is a record with the fields of the C structure and those of the memory it points to; an operation
  takes the state and returns it.  Where an operation may access memory it does not own, or a loop may run forever, its
  result is an option and \<^term>\<open>None\<close> is that case: a theorem that the result is \<^term>\<open>Some\<close> shows that the code
  returns and stays inside its memory.  Loops are functions with a measure, or partial functions whose ending is
  proved; no definition uses fuel.  What the kernel answers (\<^verbatim>\<open>mmap\<close>, \<^verbatim>\<open>mremap\<close>, \<^verbatim>\<open>ftruncate\<close>, \<^verbatim>\<open>read\<close>, \<^verbatim>\<open>write\<close>,
  \<^verbatim>\<open>open\<close>) and what a formatter or a comparison callback returns are parameters; what is relied on are named
  hypotheses such as \<open>mmap_fresh\<close>, \<open>vm_kernel_ok\<close>, \<open>ring_grants\<close> and the locale \<open>comparison\<close>, each with an instance
  that meets it.  Unmapping and closing what a structure owns succeed, and log output is left out.

  \<^bold>\<open>Memory.\<close>
  \<^item> \<open>Mempool\<close> (\<^verbatim>\<open>mempool.c\<close>): free lists of chunks by size.  The chunks in use are disjoint and none is lost, after
    any run of allocations and releases; the locale \<open>chunk_pool\<close> is the contract the allocators use.
  \<^item> \<open>Memalloc\<close>, \<open>Memalloc_Proofs\<close>, \<open>Memalloc_Props\<close> (\<^verbatim>\<open>memalloc.c\<close>, \<^verbatim>\<open>_memalloc.c\<close>, \<^verbatim>\<open>_malloc.c\<close>): arenas over the
    pool.  An allocation returns memory of its own; formatted text is appended in place or moved; a reset gives
    every block back.  \<open>Arena\<close> states this for the current context as the locale \<open>arena\<close>.
  \<^item> \<open>Context\<close> (\<^verbatim>\<open>context.c\<close>, \<^verbatim>\<open>ctx_pool.c\<close>): the pool of stacks hands out disjoint stacks; the cleanup of a context.
  \<^item> \<open>Vmallocator\<close> (\<^verbatim>\<open>vmallocator.c\<close>): segments that grow, with or without alignment, in memory or in a file; the
    locale \<open>segment_alloc\<close>.
  \<^item> \<open>Vmbuf\<close> (\<^verbatim>\<open>vmbuf.c\<close>, \<^verbatim>\<open>_vmbuf.c\<close>): byte buffers over a table of memory functions.  The locale \<open>vmbuf_memory\<close> is
    what such a table promises and is interpreted for the four tables of the code; the lemmas inside it show what
    every operation appends, also when the buffer moves.  \<open>Vmfile\<close> (\<^verbatim>\<open>_vmfile.c\<close>, \<^verbatim>\<open>_vmbuf_impl.c\<close>) is the buffer over a
    file; both are instances of \<open>byte_sink\<close>.
  \<^item> \<open>Ringbuf\<close> (\<^verbatim>\<open>ringbuf.c\<close>, \<^verbatim>\<open>ringfile.c\<close>): bytes mapped twice in a row as a queue.  The locale \<open>ring\<close> is interpreted for
    the buffer and the file; resizing a file keeps the newest bytes and the reserved area.

  \<^bold>\<open>Containers.\<close>
  \<^item> \<open>Open_Addressing\<close>: linear probing, doubling in place and the repair of a chain after a removal, over any
    array of buckets (locale \<open>bucket_array\<close>).  \<open>Hashtable\<close>, \<open>Hashtable_Ops\<close> (\<^verbatim>\<open>hashtable.c\<close>) instantiate it with a segment,
    \<open>Thashtable\<close> (\<^verbatim>\<open>thashtable.c\<close>) with the memory of a context; \<open>Keyed_Table\<close> has what they share.  Insertion, lookup and
    removal always return and refine the update of a finite map.  \<open>Hash_Funcs\<close> are the hash functions and \<^verbatim>\<open>ilog2\<close>.
  \<^item> \<open>Dll\<close> (\<^verbatim>\<open>list.h\<close>): circular doubly linked lists simulate sequences (locale \<open>simulation\<close> of \<open>Ribs_Prelude\<close>).
  \<^item> \<open>Pqueue\<close> (\<^verbatim>\<open>heap.c\<close>): the heap is a multiset with its maximum on top; the removal by location is shown to take
    the wrong item.
  \<^item> \<open>Search\<close> (\<^verbatim>\<open>search.c\<close>, \<^verbatim>\<open>binary_search.h\<close>): bisection ends and equals linear search; the locale \<open>bisection\<close> is
    interpreted at 32 and at 64 bits, up to the sizes at which the sum of two positions wraps around.
  \<^item> \<open>Bitvect\<close> (\<^verbatim>\<open>bitvect.h\<close>): bit vectors are sets; the collected writes of \<^verbatim>\<open>bitvect_from_index\<close> equal the simple loop;
    where \<^verbatim>\<open>bitvect_set_resize\<close> leaves its memory.

  \<^bold>\<open>Text.\<close>
  \<^item> \<open>Base64\<close> (\<^verbatim>\<open>base64.c\<close>) and \<open>Uri\<close> (\<^verbatim>\<open>_uri_encode.c\<close>, \<^verbatim>\<open>_uri_decode.c\<close>): round trips and sizes of the output.
  \<^item> \<open>Json\<close> (\<^verbatim>\<open>json.c\<close>): the event parser returns on every text with well-nested events inside the text; escapes.
    \<open>Json_Vmb\<close> has the escapes into a \<^verbatim>\<open>vmbuf\<close>.  \<open>Json_Dom\<close> (\<^verbatim>\<open>json_dom.c\<close>): the tree parser, which shares the scanning
    loops, builds a well-formed tree on every text and the accessors read it.

  \<^bold>\<open>Bounds.\<close>  Where a size could wrap around, a theorem bounds it: \<open>2 ^ 56\<close> bytes for a buffer, \<open>2 ^ 61\<close> for a ring file,
  \<open>2 ^ 31\<close> entries for the heap and elements of a 32-bit search, \<open>2 ^ 31\<close> bytes for a text given to the tree parser.
  They are far above what an address space or the 32-bit fields of the structures can hold.

  \<^bold>\<open>Not modelled.\<close>  The assembly of the context switch and the initial stack frames; the event loop, timers, the HTTP
  server and client, \<^verbatim>\<open>ribify\<close> and the mail client, which interleave fibers with socket I/O; \<^verbatim>\<open>mysql_*\<close>, \<^verbatim>\<open>ribs_ssl\<close>
  and \<^verbatim>\<open>ribs_zlib\<close>, which call libraries whose code is not here; \<^verbatim>\<open>daemonize\<close> and \<^verbatim>\<open>logger\<close>; the data set files, their
  code generator and indexes; the tables \<^verbatim>\<open>lhashtable\<close> and \<^verbatim>\<open>hashtable_vect\<close>; the tables and handlers of headers,
  cookies, MIME types and files; \<^verbatim>\<open>kmeans\<close>, which computes with floating-point numbers; of the modelled files, printing
  (\<^verbatim>\<open>_dump\<close>, \<^verbatim>\<open>bitvect_dump\<close>), the path index and the number conversions of \<^verbatim>\<open>json_dom.c\<close>, \<^verbatim>\<open>heap_free\<close>,
  \<^verbatim>\<open>bitvect_init_vmbuf\<close> and the pointer arithmetic of \<^verbatim>\<open>vmallocator\<close>.
\<close>

end
